(* ===== verification/Prelude.thy ===== *)
theory Prelude
  imports Complex_Main "HOL-Library.AList" "HOL-Library.Log_Nat" "HOL-Library.Word"
begin

text \<open>
  Vocabulary shared by every component: the exceptions the Python sources can raise, results that
  are either an exception or a value, and Python dictionaries as association lists.

  A Python \<open>dict\<close> keeps its keys in insertion order and a store to an existing key keeps the
  key's position; \<open>AList.update\<close> does exactly that, so a dictionary with string keys is an
  association list whose keys are distinct, read with \<open>map_of\<close>.
\<close>

section \<open>Results\<close>

datatype py_error =
    ZeroDivisionError
  | OverflowError
  | ValueError
  | TypeError
  | IndexError
  | KeyError string
  | AttributeError
  | FileNotFoundError

type_synonym 'a res = "py_error + 'a"

named_theorems res_simps \<open>what it means for a sequenced computation to return a value or to raise\<close>

text \<open>Sequencing: the first exception ends the computation.\<close>

fun bindE :: "'e + 'a \<Rightarrow> ('a \<Rightarrow> 'e + 'b) \<Rightarrow> 'e + 'b" where
  "bindE (Inl e) f = Inl e"
| "bindE (Inr x) f = f x"

lemma bindE_Inr_iff [res_simps]: "bindE m f = Inr y \<longleftrightarrow> (\<exists>x. m = Inr x \<and> f x = Inr y)"
  by (cases m) auto

lemma bindE_Inl_iff [res_simps]:
  "bindE m f = Inl e \<longleftrightarrow> m = Inl e \<or> (\<exists>x. m = Inr x \<and> f x = Inl e)"
  by (cases m) auto

lemma bindE_assoc [simp]: "bindE (bindE m f) g = bindE m (\<lambda>x. bindE (f x) g)"
  by (cases m) auto

lemma bindE_split:
  "P (bindE m f) \<longleftrightarrow> (\<forall>e. m = Inl e \<longrightarrow> P (Inl e)) \<and> (\<forall>x. m = Inr x \<longrightarrow> P (f x))"
  by (cases m) auto

lemma bindE_cong [fundef_cong]:
  "m = m' \<Longrightarrow> (\<And>x. m' = Inr x \<Longrightarrow> f x = g x) \<Longrightarrow> bindE m f = bindE m' g"
  by (cases m') auto

definition of_option :: "'e \<Rightarrow> 'a option \<Rightarrow> 'e + 'a" where
  "of_option e x = (case x of None \<Rightarrow> Inl e | Some v \<Rightarrow> Inr v)"

lemma of_option_simps [simp]: "of_option e None = Inl e" "of_option e (Some v) = Inr v"
  by (simp_all add: of_option_def)

lemma of_option_Inr_iff [res_simps]: "of_option e x = Inr v \<longleftrightarrow> x = Some v"
  by (cases x) auto

text \<open>A comprehension or loop that evaluates one expression per element.\<close>

fun mapE :: "('a \<Rightarrow> 'e + 'b) \<Rightarrow> 'a list \<Rightarrow> 'e + 'b list" where
  "mapE f [] = Inr []"
| "mapE f (x # xs) = bindE (f x) (\<lambda>y. bindE (mapE f xs) (\<lambda>ys. Inr (y # ys)))"

lemma mapE_Inr_iff [res_simps]: "mapE f xs = Inr ys \<longleftrightarrow> list_all2 (\<lambda>x y. f x = Inr y) xs ys"
  by (induction xs arbitrary: ys) (auto simp: res_simps list_all2_Cons1)

lemma mapE_member: "mapE f xs = Inr ys \<Longrightarrow> y \<in> set ys \<Longrightarrow> \<exists>x \<in> set xs. f x = Inr y"
  by (induction xs arbitrary: ys) (auto simp: bindE_Inr_iff)

lemma mapE_Inl: "mapE f xs = Inl e \<Longrightarrow> \<exists>x \<in> set xs. f x = Inl e"
  by (induction xs) (auto simp: res_simps)

lemma mapE_length: "mapE f xs = Inr ys \<Longrightarrow> length ys = length xs"
  by (induction xs arbitrary: ys) (auto simp: res_simps)

lemma mapE_total: "(\<And>x. x \<in> set xs \<Longrightarrow> f x = Inr (g x)) \<Longrightarrow> mapE f xs = Inr (map g xs)"
  by (induction xs) auto

lemma mapE_map: "(\<And>x. x \<in> set xs \<Longrightarrow> g (f x) = Inr (h x)) \<Longrightarrow> mapE g (map f xs) = Inr (map h xs)"
  by (induction xs) auto

lemma mapE_cong [fundef_cong]:
  "xs = ys \<Longrightarrow> (\<And>x. x \<in> set ys \<Longrightarrow> f x = g x) \<Longrightarrow> mapE f xs = mapE g ys"
  by (induction ys arbitrary: xs) (auto intro: bindE_cong)

text \<open>Filtering with a condition that may raise.\<close>

fun filterE :: "('a \<Rightarrow> 'e + bool) \<Rightarrow> 'a list \<Rightarrow> 'e + 'a list" where
  "filterE p [] = Inr []"
| "filterE p (x # xs) =
     bindE (p x) (\<lambda>b. bindE (filterE p xs) (\<lambda>ys. Inr (if b then x # ys else ys)))"

lemma filterE_total: "(\<And>x. x \<in> set xs \<Longrightarrow> p x = Inr (q x)) \<Longrightarrow> filterE p xs = Inr (filter q xs)"
  by (induction xs) auto

lemma filterE_set:
  "filterE p xs = Inr ys \<Longrightarrow> set ys = {x \<in> set xs. p x = Inr True}"
  by (induction xs arbitrary: ys) (auto simp: res_simps split: if_splits)

text \<open>A computation that returns a value, and the rules that show it step by step.\<close>

definition returns :: "'e + 'a \<Rightarrow> bool" where
  "returns m \<longleftrightarrow> (\<exists>x. m = Inr x)"

named_theorems returns_intro \<open>rules to show that a computation returns\<close>

lemma returns_Inr [simp, returns_intro]: "returns (Inr x)"
  by (simp add: returns_def)

lemma returns_Inl [simp]: "\<not> returns (Inl e)"
  by (simp add: returns_def)

lemma returnsI: "m = Inr x \<Longrightarrow> returns m"
  by (simp add: returns_def)

lemma returnsD: "returns m \<Longrightarrow> \<exists>x. m = Inr x"
  by (simp add: returns_def)

lemma returns_bind [returns_intro]:
  "returns m \<Longrightarrow> (\<And>x. m = Inr x \<Longrightarrow> returns (f x)) \<Longrightarrow> returns (bindE m f)"
  by (cases m) auto

lemma returns_mapE [returns_intro]: "(\<And>x. x \<in> set xs \<Longrightarrow> returns (f x)) \<Longrightarrow> returns (mapE f xs)"
  by (induction xs) (auto intro!: returns_bind)

lemma returns_filterE [returns_intro]: "(\<And>x. x \<in> set xs \<Longrightarrow> returns (p x)) \<Longrightarrow> returns (filterE p xs)"
  by (induction xs) (auto intro!: returns_bind)

lemma returns_if [returns_intro]:
  "(c \<Longrightarrow> returns m) \<Longrightarrow> (\<not> c \<Longrightarrow> returns n) \<Longrightarrow> returns (if c then m else n)"
  by simp

section \<open>Dictionaries\<close>

type_synonym 'v dict = "(string \<times> 'v) list"

definition keys :: "'v dict \<Rightarrow> string list" where
  "keys d = map fst d"

lemma keys_simps [simp]: "keys [] = []" "keys ((k, v) # d) = k # keys d"
  by (simp_all add: keys_def)

text \<open>\<open>d[k]\<close>, \<open>d.get(k, dflt)\<close>, \<open>d[k] = v\<close> and \<open>d.update(e)\<close>.\<close>

definition sub :: "'v dict \<Rightarrow> string \<Rightarrow> 'v res" where
  "sub d k = of_option (KeyError k) (map_of d k)"

definition get_or :: "'v \<Rightarrow> 'v dict \<Rightarrow> string \<Rightarrow> 'v" where
  "get_or dflt d k = (case map_of d k of None \<Rightarrow> dflt | Some v \<Rightarrow> v)"

definition put :: "string \<Rightarrow> 'v \<Rightarrow> 'v dict \<Rightarrow> 'v dict" where
  "put k v d = AList.update k v d"

definition update_all :: "'v dict \<Rightarrow> 'v dict \<Rightarrow> 'v dict" where
  "update_all d e = fold (\<lambda>(k, v). put k v) e d"

lemma map_of_put [simp]: "map_of (put k v d) = (map_of d)(k \<mapsto> v)"
  by (simp add: put_def update_conv')

lemma keys_put: "keys (put k v d) = (if k \<in> set (keys d) then keys d else keys d @ [k])"
  by (induction d) (auto simp: put_def keys_def)

lemma distinct_put [simp]: "distinct (keys d) \<Longrightarrow> distinct (keys (put k v d))"
  by (auto simp: keys_put)

lemma set_keys_put [simp]: "set (keys (put k v d)) = insert k (set (keys d))"
  by (auto simp: keys_put)

lemma update_all_simps [simp]:
  "update_all d [] = d"
  "update_all d ((k, v) # e) = update_all (put k v d) e"
  by (simp_all add: update_all_def)

lemma set_keys_update_all [simp]: "set (keys (update_all d e)) = set (keys d) \<union> set (keys e)"
  by (induction e arbitrary: d) auto

lemma distinct_update_all [simp]: "distinct (keys d) \<Longrightarrow> distinct (keys (update_all d e))"
  by (induction e arbitrary: d) auto

lemma keys_map_of: "map_of d k = None \<longleftrightarrow> k \<notin> set (keys d)"
  by (simp add: keys_def map_of_eq_None_iff)

lemma map_of_update_all:
  "distinct (keys e) \<Longrightarrow> map_of (update_all d e) k = (if k \<in> set (keys e) then map_of e k else map_of d k)"
proof (induction e arbitrary: d)
  case (Cons kv e)
  then show ?case using keys_map_of [of e k] by (cases kv) auto
qed simp

lemma sub_Inr_iff [res_simps]: "sub d k = Inr v \<longleftrightarrow> map_of d k = Some v"
  by (simp add: sub_def res_simps)

lemma sub_total: "k \<in> set (keys d) \<Longrightarrow> \<exists>v. sub d k = Inr v"
  using keys_map_of [of d k] by (auto simp: sub_def)

section \<open>Lists\<close>

lemma last_filter_mem: "filter p xs \<noteq> [] \<Longrightarrow> last (filter p xs) \<in> set xs \<and> p (last (filter p xs))"
  using last_in_set [of "filter p xs"] by auto

lemma nth_append_last [simp]: "(xs @ [x]) ! length xs = x"
  by simp

lemma length_remove1_int: "x \<in> set xs \<Longrightarrow> int (length (remove1 x xs)) = int (length xs) - 1"
proof (induction xs)
  case (Cons a xs)
  then show ?case by (cases "x = a") auto
qed simp

section \<open>Go integers\<close>

text \<open>
  Go's \<open>/\<close> and \<open>%\<close> on signed integers truncate towards zero; \<open>wrap64\<close> is the two's-complement
  value that an \<open>int64\<close> operation keeps of its exact result.
\<close>

definition go_quot :: "int \<Rightarrow> int \<Rightarrow> int" where
  "go_quot a b = sgn a * sgn b * (\<bar>a\<bar> div \<bar>b\<bar>)"

definition go_rem :: "int \<Rightarrow> int \<Rightarrow> int" where
  "go_rem a b = sgn a * (\<bar>a\<bar> mod \<bar>b\<bar>)"

definition wrap64 :: "int \<Rightarrow> int" where
  "wrap64 i = sint (word_of_int i :: 64 word)"

lemma go_rem_mod: "0 \<le> a \<Longrightarrow> 0 < b \<Longrightarrow> go_rem a b = a mod b"
  by (cases "a = 0") (simp_all add: go_rem_def)

lemma go_quot_div: "0 \<le> a \<Longrightarrow> 0 < b \<Longrightarrow> go_quot a b = a div b"
  by (cases "a = 0") (simp_all add: go_quot_def)

lemma wrap64_id: "- (2 ^ 63) \<le> i \<Longrightarrow> i < 2 ^ 63 \<Longrightarrow> wrap64 i = i"
  by (simp add: wrap64_def signed_of_int signed_take_bit_int_eq_self)

lemma wrap64_range: "- (2 ^ 63) \<le> wrap64 i" "wrap64 i < 2 ^ 63"
  using sint_greater_eq [of "word_of_int i :: 64 word"] sint_less [of "word_of_int i :: 64 word"]
  by (simp_all add: wrap64_def)

end
