(* ===== verification/Floats.thy ===== *)
theory Floats
  imports Prelude
begin

text \<open>
  IEEE-754 binary64 numbers as Python's \<open>float\<close> and Go's \<open>float64\<close> compute with them. A finite
  double is a rational number; \<open>rnd\<close> is rounding to nearest, ties to even, with 53 significant
  bits and the exponent range of subnormals, and \<open>mk\<close> adds the overflow to an infinity. The sign
  of a zero is not represented: no code modelled here tells the two zeros apart.
\<close>

section \<open>Rounding\<close>

text \<open>\<open>rhe\<close> rounds to the nearest integer, a tie to the even one; \<open>grid x\<close> is the exponent of
  the last place of the double nearest to \<open>x\<close>.\<close>

definition rhe :: "rat \<Rightarrow> int" where
  "rhe x = (let f = \<lfloor>x\<rfloor>; d = x - of_int f in
     if d < 1 / 2 then f else if 1 / 2 < d then f + 1 else if even f then f else f + 1)"

definition ilog2 :: "rat \<Rightarrow> int" where
  "ilog2 x = (let (p, q) = quotient_of x; k = bitlen p - bitlen q in
     if 2 powi k \<le> x then k else k - 1)"

definition grid :: "rat \<Rightarrow> int" where
  "grid x = max (ilog2 \<bar>x\<bar> - 52) (- 1074)"

definition rnd :: "rat \<Rightarrow> rat" where
  "rnd x = (if x = 0 then 0 else of_int (rhe (x / 2 powi grid x)) * 2 powi grid x)"

text \<open>Evaluation: powers of two are computed on integers.\<close>

definition pow2 :: "int \<Rightarrow> rat" where
  "pow2 e = (if 0 \<le> e then of_int (2 ^ nat e) else 1 / of_int (2 ^ nat (- e)))"

lemma pow2_powi: "pow2 e = 2 powi e"
  by (simp add: pow2_def power_int_def inverse_eq_divide power_one_over)

lemma ilog2_code [code]: "ilog2 x = (let (p, q) = quotient_of x; k = bitlen p - bitlen q in
    if pow2 k \<le> x then k else k - 1)"
  by (simp add: ilog2_def pow2_powi)

lemma rnd_code [code]: "rnd x = (if x = 0 then 0 else
    let u = pow2 (grid x) in of_int (rhe (x / u)) * u)"
  by (simp add: rnd_def pow2_powi Let_def)

lemma rhe_bounds: "\<bar>of_int (rhe x) - x\<bar> \<le> 1 / 2"
  by (auto simp: rhe_def Let_def abs_if; linarith)

lemma rhe_of_int [simp]: "rhe (of_int n) = n"
  by (simp add: rhe_def)

lemma rhe_numeral [simp]: "rhe (numeral k) = numeral k" "rhe 0 = 0" "rhe 1 = 1"
  using rhe_of_int [of "numeral k"] rhe_of_int [of 0] rhe_of_int [of 1] by simp_all

lemma rhe_mono: "x \<le> y \<Longrightarrow> rhe x \<le> rhe y"
proof -
  assume le: "x \<le> y"
  then have fl: "\<lfloor>x\<rfloor> \<le> \<lfloor>y\<rfloor>" by (rule floor_mono)
  show ?thesis
  proof (cases "\<lfloor>x\<rfloor> = \<lfloor>y\<rfloor>")
    case True
    then show ?thesis using le by (auto simp: rhe_def Let_def)
  next
    case False
    with fl have "\<lfloor>x\<rfloor> + 1 \<le> \<lfloor>y\<rfloor>" by simp
    moreover have "rhe x \<le> \<lfloor>x\<rfloor> + 1" "\<lfloor>y\<rfloor> \<le> rhe y" by (auto simp: rhe_def Let_def)
    ultimately show ?thesis by linarith
  qed
qed

lemma rhe_minus: "rhe (- x) = - rhe x"
proof (cases "x = of_int \<lfloor>x\<rfloor>")
  case True
  then have "- x = of_int (- \<lfloor>x\<rfloor>)" by simp
  then show ?thesis by (metis True rhe_of_int)
next
  case False
  then have "of_int \<lfloor>x\<rfloor> < x" "x < of_int \<lfloor>x\<rfloor> + 1" by linarith+
  then have "\<lfloor>- x\<rfloor> = - \<lfloor>x\<rfloor> - 1" by (intro floor_unique) auto
  then show ?thesis
    unfolding rhe_def Let_def by (cases "even \<lfloor>x\<rfloor>"; cases "x - of_int \<lfloor>x\<rfloor> < 1 / 2"; cases "x - of_int \<lfloor>x\<rfloor> = 1 / 2") simp_all
qed

lemma bitlen_powi:
  assumes "0 < p"
  shows "(2::rat) powi (bitlen p - 1) \<le> of_int p" and "of_int p < (2::rat) powi bitlen p"
proof -
  have "1 \<le> bitlen p" using assms bitlen_eq_zero_iff [of p] bitlen_nonneg [of p] by linarith
  then have e: "(2::rat) powi (bitlen p - 1) = of_int (2 ^ nat (bitlen p - 1))"
    "(2::rat) powi bitlen p = of_int (2 ^ nat (bitlen p))"
    by (simp_all add: power_int_nonneg_exp)
  show "(2::rat) powi (bitlen p - 1) \<le> of_int p" "of_int p < (2::rat) powi bitlen p"
    unfolding e of_int_le_iff of_int_less_iff using bitlen_bounds [OF assms] by simp_all
qed

lemma powi2_add1: "(2::rat) powi (a + 1) = 2 * 2 powi a"
  by (simp add: power_int_add)

lemma ilog2_bounds:
  assumes "0 < x"
  shows "2 powi ilog2 x \<le> x" and "x < 2 powi (ilog2 x + 1)"
proof -
  obtain p q where pq: "quotient_of x = (p, q)" by (cases "quotient_of x")
  then have q: "0 < q" and x: "x = of_int p / of_int q"
    by (simp_all add: quotient_of_denom_pos quotient_of_div)
  with assms have p: "0 < p" by (simp add: zero_less_divide_iff)
  let ?k = "bitlen p - bitlen q"
  have lo: "2 powi (?k - 1) \<le> x"
  proof -
    have "(2::rat) powi (?k - 1) = 2 powi (bitlen p - 1) / 2 powi bitlen q"
      using powi2_add1 [of "bitlen q"] by (simp add: power_int_diff field_simps)
    also have "\<dots> \<le> x"
      unfolding x using bitlen_powi [OF p] bitlen_powi [OF q] q p by (intro frac_le) auto
    finally show ?thesis .
  qed
  have hi: "x < 2 powi (?k + 1)"
  proof -
    have "x < 2 powi bitlen p / 2 powi (bitlen q - 1)"
      unfolding x using bitlen_powi [OF p] bitlen_powi [OF q] q p by (intro frac_less) auto
    also have "\<dots> = 2 powi (?k + 1)"
      unfolding powi2_add1 [of ?k] by (simp add: power_int_diff)
    finally show ?thesis .
  qed
  show "2 powi ilog2 x \<le> x" using lo by (auto simp: ilog2_def pq Let_def)
  show "x < 2 powi (ilog2 x + 1)" using hi by (auto simp: ilog2_def pq Let_def)
qed

lemma powi2_le_iff: "(2::rat) powi a \<le> 2 powi b \<longleftrightarrow> a \<le> b"
  by (metis linorder_not_less one_less_numeral_iff order_less_le power_int_increasing
      power_int_strict_increasing semiring_norm(76))

lemma powi2_less_iff: "(2::rat) powi a < 2 powi b \<longleftrightarrow> a < b"
  using powi2_le_iff [of b a] by linarith

lemma ilog2_mono: "0 < x \<Longrightarrow> x \<le> y \<Longrightarrow> ilog2 x \<le> ilog2 y"
proof -
  assume "0 < x" "x \<le> y"
  then have "(2::rat) powi ilog2 x < 2 powi (ilog2 y + 1)"
    using ilog2_bounds [of x] ilog2_bounds [of y] by linarith
  then show ?thesis by (simp add: powi2_less_iff)
qed

lemma rnd_0 [simp]: "rnd 0 = 0"
  by (simp add: rnd_def)

lemma grid_minus: "grid (- x) = grid x"
  by (simp add: grid_def)

lemma rnd_minus: "rnd (- x) = - rnd x"
proof (cases "x = 0")
  case False
  have "rhe (- x / 2 powi grid x) = - rhe (x / 2 powi grid x)"
    using rhe_minus [of "x / 2 powi grid x"] by simp
  with False show ?thesis by (simp add: rnd_def grid_minus)
qed simp

text \<open>Every number with at most 53 significant bits and an exponent in range is a double.\<close>

lemma rnd_representable:
  assumes m: "\<bar>m\<bar> \<le> 2 ^ 53" and e: "- 1074 \<le> e"
  shows "rnd (of_int m * 2 powi e) = of_int m * 2 powi e"
proof (cases "m = 0")
  case False
  let ?x = "of_int m * 2 powi e :: rat"
  have pos: "0 < \<bar>?x\<bar>" using False by simp
  have "\<bar>?x\<bar> \<le> of_int (2 ^ 53) * 2 powi e"
    unfolding abs_mult using m by (intro mult_mono) (simp_all flip: of_int_abs)
  also have "\<dots> = 2 powi (53 + e)" by (simp add: power_int_add)
  finally have up: "\<bar>?x\<bar> \<le> 2 powi (53 + e)" .
  have "\<exists>n. ?x / 2 powi grid ?x = of_int n"
  proof (cases "grid ?x \<le> e")
    case True
    then have "2 powi e / 2 powi grid ?x = (of_int (2 ^ nat (e - grid ?x)) :: rat)"
      by (simp add: power_int_nonneg_exp flip: power_int_diff)
    then have "?x / 2 powi grid ?x = of_int (m * 2 ^ nat (e - grid ?x))"
      by (simp add: times_divide_eq_right [symmetric] del: times_divide_eq_right)
    then show ?thesis by blast
  next
    case False
    with e have g: "grid ?x = ilog2 \<bar>?x\<bar> - 52" and l: "52 + e < ilog2 \<bar>?x\<bar>"
      by (auto simp: grid_def max_def split: if_splits)
    have "(2::rat) powi ilog2 \<bar>?x\<bar> \<le> 2 powi (53 + e)" using ilog2_bounds(1) [OF pos] up by linarith
    then have l': "ilog2 \<bar>?x\<bar> = 53 + e" using l by (simp add: powi2_le_iff)
    then have "\<bar>?x\<bar> = 2 powi (53 + e)" using ilog2_bounds(1) [OF pos] up by simp
    from l' g have ge: "grid ?x = e + 1" by simp
    have p2: "(2::rat) powi (53 + e) = 2 ^ 53 * 2 powi e"
      by (subst power_int_add) simp_all
    have "\<bar>?x / (2 * 2 powi e)\<bar> = 2 ^ 52"
      using \<open>\<bar>?x\<bar> = _\<close> unfolding abs_divide p2 by simp
    then have "?x / 2 powi grid ?x = 2 ^ 52 \<or> ?x / 2 powi grid ?x = - (2 ^ 52)"
      unfolding ge powi2_add1 by linarith
    then show ?thesis by (metis of_int_minus of_int_numeral of_int_power)
  qed
  then obtain n where n: "?x / 2 powi grid ?x = of_int n" ..
  then have "?x = of_int n * 2 powi grid ?x" by (simp add: divide_eq_eq)
  then show ?thesis using False n by (simp add: rnd_def)
qed simp

lemma rnd_int: "\<bar>n\<bar> \<le> 2 ^ 53 \<Longrightarrow> rnd (of_int n) = of_int n"
  using rnd_representable [of n 0] by simp

lemma rnd_powi: "- 1074 \<le> e \<Longrightarrow> rnd (2 powi e) = 2 powi e"
  using rnd_representable [of 1 e] by simp

lemma rnd_rhe: "x \<noteq> 0 \<Longrightarrow> rnd x = of_int (rhe (x / 2 powi grid x)) * 2 powi grid x"
  by (simp add: rnd_def)

lemma rnd_le_int: "0 < x \<Longrightarrow> x \<le> of_int n * 2 powi grid x \<Longrightarrow> rnd x \<le> of_int n * 2 powi grid x"
proof -
  assume "0 < x" "x \<le> of_int n * 2 powi grid x"
  then have "x / 2 powi grid x \<le> of_int n" by (simp add: divide_le_eq)
  then have "rhe (x / 2 powi grid x) \<le> n" using rhe_mono [of _ "of_int n"] by simp
  with \<open>0 < x\<close> show ?thesis by (simp add: rnd_rhe)
qed

lemma rnd_ge_int: "0 < x \<Longrightarrow> of_int n * 2 powi grid x \<le> x \<Longrightarrow> of_int n * 2 powi grid x \<le> rnd x"
proof -
  assume "0 < x" "of_int n * 2 powi grid x \<le> x"
  then have "of_int n \<le> x / 2 powi grid x" by (simp add: le_divide_eq)
  then have "n \<le> rhe (x / 2 powi grid x)" using rhe_mono [of "of_int n"] by simp
  with \<open>0 < x\<close> show ?thesis by (simp add: rnd_rhe)
qed

lemma less_grid: "0 < x \<Longrightarrow> x < of_int (2 ^ 53) * 2 powi grid x"
proof -
  assume x: "0 < x"
  then have "x < 2 powi (ilog2 x + 1)" by (rule ilog2_bounds)
  also have "\<dots> \<le> 2 powi (53 + grid x)" using x by (simp add: powi2_le_iff grid_def)
  also have "\<dots> = of_int (2 ^ 53) * 2 powi grid x" by (simp add: power_int_add)
  finally show ?thesis .
qed

lemma rnd_mono_pos:
  assumes x: "0 < x" and le: "x \<le> y"
  shows "rnd x \<le> rnd y"
proof (cases "grid x = grid y")
  case True
  have "x / 2 powi grid y \<le> y / 2 powi grid y" using le by (simp add: divide_right_mono)
  then have "rhe (x / 2 powi grid y) \<le> rhe (y / 2 powi grid y)" by (rule rhe_mono)
  with True x le show ?thesis by (simp add: rnd_rhe)
next
  case False
  moreover have "grid x \<le> grid y" using ilog2_mono [OF x le] x le by (simp add: grid_def)
  ultimately have g: "grid x + 1 \<le> grid y" by simp
  then have gy: "grid y = ilog2 y - 52" using x le by (auto simp: grid_def)
  have "rnd x \<le> of_int (2 ^ 53) * 2 powi grid x"
    using less_grid [OF x] by (intro rnd_le_int x) simp
  also have "\<dots> = 2 powi (53 + grid x)" by (simp add: power_int_add)
  also have "\<dots> \<le> 2 powi (52 + grid y)" using g by (simp add: powi2_le_iff)
  also have e: "\<dots> = of_int (2 ^ 52) * 2 powi grid y" by (simp add: power_int_add)
  also have "\<dots> \<le> rnd y"
  proof (rule rnd_ge_int)
    show "0 < y" using x le by simp
    then have "2 powi (52 + grid y) \<le> y" using ilog2_bounds(1) [of y] by (simp add: gy)
    then show "of_int (2 ^ 52) * 2 powi grid y \<le> y" by (simp only: e)
  qed
  finally show ?thesis .
qed

lemma rnd_nonneg: "0 \<le> x \<Longrightarrow> 0 \<le> rnd x"
  using rnd_ge_int [of x 0] by (cases "x = 0") auto

lemma rnd_mono: "x \<le> y \<Longrightarrow> rnd x \<le> rnd y"
proof -
  assume le: "x \<le> y"
  consider "0 < x" | "x \<le> 0" "0 \<le> y" | "y < 0" by linarith
  then show ?thesis
  proof cases
    case 1
    with le show ?thesis by (simp add: rnd_mono_pos)
  next
    case 2
    then show ?thesis using rnd_nonneg [of y] rnd_nonneg [of "- x"] by (simp add: rnd_minus)
  next
    case 3
    then show ?thesis using rnd_mono_pos [of "- y" "- x"] le by (simp add: rnd_minus)
  qed
qed

lemma rnd_idem [simp]: "rnd (rnd x) = rnd x"
proof (cases "x = 0")
  case False
  have *: "rnd (rnd z) = rnd z" if z: "0 < z" for z
  proof -
    let ?m = "rhe (z / 2 powi grid z)"
    have "z / 2 powi grid z \<le> of_int (2 ^ 53)"
      using less_grid [OF z] by (simp add: divide_le_eq)
    then have "?m \<le> 2 ^ 53" using rhe_mono [of _ "of_int (2 ^ 53)"] by simp
    moreover have "0 \<le> ?m" using z rhe_mono [of "of_int 0"] by simp
    ultimately have "\<bar>?m\<bar> \<le> 2 ^ 53" by simp
    moreover have "- 1074 \<le> grid z" by (simp add: grid_def)
    ultimately show ?thesis
      using rnd_representable [of ?m "grid z"] z by (simp add: rnd_rhe)
  qed
  consider "0 < x" | "0 < - x" using False by linarith
  then show ?thesis
  proof cases
    case 2
    then show ?thesis using * [of "- x"] by (simp add: rnd_minus)
  qed (rule *)
qed simp

lemma rnd_error:
  assumes "1 \<le> \<bar>x\<bar>"
  shows "\<bar>rnd x - x\<bar> \<le> \<bar>x\<bar> / 2 ^ 53"
proof -
  have pos: "0 < \<bar>x\<bar>" using assms by simp
  have "(2::rat) powi 0 < 2 powi (ilog2 \<bar>x\<bar> + 1)"
    using ilog2_bounds(2) [OF pos] assms by simp
  then have g: "grid x = ilog2 \<bar>x\<bar> - 52" by (simp only: powi2_less_iff) (simp add: grid_def)
  have "rnd x - x = (of_int (rhe (x / 2 powi grid x)) - x / 2 powi grid x) * 2 powi grid x"
    using assms by (subst rnd_rhe) (auto simp: left_diff_distrib)
  then have "\<bar>rnd x - x\<bar> \<le> 1 / 2 * 2 powi grid x"
    using rhe_bounds [of "x / 2 powi grid x"] by (simp add: abs_mult)
  also have "\<dots> = 2 powi ilog2 \<bar>x\<bar> / 2 ^ 53" by (simp add: g power_int_diff)
  also have "\<dots> \<le> \<bar>x\<bar> / 2 ^ 53" using ilog2_bounds(1) [OF pos] by (simp add: divide_right_mono)
  finally show ?thesis .
qed

section \<open>The interface of rounding\<close>

text \<open>
  What the threshold arithmetic of the server and the peak search of the recorder rely on: rounding
  is monotone, changes no double, no integer up to \<open>2 ^ 53\<close>, and has a small relative error.
\<close>

locale rounding =
  fixes rd :: "rat \<Rightarrow> rat"
  assumes rd_mono: "x \<le> y \<Longrightarrow> rd x \<le> rd y"
    and rd_idem: "rd (rd x) = rd x"
    and rd_int: "\<bar>n\<bar> \<le> 2 ^ 53 \<Longrightarrow> rd (of_int n) = of_int n"
    and rd_error: "1 \<le> \<bar>x\<bar> \<Longrightarrow> \<bar>rd x - x\<bar> \<le> \<bar>x\<bar> / 2 ^ 53"
begin

lemma rd_zero: "rd 0 = 0"
  using rd_int [of 0] by simp

lemma rd_nonneg: "0 \<le> x \<Longrightarrow> 0 \<le> rd x"
  using rd_mono [of 0 x] by (simp add: rd_zero)

text \<open>A share of a double never exceeds the double, and shares of one double keep their order.\<close>

lemma share_le: "rd x = x \<Longrightarrow> 0 \<le> x \<Longrightarrow> c \<le> 1 \<Longrightarrow> rd (c * x) \<le> x"
  using rd_mono [of "c * x" x] mult_right_mono [of c 1 x] by simp

lemma share_mono: "0 \<le> x \<Longrightarrow> c \<le> d \<Longrightarrow> rd (c * x) \<le> rd (d * x)"
  by (intro rd_mono mult_right_mono)

lemma trunc_share_mono: "0 \<le> x \<Longrightarrow> c \<le> d \<Longrightarrow> \<lfloor>rd (c * x)\<rfloor> \<le> \<lfloor>rd (d * x)\<rfloor>"
  by (intro floor_mono share_mono)

lemma rd_gap:
  assumes "1 \<le> x" "1 \<le> y" "x / 2 ^ 53 + y / 2 ^ 53 + 1 \<le> y - x"
  shows "\<lfloor>rd x\<rfloor> < \<lfloor>rd y\<rfloor>"
proof -
  have "rd x + 1 \<le> rd y"
    using rd_error [of x] rd_error [of y] assms by linarith
  then show ?thesis by linarith
qed

end

interpretation double: rounding rnd
  by unfold_locales (use rnd_mono rnd_idem rnd_int rnd_error in auto)

definition ulp :: rat where "ulp = 1 / 2 ^ 53"

lemma ulp_bounds: "0 < ulp" "ulp < 1"
  by (simp_all add: ulp_def)

lemma relative_bounds: "\<bar>r - x\<bar> \<le> x * e \<Longrightarrow> x * (1 - e) \<le> r \<and> r \<le> x * (1 + (e::rat))"
  by (simp add: abs_le_iff right_diff_distrib distrib_left)

lemma rd_relative: "1 \<le> x \<Longrightarrow> x * (1 - ulp) \<le> rnd x \<and> rnd x \<le> x * (1 + ulp)"
  using double.rd_error [of x] by (intro relative_bounds) (simp add: ulp_def)

lemma double_form:
  assumes "rnd x = x"
  shows "\<exists>m e. x = of_int m * 2 powi e \<and> \<bar>m\<bar> \<le> 2 ^ 53 \<and> - 1074 \<le> e"
proof (cases "x = 0")
  case True
  then show ?thesis by (intro exI [of _ 0]) auto
next
  case False
  let ?m = "rhe (x / 2 powi grid x)"
  have x: "x = of_int ?m * 2 powi grid x" using rnd_rhe [OF False] assms by simp
  have "\<bar>x\<bar> < 2 powi (ilog2 \<bar>x\<bar> + 1)" using False by (intro ilog2_bounds) simp
  also have "\<dots> \<le> 2 powi (53 + grid x)" unfolding powi2_le_iff by (simp add: grid_def)
  also have "\<dots> = 2 ^ 53 * 2 powi grid x" by (simp add: power_int_add)
  finally have "\<bar>of_int ?m :: rat\<bar> * 2 powi grid x < 2 ^ 53 * 2 powi grid x"
    by (subst (asm) x) (simp add: abs_mult)
  then have "(of_int \<bar>?m\<bar> :: rat) < of_int (2 ^ 53)" by simp
  then have "\<bar>?m\<bar> \<le> 2 ^ 53" unfolding of_int_less_iff by simp
  moreover have "- 1074 \<le> grid x" by (simp add: grid_def)
  ultimately show ?thesis using x by blast
qed

lemma rnd_twice: "rnd x = x \<Longrightarrow> rnd (2 * x) = 2 * x"
proof -
  assume "rnd x = x"
  then obtain m e where x: "x = of_int m * 2 powi e" "\<bar>m\<bar> \<le> 2 ^ 53" "- 1074 \<le> e" using double_form by blast
  then have e: "2 * x = of_int m * 2 powi (e + 1)" by (simp add: powi2_add1)
  show ?thesis unfolding e using x by (intro rnd_representable) simp_all
qed

text \<open>The fractional part of a double is a double.\<close>

lemma rnd_frac:
  assumes x: "rnd x = x" "0 \<le> x"
  shows "rnd (x - of_int \<lfloor>x\<rfloor>) = x - of_int \<lfloor>x\<rfloor>"
proof -
  obtain m e where m: "x = of_int m * 2 powi e" "\<bar>m\<bar> \<le> 2 ^ 53" "- 1074 \<le> e" using double_form [OF x(1)] by blast
  show ?thesis
  proof (cases "0 \<le> e")
    case True
    then have "x = of_int (m * 2 ^ nat e)" using m(1) by (simp add: power_int_nonneg_exp)
    then have "x - of_int \<lfloor>x\<rfloor> = 0" by simp
    then show ?thesis by simp
  next
    case False
    define k where "k = nat (- e)"
    have e: "(2::rat) powi e = 1 / 2 ^ k" using False by (simp add: k_def power_int_def power_one_over)
    have p: "(0::rat) < 2 powi e" by (rule zero_less_power_int) simp
    have m0: "0 \<le> m"
    proof (rule ccontr)
      assume "\<not> 0 \<le> m"
      then have "(of_int m :: rat) < 0" by simp
      then have "x < 0" unfolding m(1) using p by (rule mult_neg_pos)
      then show False using x(2) by simp
    qed
    have "\<lfloor>x\<rfloor> = m div 2 ^ k"
      using floor_divide_of_int_eq [of m "2 ^ k", where ?'a = rat] by (simp add: m(1) e)
    moreover have "(of_int m / 2 ^ k :: rat) = of_int (m div 2 ^ k) + of_int (m mod 2 ^ k) / 2 ^ k"
    proof -
      have "(of_int m :: rat) = of_int (m div 2 ^ k * 2 ^ k + m mod 2 ^ k)" by (simp only: div_mult_mod_eq)
      then have "(of_int m :: rat) = of_int (m div 2 ^ k) * 2 ^ k + of_int (m mod 2 ^ k)" by simp
      then have "(of_int m / 2 ^ k :: rat) = (of_int (m div 2 ^ k) * 2 ^ k + of_int (m mod 2 ^ k)) / 2 ^ k"
        by (simp only:)
      also have "\<dots> = of_int (m div 2 ^ k) + of_int (m mod 2 ^ k) / 2 ^ k" by (simp add: add_divide_distrib)
      finally show ?thesis .
    qed
    ultimately have "x - of_int \<lfloor>x\<rfloor> = of_int (m mod 2 ^ k) * 2 powi e"
      by (simp add: m(1) e)
    moreover have "\<bar>m mod 2 ^ k\<bar> \<le> 2 ^ 53"
      using m0 m(2) zmod_le_nonneg_dividend [of m "2 ^ k"] by simp
    ultimately show ?thesis using rnd_representable m(3) by simp
  qed
qed

lemma rnd_error_small:
  assumes "\<bar>x\<bar> < 1"
  shows "\<bar>rnd x - x\<bar> \<le> ulp"
proof (cases "x = 0")
  case False
  then have pos: "0 < \<bar>x\<bar>" by simp
  have "(2::rat) powi ilog2 \<bar>x\<bar> < 2 powi 0" using ilog2_bounds(1) [OF pos] assms by simp
  then have "grid x \<le> - 53" by (simp only: powi2_less_iff) (simp add: grid_def)
  then have p: "(2::rat) powi grid x \<le> 2 powi (- 53)" by (simp only: powi2_le_iff)
  have "rnd x - x = (of_int (rhe (x / 2 powi grid x)) - x / 2 powi grid x) * 2 powi grid x"
    using False by (subst rnd_rhe) (auto simp: left_diff_distrib)
  then have "\<bar>rnd x - x\<bar> \<le> 1 / 2 * 2 powi grid x"
    using rhe_bounds [of "x / 2 powi grid x"] by (simp add: abs_mult)
  with p show ?thesis by (simp add: ulp_def power_int_minus)
qed (simp add: ulp_def)

lemma rnd_error_total: "\<bar>rnd x - x\<bar> \<le> ulp * (1 + \<bar>x\<bar>)"
proof (cases "\<bar>x\<bar> < 1")
  case True
  then show ?thesis using rnd_error_small [OF True] by (simp add: ulp_def)
next
  case False
  then have "\<bar>rnd x - x\<bar> \<le> \<bar>x\<bar> / 2 ^ 53" by (intro rnd_error) simp
  then show ?thesis by (simp add: ulp_def)
qed


section \<open>Doubles\<close>

datatype flt = Fin rat | PInf | NInf | NaN

definition mk :: "rat \<Rightarrow> flt" where
  "mk x = (let r = rnd x in
     if r \<noteq> 0 \<and> 1024 \<le> ilog2 \<bar>r\<bar> then (if 0 < r then PInf else NInf) else Fin r)"

text \<open>The doubles: every arithmetic operation returns one.\<close>

fun is_double :: "flt \<Rightarrow> bool" where
  "is_double (Fin r) = (rnd r = r \<and> \<bar>r\<bar> < 2 ^ 1024)"
| "is_double _ = True"

text \<open>
  Comparisons with a NaN are false, as IEEE-754 has it, so \<open>flt\<close> is an instance of the
  class \<open>ord\<close> only. Arithmetic rounds the exact result.
\<close>

instantiation flt :: ord
begin

fun less_eq_flt :: "flt \<Rightarrow> flt \<Rightarrow> bool" where
  "less_eq_flt NaN y = False"
| "less_eq_flt x NaN = False"
| "less_eq_flt NInf y = True"
| "less_eq_flt x PInf = True"
| "less_eq_flt (Fin a) (Fin b) = (a \<le> b)"
| "less_eq_flt x y = False"

definition less_flt :: "flt \<Rightarrow> flt \<Rightarrow> bool" where
  "less_flt x y = (x \<le> y \<and> \<not> y \<le> x)"

instance ..

end

instantiation flt :: "{plus, minus, uminus, times}"
begin

fun uminus_flt :: "flt \<Rightarrow> flt" where
  "uminus_flt (Fin a) = Fin (- a)"
| "uminus_flt PInf = NInf"
| "uminus_flt NInf = PInf"
| "uminus_flt NaN = NaN"

fun plus_flt :: "flt \<Rightarrow> flt \<Rightarrow> flt" where
  "plus_flt (Fin a) (Fin b) = mk (a + b)"
| "plus_flt NaN y = NaN"
| "plus_flt x NaN = NaN"
| "plus_flt PInf NInf = NaN"
| "plus_flt NInf PInf = NaN"
| "plus_flt PInf y = PInf"
| "plus_flt x PInf = PInf"
| "plus_flt NInf y = NInf"
| "plus_flt x NInf = NInf"

definition minus_flt :: "flt \<Rightarrow> flt \<Rightarrow> flt" where
  "minus_flt x y = x + - y"

fun times_flt :: "flt \<Rightarrow> flt \<Rightarrow> flt" where
  "times_flt (Fin a) (Fin b) = mk (a * b)"
| "times_flt NaN y = NaN"
| "times_flt x NaN = NaN"
| "times_flt PInf (Fin b) = (if b = 0 then NaN else if 0 < b then PInf else NInf)"
| "times_flt NInf (Fin b) = (if b = 0 then NaN else if 0 < b then NInf else PInf)"
| "times_flt (Fin a) PInf = (if a = 0 then NaN else if 0 < a then PInf else NInf)"
| "times_flt (Fin a) NInf = (if a = 0 then NaN else if 0 < a then NInf else PInf)"
| "times_flt x y = (if x = y then PInf else NInf)"

instance ..

end

text \<open>Division by a non-zero double; what a zero divisor does depends on the language.\<close>

fun fdiv :: "flt \<Rightarrow> flt \<Rightarrow> flt" where
  "fdiv (Fin a) (Fin b) = mk (a / b)"
| "fdiv NaN y = NaN"
| "fdiv x NaN = NaN"
| "fdiv (Fin a) y = Fin 0"
| "fdiv PInf (Fin b) = (if b < 0 then NInf else PInf)"
| "fdiv NInf (Fin b) = (if b < 0 then PInf else NInf)"
| "fdiv x y = NaN"

lemma ilog2_ge_iff: "0 < x \<Longrightarrow> n \<le> ilog2 x \<longleftrightarrow> 2 powi n \<le> x"
proof
  assume x: "0 < x"
  {
    assume "n \<le> ilog2 x"
    then have "(2::rat) powi n \<le> 2 powi ilog2 x" by (simp add: powi2_le_iff)
    then show "2 powi n \<le> x" using ilog2_bounds(1) [OF x] by linarith
  next
    assume "2 powi n \<le> x"
    then have "(2::rat) powi n < 2 powi (ilog2 x + 1)" using ilog2_bounds(2) [OF x] by linarith
    then show "n \<le> ilog2 x" by (simp add: powi2_less_iff)
  }
qed

lemma mk_overflow: "r \<noteq> 0 \<and> 1024 \<le> ilog2 \<bar>r\<bar> \<longleftrightarrow> 2 ^ 1024 \<le> \<bar>r\<bar>"
proof (cases "r = 0")
  case False
  have "(2::rat) powi 1024 = 2 ^ 1024" by (rule power_int_numeral)
  with False ilog2_ge_iff [of "\<bar>r\<bar>" 1024] show ?thesis by (simp only:) simp
qed (simp del: power_numeral)

lemma mk_eq:
  "mk x = (if 2 ^ 1024 \<le> \<bar>rnd x\<bar> then (if 0 < rnd x then PInf else NInf) else Fin (rnd x))"
  unfolding mk_def Let_def mk_overflow ..

lemma mk_double [simp]: "is_double (mk x)"
  by (simp add: mk_eq not_le del: power_numeral)

lemma mk_Fin: "\<bar>rnd x\<bar> < 2 ^ 1024 \<Longrightarrow> mk x = Fin (rnd x)"
  by (simp add: mk_eq del: power_numeral)

lemma is_double_uminus [simp]: "is_double x \<Longrightarrow> is_double (- x)"
  by (cases x) (auto simp: rnd_minus)

lemma arith_double:
  "is_double x \<Longrightarrow> is_double y \<Longrightarrow> is_double (x + y)"
  "is_double x \<Longrightarrow> is_double y \<Longrightarrow> is_double (x - y)"
  "is_double x \<Longrightarrow> is_double y \<Longrightarrow> is_double (x * y)"
  "is_double x \<Longrightarrow> is_double y \<Longrightarrow> is_double (fdiv x y)"
  by (cases x; cases y; simp add: minus_flt_def)+

lemma flt_le_Fin [simp]: "Fin a < Fin b \<longleftrightarrow> a < b"
  by (auto simp: less_flt_def)

lemma flt_le_trans: "x \<le> y \<Longrightarrow> y \<le> z \<Longrightarrow> x \<le> (z :: flt)"
  by (cases x; cases y; cases z) auto

lemma flt_not_NaN_total: "x \<noteq> NaN \<Longrightarrow> y \<noteq> NaN \<Longrightarrow> x \<le> y \<or> y \<le> x"
  by (cases x; cases y) auto

lemma mk_mono: "x \<le> y \<Longrightarrow> mk x \<le> mk y"
proof -
  assume "x \<le> y"
  then have "rnd x \<le> rnd y" by (rule rnd_mono)
  moreover have "(0::rat) < 2 ^ 1024" by (simp del: power_numeral)
  moreover define m :: rat where "m = 2 ^ 1024"
  ultimately show ?thesis unfolding mk_eq m_def [symmetric] by (auto simp: abs_if split: if_splits)
qed

text \<open>Integers up to \<open>2 ^ 53\<close> are exact, and moderate values are finite.\<close>

lemma mk_int: "\<bar>i\<bar> \<le> 2 ^ 53 \<Longrightarrow> mk (of_int i) = Fin (of_int i)"
proof -
  assume i: "\<bar>i\<bar> \<le> 2 ^ 53"
  then have "\<bar>of_int i :: rat\<bar> \<le> 2 ^ 53" by (metis of_int_abs of_int_le_iff of_int_numeral of_int_power)
  moreover have "(2::rat) ^ 53 < 2 ^ 1024" by (rule power_strict_increasing) simp_all
  ultimately have "\<bar>rnd (of_int i)\<bar> < 2 ^ 1024" using rnd_int [OF i] by (simp only:)
  then show ?thesis using mk_Fin rnd_int [OF i] by metis
qed

lemma mk_moderate: "\<bar>x\<bar> \<le> 2 ^ 53 \<Longrightarrow> mk x = Fin (rnd x)"
proof (rule mk_Fin)
  assume x: "\<bar>x\<bar> \<le> 2 ^ 53"
  have "\<bar>rnd x\<bar> \<le> \<bar>x\<bar> + ulp * (1 + \<bar>x\<bar>)" using rnd_error_total [of x] by linarith
  also have "\<dots> \<le> 2 ^ 53 + ulp * (1 + 2 ^ 53)" using x by (intro add_mono mult_left_mono) (simp_all add: ulp_def)
  also have "\<dots> \<le> 2 ^ 54" by (simp add: ulp_def)
  also have "(2::rat) ^ 54 < 2 ^ 1024" by (rule power_strict_increasing) simp_all
  finally show "\<bar>rnd x\<bar> < 2 ^ 1024" .
qed

end
