(* ===== verification/Text.thy ===== *)
theory Text
  imports Floats "HOL-Library.Char_ord" "HOL-Library.List_Lexorder"
begin

text \<open>
  Strings as the sources use them: Python's \<open>str\<close> and Go's \<open>string\<close> as lists of characters, with
  the library functions both programs call: trimming, splitting, line splitting, decimal parsing
  (\<open>int\<close>, \<open>float\<close>, \<open>strconv.Atoi\<close>, \<open>strconv.ParseInt\<close>) and fixed-point formatting.

  A character is one byte. For text outside ASCII, Python's code points 128 to 255 are the
  characters of the same number, and Go's multi-byte white space is not recognised.
\<close>

section \<open>Trimming and splitting\<close>

text \<open>\<open>str.isspace\<close> and Go's \<open>unicode.IsSpace\<close> on one byte.\<close>

definition py_space :: "char \<Rightarrow> bool" where
  "py_space c = (let n = of_char c :: int in 9 \<le> n \<and> n \<le> 13 \<or> 28 \<le> n \<and> n \<le> 32 \<or> n = 133 \<or> n = 160)"

definition go_space :: "char \<Rightarrow> bool" where
  "go_space c = (let n = of_char c :: int in 9 \<le> n \<and> n \<le> 13 \<or> n = 32)"

definition strip :: "(char \<Rightarrow> bool) \<Rightarrow> string \<Rightarrow> string" where
  "strip p s = rev (dropWhile p (rev (dropWhile p s)))"

text \<open>Cutting at every character that satisfies \<open>p\<close>; there is always at least one piece.\<close>

fun split_by :: "(char \<Rightarrow> bool) \<Rightarrow> string \<Rightarrow> string list" where
  "split_by p [] = [[]]"
| "split_by p (c # cs) =
     (if p c then [] # split_by p cs
      else case split_by p cs of [] \<Rightarrow> [[c]] | w # ws \<Rightarrow> (c # w) # ws)"

definition split_on :: "char \<Rightarrow> string \<Rightarrow> string list" where
  "split_on c = split_by (\<lambda>x. x = c)"

text \<open>\<open>str.split()\<close>: the non-empty runs without white space.\<close>

definition py_words :: "string \<Rightarrow> string list" where
  "py_words s = filter (\<lambda>w. w \<noteq> []) (split_by py_space s)"

fun join :: "string \<Rightarrow> string list \<Rightarrow> string" where
  "join sep [] = []"
| "join sep [w] = w"
| "join sep (w # ws) = w @ sep @ join sep ws"

text \<open>\<open>str.splitlines()\<close>: a carriage return and a line feed together end one line.\<close>

definition line_break :: "char \<Rightarrow> bool" where
  "line_break c = (let n = of_char c :: int in 10 \<le> n \<and> n \<le> 13 \<or> 28 \<le> n \<and> n \<le> 30 \<or> n = 133)"

function lines_from :: "string \<Rightarrow> string \<Rightarrow> string list" where
  "lines_from cur [] = (if cur = [] then [] else [rev cur])"
| "lines_from cur (c # cs) =
     (if of_char c = (13::int) \<and> cs \<noteq> [] \<and> of_char (hd cs) = (10::int)
      then rev cur # lines_from [] (tl cs)
      else if line_break c then rev cur # lines_from [] cs
      else lines_from (c # cur) cs)"
  by pat_completeness auto
termination
  by (relation "measure (\<lambda>(cur, s). length s)") (auto simp: less_Suc_eq)

definition splitlines :: "string \<Rightarrow> string list" where
  "splitlines s = lines_from [] s"

text \<open>\<open>s.partition(c)\<close> without the separator it also returns.\<close>

definition partition_at :: "char \<Rightarrow> string \<Rightarrow> string \<times> string" where
  "partition_at c s = (takeWhile (\<lambda>x. x \<noteq> c) s, tl (dropWhile (\<lambda>x. x \<noteq> c) s))"

definition starts_with :: "string \<Rightarrow> string \<Rightarrow> bool" where
  "starts_with pre s = (take (length pre) s = pre)"

fun contains :: "string \<Rightarrow> string \<Rightarrow> bool" where
  "contains pat [] = (pat = [])"
| "contains pat (c # cs) = (starts_with pat (c # cs) \<or> contains pat cs)"

text \<open>The text after the first occurrence of \<open>pat\<close>, as \<open>s.split(pat, 1)[1]\<close> reads it.\<close>

fun after :: "string \<Rightarrow> string \<Rightarrow> string option" where
  "after pat [] = (if pat = [] then Some [] else None)"
| "after pat (c # cs) = (if starts_with pat (c # cs) then Some (drop (length pat) (c # cs)) else after pat cs)"

lemma split_by_ne [simp]: "split_by p s \<noteq> []"
  by (cases s) (auto split: list.splits)

lemma split_by_pieces: "w \<in> set (split_by p s) \<Longrightarrow> c \<in> set w \<Longrightarrow> \<not> p c"
  by (induction s arbitrary: w) (fastforce split: if_splits list.splits)+

lemma split_by_clean: "(\<And>c. c \<in> set s \<Longrightarrow> \<not> p c) \<Longrightarrow> split_by p s = [s]"
  by (induction s) auto

lemma split_by_append:
  "(\<And>c. c \<in> set w \<Longrightarrow> \<not> p c) \<Longrightarrow> p d \<Longrightarrow> split_by p (w @ d # s) = w # split_by p s"
  by (induction w) auto

lemma split_on_join:
  "ws \<noteq> [] \<Longrightarrow> (\<And>w. w \<in> set ws \<Longrightarrow> d \<notin> set w) \<Longrightarrow> split_on d (join [d] ws) = ws"
proof (induction "[d]" ws rule: join.induct)
  case (2 w)
  then show ?case by (auto simp: split_on_def intro: split_by_clean)
next
  case (3 w v ws)
  then have "split_on d (join [d] (v # ws)) = v # ws" by simp
  moreover have "\<And>c. c \<in> set w \<Longrightarrow> c \<noteq> d" using 3 by auto
  ultimately show ?case by (simp add: split_on_def split_by_append)
qed simp

lemma join_split_on: "join [d] (split_on d s) = s"
proof (induction s)
  case (Cons c s)
  obtain w ws where "split_by (\<lambda>x. x = d) s = w # ws" by (cases "split_by (\<lambda>x. x = d) s") auto
  with Cons show ?case by (cases ws) (auto simp: split_on_def)
qed (simp add: split_on_def)

lemma dropWhile_clean: "(\<And>c. c \<in> set s \<Longrightarrow> \<not> p c) \<Longrightarrow> dropWhile p s = s"
  by (cases s) auto

lemma strip_clean: "(\<And>c. c \<in> set s \<Longrightarrow> \<not> p c) \<Longrightarrow> strip p s = s"
  using dropWhile_clean [of s p] dropWhile_clean [of "rev s" p] by (simp add: strip_def)

lemma strip_idem [simp]: "strip p (strip p s) = strip p s"
proof (cases "dropWhile p s")
  case (Cons c cs)
  then have "\<not> p c" by (metis hd_dropWhile list.discI list.sel(1))
  then have *: "\<exists>ds. strip p s = c # ds"
    by (simp add: strip_def Cons dropWhile_append) (metis rev_rev_ident)
  then have "dropWhile p (strip p s) = strip p s" using \<open>\<not> p c\<close> by auto
  then show ?thesis by (simp add: strip_def [of p "strip p s"]) (simp add: strip_def)
next
  case Nil
  then show ?thesis by (simp add: strip_def del: dropWhile_eq_Nil_conv)
qed

lemma partition_at_append: "c \<notin> set s \<Longrightarrow> partition_at c (s @ c # t) = (s, t)"
  by (induction s) (auto simp: partition_at_def)

section \<open>Decimal numbers\<close>

definition is_digit :: "char \<Rightarrow> bool" where
  "is_digit c = (let n = of_char c :: int in 48 \<le> n \<and> n \<le> 57)"

definition digit_val :: "char \<Rightarrow> int" where
  "digit_val c = of_char c - 48"

definition digit_char :: "int \<Rightarrow> char" where
  "digit_char d = char_of (48 + d)"

text \<open>The value of a string of digits, and the digits of a number that is not negative.\<close>

definition dec_val :: "string \<Rightarrow> int" where
  "dec_val s = foldl (\<lambda>a c. 10 * a + digit_val c) 0 s"

function show_dec :: "int \<Rightarrow> string" where
  "show_dec n = (if n < 10 then [digit_char n] else show_dec (n div 10) @ [digit_char (n mod 10)])"
  by pat_completeness auto
termination
  by (relation "measure nat") auto

declare show_dec.simps [simp del]

definition show_int :: "int \<Rightarrow> string" where
  "show_int i = (if i < 0 then CHR ''-'' # show_dec (- i) else show_dec i)"

lemma digit_cases: "0 \<le> d \<Longrightarrow> d < 10 \<Longrightarrow> (of_char (digit_char d) :: int) = 48 + d"
  by (simp add: digit_char_def of_char_of)

lemma digit_char_val [simp]: "0 \<le> d \<Longrightarrow> d < 10 \<Longrightarrow> digit_val (digit_char d) = d"
  by (simp add: digit_val_def digit_cases)

lemma digit_char_digit [simp]: "0 \<le> d \<Longrightarrow> d < 10 \<Longrightarrow> is_digit (digit_char d)"
  by (simp add: is_digit_def digit_cases Let_def)

lemma dec_val_snoc [simp]: "dec_val (s @ [c]) = 10 * dec_val s + digit_val c"
  by (simp add: dec_val_def)

lemma dec_val_Nil [simp]: "dec_val [] = 0"
  by (simp add: dec_val_def)

lemma dec_val_show_dec [simp]: "0 \<le> n \<Longrightarrow> dec_val (show_dec n) = n"
proof (induction n rule: show_dec.induct)
  case (1 n)
  then show ?case
    using dec_val_snoc [of "[]" "digit_char n"] by (simp add: show_dec.simps [of n])
qed

lemma show_dec_ne [simp]: "show_dec n \<noteq> []"
  by (simp add: show_dec.simps [of n])

lemma show_dec_digits: "0 \<le> n \<Longrightarrow> c \<in> set (show_dec n) \<Longrightarrow> is_digit c"
proof (induction n rule: show_dec.induct)
  case (1 n)
  then show ?case by (auto simp: show_dec.simps [of n] split: if_splits)
qed

lemma show_dec_hd: "0 \<le> n \<Longrightarrow> is_digit (hd (show_dec n))"
  using show_dec_digits [OF _ hd_in_set [OF show_dec_ne]] .

lemma digit_not:
  assumes "is_digit c"
  shows "\<not> py_space c" "\<not> go_space c" "c \<noteq> CHR ''-''" "c \<noteq> CHR ''+''" "c \<noteq> CHR '',''"
    "c \<noteq> CHR ''_''" "c \<noteq> CHR ''.''"
  using assms by (auto simp: is_digit_def py_space_def go_space_def Let_def)

lemma show_int_chars: "c \<in> set (show_int i) \<Longrightarrow> is_digit c \<or> c = CHR ''-''"
  using show_dec_digits [of "- i" c] show_dec_digits [of i c]
  by (auto simp: show_int_def split: if_splits)

lemma show_int_ne [simp]: "show_int i \<noteq> []"
  by (simp add: show_int_def)

lemma show_int_clean: "c \<in> set (show_int i) \<Longrightarrow> \<not> py_space c \<and> \<not> go_space c \<and> c \<noteq> CHR '',''"
  using show_int_chars [of c i] digit_not [of c] by (auto simp: py_space_def go_space_def)

section \<open>Parsing decimal numbers\<close>

text \<open>An optional sign; \<open>True\<close> is minus.\<close>

fun sign_split :: "string \<Rightarrow> bool \<times> string" where
  "sign_split [] = (False, [])"
| "sign_split (c # cs) =
     (if c = CHR ''-'' then (True, cs) else if c = CHR ''+'' then (False, cs) else (False, c # cs))"

definition signed :: "bool \<Rightarrow> int \<Rightarrow> int" where
  "signed neg n = (if neg then - n else n)"

text \<open>
  \<open>strconv.ParseInt(s, 10, 64)\<close>: the value and whether the error is nil. Outside the range of
  \<open>int64\<close> it reports an error with the nearest bound; for malformed text the value is 0.
  \<open>strconv.Atoi\<close> is the same on a 64-bit platform.
\<close>

definition int64_max :: int where "int64_max = 2 ^ 63 - 1"

definition int64_min :: int where "int64_min = - (2 ^ 63)"

definition in_int64 :: "int \<Rightarrow> bool" where
  "in_int64 i = (int64_min \<le> i \<and> i \<le> int64_max)"

definition go_parse_int :: "string \<Rightarrow> int \<times> bool" where
  "go_parse_int s = (case sign_split s of (neg, ds) \<Rightarrow>
     if ds = [] \<or> \<not> list_all is_digit ds then (0, False)
     else let v = signed neg (dec_val ds) in
       if v < int64_min then (int64_min, False)
       else if int64_max < v then (int64_max, False) else (v, True))"

definition go_atoi :: "string \<Rightarrow> int option" where
  "go_atoi s = (case go_parse_int s of (v, ok) \<Rightarrow> if ok then Some v else None)"

text \<open>Python's \<open>int(s)\<close>: surrounding white space, a sign, and single underscores between digits.\<close>

fun us_ok :: "bool \<Rightarrow> string \<Rightarrow> bool" where
  "us_ok after_digit [] = after_digit"
| "us_ok after_digit (c # cs) =
     (if is_digit c then us_ok True cs else c = CHR ''_'' \<and> after_digit \<and> us_ok False cs)"

definition py_int_of :: "string \<Rightarrow> int option" where
  "py_int_of s = (case sign_split (strip py_space s) of (neg, ds) \<Rightarrow>
     if us_ok False ds then Some (signed neg (dec_val (filter is_digit ds))) else None)"

text \<open>Python's \<open>float(s)\<close>.\<close>

definition lower :: "char \<Rightarrow> char" where
  "lower c = (let n = of_char c :: int in if 65 \<le> n \<and> n \<le> 90 then char_of (n + 32) else c)"

definition digit_or_us :: "char \<Rightarrow> bool" where
  "digit_or_us c = (is_digit c \<or> c = CHR ''_'')"

definition exponent_of :: "string \<Rightarrow> int option" where
  "exponent_of s = (if s = [] then Some 0
     else if lower (hd s) = CHR ''e'' then
       (case sign_split (tl s) of (neg, ds) \<Rightarrow>
          if us_ok False ds then Some (signed neg (dec_val (filter is_digit ds))) else None)
     else None)"

definition decimal_of :: "string \<Rightarrow> rat option" where
  "decimal_of s =
     (let ip = takeWhile digit_or_us s;
          r = dropWhile digit_or_us s;
          dot = (r \<noteq> [] \<and> hd r = CHR ''.'');
          fp = (if dot then takeWhile digit_or_us (tl r) else []);
          e = (if dot then dropWhile digit_or_us (tl r) else r)
      in if (ip = [] \<or> us_ok False ip) \<and> (fp = [] \<or> us_ok False fp) \<and> (ip \<noteq> [] \<or> fp \<noteq> [])
         then (case exponent_of e of None \<Rightarrow> None
               | Some x \<Rightarrow>
                   let ds = filter is_digit (ip @ fp); k = x - int (length (filter is_digit fp))
                   in Some (if 0 \<le> k then of_int (dec_val ds * 10 ^ nat k)
                            else of_int (dec_val ds) / of_int (10 ^ nat (- k))))
         else None)"

definition py_float_of :: "string \<Rightarrow> flt option" where
  "py_float_of s = (case sign_split (strip py_space s) of (neg, body) \<Rightarrow>
     let w = map lower body in
       if w = ''inf'' \<or> w = ''infinity'' then Some (if neg then NInf else PInf)
       else if w = ''nan'' then Some NaN
       else map_option (\<lambda>x. mk (if neg then - x else x)) (decimal_of body))"

lemma float_is_double: "py_float_of s = Some x \<Longrightarrow> is_double x"
proof -
  have cases: "(if a then Some (if neg then NInf else PInf) else if b then Some NaN else map_option (\<lambda>x. mk (f x)) d) = Some x \<Longrightarrow>
      is_double x" for a b neg f d
    by (auto split: if_splits)
  show "py_float_of s = Some x \<Longrightarrow> ?thesis" unfolding py_float_of_def Let_def case_prod_unfold by (erule cases)
qed

lemma sign_split_digit: "is_digit (hd s) \<Longrightarrow> s \<noteq> [] \<Longrightarrow> sign_split s = (False, s)"
  by (cases s) (auto simp: digit_not)

lemma sign_split_show_int: "sign_split (show_int i) = (i < 0, show_dec \<bar>i\<bar>)"
  by (simp add: show_int_def sign_split_digit show_dec_hd abs_if)

lemma list_all_show_dec [simp]: "0 \<le> n \<Longrightarrow> list_all is_digit (show_dec n)"
  by (auto simp: list_all_iff show_dec_digits)

lemma us_ok_digits: "list_all is_digit s \<Longrightarrow> us_ok b s \<longleftrightarrow> b \<or> s \<noteq> []"
  by (induction s arbitrary: b) auto

lemma filter_digits: "list_all is_digit s \<Longrightarrow> filter is_digit s = s"
  by (simp add: list_all_iff)

lemma signed_abs [simp]: "signed (i < 0) \<bar>i\<bar> = i"
  by (simp add: signed_def)

section \<open>The interface of decimal text\<close>

text \<open>
  Printing an integer and reading it back gives the integer. The server's port lists rest on it for
  Go's \<open>Itoa\<close> and \<open>Atoi\<close>, the recorder for Python's \<open>int\<close>.
\<close>

locale decimal_codec =
  fixes shw :: "int \<Rightarrow> string" and prs :: "string \<Rightarrow> int option" and dm :: "int set"
  assumes prs_shw: "i \<in> dm \<Longrightarrow> prs (shw i) = Some i"
    and shw_clean: "c \<in> set (shw i) \<Longrightarrow> c \<noteq> CHR '','' \<and> \<not> go_space c \<and> \<not> py_space c"
begin

lemma shw_inj: "inj_on shw dm"
  by (rule inj_onI) (metis option.inject prs_shw)

lemma shw_distinct: "set xs \<subseteq> dm \<Longrightarrow> distinct (map shw xs) \<longleftrightarrow> distinct xs"
  using inj_on_subset [OF shw_inj] by (auto simp: distinct_map)

lemma shw_list:
  "xs \<noteq> [] \<Longrightarrow> set xs \<subseteq> dm \<Longrightarrow>
     map (\<lambda>w. prs (strip go_space w)) (split_on (CHR '','') (join [CHR '',''] (map shw xs))) = map Some xs"
  by (subst split_on_join) (auto simp: strip_clean shw_clean prs_shw subset_iff dest: shw_clean)

end

lemma go_atoi_show_int: "in_int64 i \<Longrightarrow> go_atoi (show_int i) = Some i"
  by (auto simp: go_atoi_def go_parse_int_def sign_split_show_int in_int64_def Let_def)

lemma py_int_show_int: "py_int_of (show_int i) = Some i"
proof -
  have "strip py_space (show_int i) = show_int i"
    by (rule strip_clean) (simp add: show_int_clean)
  then show ?thesis
    by (simp add: py_int_of_def sign_split_show_int us_ok_digits filter_digits)
qed

interpretation go_dec: decimal_codec show_int go_atoi "Collect in_int64"
  by unfold_locales (auto simp: go_atoi_show_int dest: show_int_clean)

interpretation py_dec: decimal_codec show_int py_int_of UNIV
  by unfold_locales (auto simp: py_int_show_int dest: show_int_clean)

section \<open>Fixed-point formatting\<close>

text \<open>
  Python's \<open>format(x, ',.df')\<close> (\<open>grouped\<close>) and \<open>format(x, '.df')\<close>: the exact value of the double
  rounded to \<open>d\<close> decimals, ties to even.
\<close>

fun group3 :: "string \<Rightarrow> string" where
  "group3 (a # b # c # d # ds) = a # b # c # CHR '','' # group3 (d # ds)"
| "group3 ds = ds"

definition thousands :: "string \<Rightarrow> string" where
  "thousands ds = rev (group3 (rev ds))"

definition pad_left :: "nat \<Rightarrow> char \<Rightarrow> string \<Rightarrow> string" where
  "pad_left w c s = replicate (w - length s) c @ s"

definition scaled :: "nat \<Rightarrow> rat \<Rightarrow> int" where
  "scaled d x = rhe (\<bar>x\<bar> * of_int (10 ^ d))"

fun fmt_fixed :: "bool \<Rightarrow> nat \<Rightarrow> flt \<Rightarrow> string" where
  "fmt_fixed grouped d (Fin x) =
     (let n = scaled d x;
          ip = show_dec (n div 10 ^ d)
      in (if x < 0 then ''-'' else []) @ (if grouped then thousands ip else ip) @
         (if d = 0 then [] else CHR ''.'' # pad_left d (CHR ''0'') (show_dec (n mod 10 ^ d))))"
| "fmt_fixed grouped d PInf = ''inf''"
| "fmt_fixed grouped d NInf = ''-inf''"
| "fmt_fixed grouped d NaN = ''nan''"

text \<open>An integer with thousands separators, \<open>format(n, ',')\<close>.\<close>

definition fmt_int :: "int \<Rightarrow> string" where
  "fmt_int i = (if i < 0 then ''-'' else []) @ thousands (show_dec \<bar>i\<bar>)"

text \<open>
  \<open>repr\<close> of a float: the shortest decimal that reads back as the same double, the closest one if
  there are several, in scientific notation outside \<open>10 ^ -4\<close> to \<open>10 ^ 16\<close>. Seventeen significant
  digits always suffice.
\<close>

fun exp10_from :: "nat \<Rightarrow> int \<Rightarrow> rat \<Rightarrow> int" where
  "exp10_from 0 e x = e"
| "exp10_from (Suc fuel) e x =
     (if x < 1 then exp10_from fuel (e - 1) (x * 10)
      else if 10 \<le> x then exp10_from fuel (e + 1) (x / 10) else e)"

definition pow10 :: "int \<Rightarrow> rat" where
  "pow10 e = (if 0 \<le> e then of_int (10 ^ nat e) else 1 / of_int (10 ^ nat (- e)))"

text \<open>The candidates with \<open>p\<close> significant digits, the closest first.\<close>

definition digits_of :: "nat \<Rightarrow> int \<Rightarrow> rat \<Rightarrow> int option" where
  "digits_of p e x =
     (let u = pow10 (e - int p + 1);
          lo = \<lfloor>x / u\<rfloor>; hi = \<lceil>x / u\<rceil>;
          near = rhe (x / u);
          cands = [near, if near = lo then hi else lo]
      in List.find (\<lambda>n. mk (of_int n * u) = Fin x) cands)"

fun shortest :: "nat \<Rightarrow> nat \<Rightarrow> int \<Rightarrow> rat \<Rightarrow> int \<times> nat" where
  "shortest 0 p e x = (rhe (x / pow10 (e - int p + 1)), p)"
| "shortest (Suc fuel) p e x =
     (case digits_of p e x of Some n \<Rightarrow> (n, p) | None \<Rightarrow> shortest fuel (Suc p) e x)"

definition drop_zeros :: "string \<Rightarrow> string" where
  "drop_zeros s = rev (dropWhile (\<lambda>c. c = CHR ''0'') (rev s))"

definition repr_pos :: "rat \<Rightarrow> string" where
  "repr_pos x =
     (let e = exp10_from 400 0 x;
          (n, p) = shortest 16 1 e x;
          ds0 = show_dec n;
          e = e + int (length ds0) - int p;
          ds = (case drop_zeros ds0 of [] \<Rightarrow> ''0'' | t \<Rightarrow> t);
          k = int (length ds)
      in if e < - 4 \<or> 16 \<le> e
         then take 1 ds @ (if k = 1 then [] else CHR ''.'' # drop 1 ds) @ ''e'' @
              (if e < 0 then ''-'' else ''+'') @ pad_left 2 (CHR ''0'') (show_dec \<bar>e\<bar>)
         else if e < 0 then ''0.'' @ replicate (nat (- e - 1)) (CHR ''0'') @ ds
         else if k \<le> e + 1 then ds @ replicate (nat (e + 1 - k)) (CHR ''0'') @ ''.0''
         else take (nat (e + 1)) ds @ CHR ''.'' # drop (nat (e + 1)) ds)"

fun py_repr :: "flt \<Rightarrow> string" where
  "py_repr (Fin x) = (if x = 0 then ''0.0'' else if x < 0 then CHR ''-'' # repr_pos (- x) else repr_pos x)"
| "py_repr PInf = ''inf''"
| "py_repr NInf = ''-inf''"
| "py_repr NaN = ''nan''"

definition no_commas :: "string \<Rightarrow> string" where
  "no_commas = filter (\<lambda>c. c \<noteq> CHR '','')"

lemma no_commas_group3: "no_commas (group3 ds) = no_commas ds"
  by (induction ds rule: group3.induct) (auto simp: no_commas_def)

lemma no_commas_append [simp]: "no_commas (s @ t) = no_commas s @ no_commas t"
  by (simp add: no_commas_def)

lemma no_commas_digits: "list_all is_digit s \<Longrightarrow> no_commas s = s"
  by (induction s) (auto simp: no_commas_def dest: digit_not)

lemma no_commas_thousands: "list_all is_digit s \<Longrightarrow> no_commas (thousands s) = s"
proof -
  assume s: "list_all is_digit s"
  have "no_commas (thousands s) = rev (no_commas (group3 (rev s)))"
    by (simp add: no_commas_def thousands_def rev_filter)
  also have "\<dots> = s" using s no_commas_digits [of "rev s"] by (simp add: no_commas_group3)
  finally show ?thesis .
qed

end
