(* ===== verification/MemoryGuard.thy ===== *)
theory MemoryGuard
  imports Text
begin

text \<open>
  The two background loops of the server that watch the container's memory, \<open>memory.go\<close>: admission
  control (\<open>guardMemory\<close>) and the Go runtime's soft memory limit (\<open>manageMemoryLimit\<close>). A loop is
  its start-up code and a step per tick; a file read is its content or \<open>None\<close> when it fails.

  An \<open>int64\<close> is an \<open>int\<close> with \<open>wrap64\<close> where an operation could leave the range. The float
  constants of the source are untyped Go constants, so \<open>0.90 - 0.02\<close> is exactly \<open>0.88\<close> before it is
  rounded to a \<open>float64\<close>.
\<close>

section \<open>Reading a cgroup file\<close>

definition readCgroupInt :: "string option \<Rightarrow> int \<times> bool" where
  "readCgroupInt file = (case file of
     None \<Rightarrow> (0, False)
   | Some raw \<Rightarrow> (case go_parse_int (strip go_space raw) of (n, ok) \<Rightarrow> (n, ok \<and> 0 < n)))"

lemma readCgroupInt_pos: "readCgroupInt file = (n, True) \<Longrightarrow> 0 < n \<and> n \<le> int64_max"
  by (auto simp: readCgroupInt_def go_parse_int_def Let_def split: option.splits prod.splits if_splits)

section \<open>Shares of the limit\<close>

text \<open>\<open>int64(float64(m) * c)\<close> for a positive limit \<open>m\<close> and a constant share \<open>c\<close>.\<close>

definition share :: "rat \<Rightarrow> int \<Rightarrow> int" where
  "share c m = \<lfloor>rnd (rnd c * rnd (of_int m))\<rfloor>"

definition rejectAbove :: rat where "rejectAbove = 90 / 100"

definition acceptBelow :: rat where "acceptBelow = 85 / 100"

definition goLimitShare :: rat where "goLimitShare = rejectAbove - 2 / 100"

lemma rnd_consts:
  "rnd rejectAbove = 8106479329266893 / 9007199254740992"
  "rnd acceptBelow = 7656119366529843 / 9007199254740992"
  "rnd goLimitShare = 7926335344172073 / 9007199254740992"
  unfolding rejectAbove_def acceptBelow_def goLimitShare_def by code_simp+

lemma share_mono_share: "0 \<le> m \<Longrightarrow> rnd c \<le> rnd d \<Longrightarrow> share c m \<le> share d m"
  unfolding share_def by (intro double.trunc_share_mono double.rd_nonneg) simp_all

lemma share_nonneg: "0 \<le> m \<Longrightarrow> 0 \<le> rnd c \<Longrightarrow> 0 \<le> share c m"
  unfolding share_def by (simp add: double.rd_nonneg)

text \<open>A share computed in doubles is within one part in \<open>2 ^ 51\<close> of the exact product.\<close>

lemma rnd_int_bounds:
  assumes "1 \<le> m"
  shows "of_int m * (1 - ulp) \<le> rnd (of_int m)" "rnd (of_int m) \<le> of_int m * (1 + ulp)"
  using rd_relative [of "of_int m"] assms by simp_all

lemma rnd_share_bounds:
  assumes m: "2 \<le> m" and k: "1 / 2 \<le> k" "k \<le> 1"
  shows "of_int m * k * (1 - 4 * ulp) \<le> rnd (k * rnd (of_int m))"
    and "rnd (k * rnd (of_int m)) \<le> of_int m * k * (1 + 4 * ulp)"
proof -
  let ?M = "of_int m :: rat" and ?R = "rnd (of_int m)"
  have M: "2 \<le> ?M" using m by simp
  have "rnd 2 = 2" using rnd_int [of 2] by simp
  then have R2: "2 \<le> ?R" using rnd_mono [OF M] by simp
  have R: "?M * (1 - ulp) \<le> ?R" "?R \<le> ?M * (1 + ulp)"
    using rnd_int_bounds [of m] m by simp_all
  have "1 \<le> k * ?R" using mult_mono [of "1 / 2" k 2 ?R] k R2 by simp
  then have P: "k * ?R * (1 - ulp) \<le> rnd (k * ?R)" "rnd (k * ?R) \<le> k * ?R * (1 + ulp)"
    using rd_relative by simp_all
  have Mk: "0 \<le> ?M * k" using M k by simp
  have u: "1 - 4 * ulp \<le> (1 - ulp) * (1 - ulp)" "(1 + ulp) * (1 + ulp) \<le> 1 + 4 * ulp"
    unfolding ulp_def by simp_all
  have "?M * k * (1 - 4 * ulp) \<le> ?M * k * ((1 - ulp) * (1 - ulp))"
    by (rule mult_left_mono [OF u(1) Mk])
  also have "\<dots> = k * (?M * (1 - ulp)) * (1 - ulp)" by (simp only: ac_simps)
  also have "\<dots> \<le> k * ?R * (1 - ulp)"
    using R(1) k ulp_bounds by (intro mult_right_mono mult_left_mono) simp_all
  also note P(1)
  finally show "?M * k * (1 - 4 * ulp) \<le> rnd (k * ?R)" .
  note P(2)
  also have "k * ?R * (1 + ulp) \<le> k * (?M * (1 + ulp)) * (1 + ulp)"
    using R(2) k ulp_bounds by (intro mult_right_mono mult_left_mono) simp_all
  also have "\<dots> = ?M * k * ((1 + ulp) * (1 + ulp))" by (simp only: ac_simps)
  also have "\<dots> \<le> ?M * k * (1 + 4 * ulp)" by (rule mult_left_mono [OF u(2) Mk])
  finally show "rnd (k * ?R) \<le> ?M * k * (1 + 4 * ulp)" .
qed

lemma share_less:
  assumes m: "2 \<le> m" and c: "1 / 2 \<le> rnd c" and d: "rnd d \<le> 1"
    and gap: "1 + of_int m * (8 * ulp) \<le> of_int m * (rnd d - rnd c)"
  shows "share c m < share d m"
proof -
  let ?M = "of_int m :: rat"
  have M: "2 \<le> ?M" using m by simp
  have "0 < ?M * (8 * ulp)" using M ulp_bounds by simp
  then have "0 < ?M * (rnd d - rnd c)" using gap by linarith
  then have cd: "rnd c \<le> rnd d" using M by (simp add: zero_less_mult_iff)
  have lo: "rnd (rnd c * rnd ?M) \<le> ?M * rnd c * (1 + 4 * ulp)"
    using rnd_share_bounds(2) [OF m c] cd d by simp
  have hi: "?M * rnd d * (1 - 4 * ulp) \<le> rnd (rnd d * rnd ?M)"
    using rnd_share_bounds(1) [OF m _ d] c cd by simp
  have "?M * rnd c * (4 * ulp) \<le> ?M * 1 * (4 * ulp)" "?M * rnd d * (4 * ulp) \<le> ?M * 1 * (4 * ulp)"
    using M cd d ulp_bounds by (intro mult_right_mono mult_left_mono; simp)+
  then have "?M * rnd c * (1 + 4 * ulp) + 1 \<le> ?M * rnd d * (1 - 4 * ulp)"
    using gap by (simp only: right_diff_distrib distrib_left mult_1_right)
  then show ?thesis using lo hi unfolding share_def by linarith
qed

section \<open>Admission control\<close>

definition high_mark :: "int \<Rightarrow> int" where
  "high_mark cgroupMax = share rejectAbove cgroupMax"

definition low_mark :: "int \<Rightarrow> int" where
  "low_mark cgroupMax = share acceptBelow cgroupMax"

text \<open>One tick of \<open>guardMemory\<close>: the flag \<open>overloaded\<close> after reading \<open>memory.current\<close>.\<close>

definition guard_tick :: "int \<Rightarrow> int \<Rightarrow> string option \<Rightarrow> bool \<Rightarrow> bool" where
  "guard_tick high low file overloaded =
     (case readCgroupInt file of (current, ok) \<Rightarrow>
        if \<not> ok then overloaded
        else if current > high \<and> \<not> overloaded then True
        else if current < low \<and> overloaded then False
        else overloaded)"

text \<open>
  The loop over the readings of \<open>memory.current\<close> so far. Without a readable limit the function
  returns at once and the flag keeps its initial value.
\<close>

fun guard_loop :: "int \<Rightarrow> int \<Rightarrow> string option list \<Rightarrow> bool \<Rightarrow> bool" where
  "guard_loop high low [] overloaded = overloaded"
| "guard_loop high low (f # fs) overloaded = guard_loop high low fs (guard_tick high low f overloaded)"

definition guardMemory :: "string option \<Rightarrow> string option list \<Rightarrow> bool" where
  "guardMemory max_file ticks =
     (case readCgroupInt max_file of (cgroupMax, ok) \<Rightarrow>
        if \<not> ok then False else guard_loop (high_mark cgroupMax) (low_mark cgroupMax) ticks False)"

text \<open>
  The specification: what counts is the last decisive reading, one above the upper or below the
  lower mark; \<open>None\<close> when there is none.
\<close>

definition verdict :: "int \<Rightarrow> int \<Rightarrow> string option \<Rightarrow> bool option" where
  "verdict high low file = (case readCgroupInt file of (current, ok) \<Rightarrow>
     if \<not> ok then None else if high < current then Some True
     else if current < low then Some False else None)"

fun last_verdict :: "bool \<Rightarrow> bool option list \<Rightarrow> bool" where
  "last_verdict dflt [] = dflt"
| "last_verdict dflt (v # vs) = last_verdict (case v of None \<Rightarrow> dflt | Some b \<Rightarrow> b) vs"

text \<open>
  The contract of the two marks, for every limit \<open>m\<close>: they are ordered and lie inside the limit.
\<close>

locale hysteresis =
  fixes high :: "int \<Rightarrow> int" and low :: "int \<Rightarrow> int"
  assumes low_nonneg: "0 < m \<Longrightarrow> 0 \<le> low m"
    and low_le_high: "0 < m \<Longrightarrow> low m \<le> high m"
    and high_le: "0 < m \<Longrightarrow> m \<le> int64_max \<Longrightarrow> high m \<le> m"
begin

lemma tick_verdict:
  "0 < m \<Longrightarrow> guard_tick (high m) (low m) f b = (case verdict (high m) (low m) f of None \<Rightarrow> b | Some v \<Rightarrow> v)"
  using low_le_high [of m] by (auto simp: guard_tick_def verdict_def split: prod.splits)

lemma loop_verdict:
  "0 < m \<Longrightarrow> guard_loop (high m) (low m) fs b = last_verdict b (map (verdict (high m) (low m)) fs)"
  by (induction fs arbitrary: b) (simp_all add: tick_verdict)

text \<open>Inside the band nothing changes.\<close>

lemma band_keeps:
  assumes "0 < m" "\<And>f n. f \<in> set fs \<Longrightarrow> readCgroupInt f = (n, True) \<Longrightarrow> low m \<le> n \<and> n \<le> high m"
  shows "guard_loop (high m) (low m) fs b = b"
  using assms
proof (induction fs arbitrary: b)
  case (Cons f fs)
  have "guard_tick (high m) (low m) f b = b"
    using Cons.prems(2) [of f] by (cases "readCgroupInt f") (auto simp: guard_tick_def)
  moreover have "guard_loop (high m) (low m) fs b = b"
    using Cons.prems by (intro Cons.IH) auto
  ultimately show ?case by simp
qed simp

end

lemma rnd_le_double: "rnd y = y \<Longrightarrow> x \<le> y \<Longrightarrow> rnd x \<le> y"
  using rnd_mono [of x y] by simp

lemma share_le_limit:
  assumes c: "0 \<le> rnd c" "rnd c \<le> 1 - 2 / 2 ^ 53" and m: "0 < m"
  shows "share c m \<le> m"
proof (cases "m \<le> 2 ^ 53")
  case True
  have "rnd (of_int m) = of_int m" using True m by (intro rnd_int) simp
  moreover have "rnd (rnd c * of_int m) \<le> of_int m"
    using double.share_le [of "of_int m" "rnd c"] c m \<open>rnd (of_int m) = of_int m\<close> by simp
  ultimately show ?thesis by (simp add: share_def floor_le_iff)
next
  case False
  have "rnd c * rnd (of_int m) \<le> (1 - 2 * ulp) * (of_int m * (1 + ulp))"
    using c m rnd_int_bounds(2) [of m] ulp_bounds double.rd_nonneg [of "of_int m"]
    by (intro mult_mono) (simp_all add: ulp_def)
  also have "\<dots> = of_int m * ((1 - 2 * ulp) * (1 + ulp))" by (simp only: ac_simps)
  finally have p: "rnd c * rnd (of_int m) \<le> of_int m * ((1 - 2 * ulp) * (1 + ulp))" .
  have "rnd (rnd c * rnd (of_int m)) \<le> rnd (of_int m * ((1 - 2 * ulp) * (1 + ulp)))"
    by (rule rnd_mono [OF p])
  also have "\<dots> \<le> of_int m * ((1 - 2 * ulp) * (1 + ulp)) * (1 + ulp)"
  proof -
    have "(1::rat) / 2 \<le> (1 - 2 * ulp) * (1 + ulp)" by (simp add: ulp_def)
    moreover have "(2::rat) \<le> of_int m" using False by simp
    ultimately have "(1::rat) \<le> of_int m * ((1 - 2 * ulp) * (1 + ulp))"
      using mult_mono [of 2 "of_int m :: rat" "1 / 2" "(1 - 2 * ulp) * (1 + ulp)"] by simp
    then show ?thesis using rd_relative by blast
  qed
  also have "\<dots> = of_int m * ((1 - 2 * ulp) * (1 + ulp) * (1 + ulp))" by (simp only: ac_simps)
  also have "\<dots> \<le> of_int m * 1" using m by (intro mult_left_mono) (simp_all add: ulp_def)
  finally show ?thesis by (simp add: share_def floor_le_iff)
qed

interpretation marks: hysteresis high_mark low_mark
proof unfold_locales
  fix m :: int
  assume "0 < m"
  then show "0 \<le> low_mark m" by (simp add: low_mark_def share_nonneg rnd_consts)
  from \<open>0 < m\<close> show "low_mark m \<le> high_mark m"
    by (simp add: low_mark_def high_mark_def share_mono_share rnd_consts)
  from \<open>0 < m\<close> show "high_mark m \<le> m"
    by (simp add: high_mark_def share_le_limit rnd_consts)
qed

lemma guard_loop_append: "guard_loop high low (fs @ gs) b = guard_loop high low gs (guard_loop high low fs b)"
  by (induction fs arbitrary: b) simp_all

lemma marks_strict:
  assumes "51 \<le> m"
  shows "low_mark m < share goLimitShare m" "share goLimitShare m < high_mark m"
proof -
  have M: "(51::rat) \<le> of_int m" using assms by simp
  show "low_mark m < share goLimitShare m"
    unfolding low_mark_def using M assms by (intro share_less) (simp_all add: rnd_consts ulp_def)
  show "share goLimitShare m < high_mark m"
    unfolding high_mark_def using M assms by (intro share_less) (simp_all add: rnd_consts ulp_def)
qed

section \<open>The Go memory limit\<close>

text \<open>
  \<open>applied\<close> is the argument of the last \<open>debug.SetMemoryLimit\<close> call, \<open>None\<close> before the first;
  \<open>limit_gauge\<close> is the exported gauge and \<open>last_limit\<close> the loop's variable \<open>last\<close>.
\<close>

record limit_state =
  applied :: "int option"
  limit_gauge :: rat
  last_limit :: int

definition limit_start :: limit_state where
  "limit_start = \<lparr>applied = None, limit_gauge = 0, last_limit = 0\<rparr>"

text \<open>A tick reads \<open>memory.current\<close> and the runtime's total and released bytes (\<open>uint64\<close>).\<close>

type_synonym limit_reading = "string option \<times> 64 word \<times> 64 word"

definition wanted_limit :: "int \<Rightarrow> int \<Rightarrow> 64 word \<Rightarrow> 64 word \<Rightarrow> int" where
  "wanted_limit cgroupMax current tot rel =
     (let target = share goLimitShare cgroupMax;
          floor = go_quot cgroupMax 20;
          goMapped = sint (tot - rel);
          other = max (wrap64 (current - goMapped)) 0
      in max (wrap64 (target - other)) floor)"

definition limit_tick :: "int \<Rightarrow> limit_reading \<Rightarrow> limit_state \<Rightarrow> limit_state" where
  "limit_tick cgroupMax rd st =
     (case rd of (file, tot, rel) \<Rightarrow>
      case readCgroupInt file of (current, ok) \<Rightarrow>
        if \<not> ok then st
        else
          let limit = wanted_limit cgroupMax current tot rel;
              d = wrap64 (limit - last_limit st)
          in if d > go_quot (last_limit st) 100 \<or> wrap64 (- d) > go_quot (last_limit st) 100
             then \<lparr>applied = Some limit, limit_gauge = rnd (of_int limit), last_limit = limit\<rparr>
             else st)"

fun limit_loop :: "int \<Rightarrow> limit_reading list \<Rightarrow> limit_state \<Rightarrow> limit_state" where
  "limit_loop cgroupMax [] st = st"
| "limit_loop cgroupMax (r # rs) st = limit_loop cgroupMax rs (limit_tick cgroupMax r st)"

definition manageMemoryLimit :: "string \<Rightarrow> string option \<Rightarrow> limit_reading list \<Rightarrow> limit_state" where
  "manageMemoryLimit gomemlimit max_file ticks =
     (if gomemlimit \<noteq> [] then limit_start
      else case readCgroupInt max_file of (cgroupMax, ok) \<Rightarrow>
        if \<not> ok then limit_start else limit_loop cgroupMax ticks limit_start)"

text \<open>
  A plausible reading: the file is unreadable, or the runtime holds fewer than \<open>2 ^ 63\<close> bytes and
  has not released more than its total.
\<close>

definition sane_reading :: "limit_reading \<Rightarrow> bool" where
  "sane_reading rd = (case rd of (file, tot, rel) \<Rightarrow>
     rel \<le> tot \<and> uint tot < 2 ^ 63)"

definition limit_ok :: "int \<Rightarrow> limit_state \<Rightarrow> bool" where
  "limit_ok m st \<longleftrightarrow>
     (last_limit st = 0 \<and> st = limit_start) \<or>
     (m div 20 \<le> last_limit st \<and> last_limit st \<le> m \<and> 0 < last_limit st \<and>
      applied st = Some (last_limit st) \<and> limit_gauge st = rnd (of_int (last_limit st)))"

lemma sane_mapped: "sane_reading (f, t, r) \<Longrightarrow> sint (t - r) = uint t - uint r \<and> r \<le> t"
proof -
  assume "sane_reading (f, t, r)"
  then have r: "r \<le> t" "uint r \<le> uint t" "uint t < 2 ^ 63"
    by (simp_all add: sane_reading_def word_le_def)
  then have u: "uint (t - r) = uint t - uint r" by (metis uint_sub_lem)
  moreover have "0 \<le> uint t - uint r" "uint t - uint r < 2 ^ 63"
    using r(2,3) uint_nonnegative [of r] by linarith+
  ultimately have "sint (t - r) = uint (t - r)"
    unfolding sint_uint by (subst signed_take_bit_int_eq_self) simp_all
  then show ?thesis using r u by simp
qed

text \<open>With plausible readings nothing wraps, and the limit wanted is what the comment above
  \<open>manageMemoryLimit\<close> describes.\<close>

lemma wanted_exact:
  assumes m: "0 < m" "m \<le> int64_max" and c: "0 < current" "current \<le> int64_max"
    and sane: "sane_reading (f, t, r)"
  shows "wanted_limit m current t r =
    max (share goLimitShare m - max (current - (uint t - uint r)) 0) (m div 20)"
proof -
  let ?g = "uint t - uint r" and ?T = "share goLimitShare m"
  have g: "0 \<le> ?g" "?g < 2 ^ 63"
  proof -
    have "uint r \<le> uint t" "uint t < 2 ^ 63" "0 \<le> uint r"
      using sane by (simp_all add: sane_reading_def word_le_def)
    then show "0 \<le> ?g" "?g < 2 ^ 63" by linarith+
  qed
  have T: "0 \<le> ?T" "?T \<le> m"
    using m by (simp_all add: share_nonneg share_le_limit rnd_consts)
  have w: "wrap64 (current - ?g) = current - ?g"
    using g c by (intro wrap64_id) (simp_all add: int64_max_def)
  have "wrap64 (?T - max (current - ?g) 0) = ?T - max (current - ?g) 0"
    using T g c m by (intro wrap64_id) (simp_all add: int64_max_def)
  then show ?thesis
    using sane_mapped [OF sane] m by (simp add: wanted_limit_def Let_def w go_quot_div)
qed

lemma limit_tick_ok:
  assumes m: "20 \<le> m" "m \<le> int64_max" and st: "limit_ok m st" and sane: "sane_reading (f, t, r)"
  shows "limit_ok m (limit_tick m (f, t, r) st)"
    and "readCgroupInt f = (c, True) \<Longrightarrow>
      0 < last_limit (limit_tick m (f, t, r) st) \<and>
      \<bar>wanted_limit m c t r - last_limit (limit_tick m (f, t, r) st)\<bar>
        \<le> last_limit (limit_tick m (f, t, r) st) div 100"
proof -
  let ?st = "limit_tick m (f, t, r) st"
  have *: "limit_ok m ?st \<and> 0 < last_limit ?st \<and> \<bar>wanted_limit m c t r - last_limit ?st\<bar> \<le> last_limit ?st div 100"
    if c: "readCgroupInt f = (c, True)" for c
  proof -
    let ?w = "wanted_limit m c t r"
    have w: "?w = max (share goLimitShare m - max (c - (uint t - uint r)) 0) (m div 20)"
      using m readCgroupInt_pos [OF c] sane by (intro wanted_exact) simp_all
    have "share goLimitShare m \<le> m" using m by (intro share_le_limit) (simp_all add: rnd_consts)
    then have wb: "m div 20 \<le> ?w" "?w \<le> m" "0 < ?w" unfolding w using m by auto
    have last: "0 \<le> last_limit st" "last_limit st \<le> m" "last_limit st = 0 \<Longrightarrow> st = limit_start"
      using st m by (auto simp: limit_ok_def)
    have d: "wrap64 (?w - last_limit st) = ?w - last_limit st"
      "wrap64 (last_limit st - ?w) = last_limit st - ?w"
      using wb last m by (subst wrap64_id; simp add: int64_max_def)+
    have q: "go_quot (last_limit st) 100 = last_limit st div 100"
      using last by (simp add: go_quot_div)
    show ?thesis
    proof (cases "?w - last_limit st > last_limit st div 100 \<or> last_limit st - ?w > last_limit st div 100")
      case True
      then have "?st = \<lparr>applied = Some ?w, limit_gauge = rnd (of_int ?w), last_limit = ?w\<rparr>"
        by (simp add: limit_tick_def c Let_def d q)
      then show ?thesis using wb by (simp add: limit_ok_def)
    next
      case False
      then have "?st = st" by (auto simp: limit_tick_def c Let_def d q)
      moreover have "last_limit st \<noteq> 0" using False wb by auto
      ultimately show ?thesis using False st last by (auto simp: abs_le_iff)
    qed
  qed
  show "readCgroupInt f = (c, True) \<Longrightarrow>
      0 < last_limit ?st \<and> \<bar>wanted_limit m c t r - last_limit ?st\<bar> \<le> last_limit ?st div 100"
    using * by blast
  show "limit_ok m ?st"
  proof (cases "snd (readCgroupInt f)")
    case True
    then show ?thesis using * [of "fst (readCgroupInt f)"] by (metis prod.collapse)
  next
    case False
    then show ?thesis using st by (cases "readCgroupInt f") (simp add: limit_tick_def)
  qed
qed

lemma limit_loop_ok:
  "20 \<le> m \<Longrightarrow> m \<le> int64_max \<Longrightarrow> limit_ok m st \<Longrightarrow> list_all sane_reading rs \<Longrightarrow>
     limit_ok m (limit_loop m rs st)"
proof (induction rs arbitrary: st)
  case (Cons x rs)
  then show ?case using limit_tick_ok(1) [of m st "fst x" "fst (snd x)" "snd (snd x)"] by simp
qed simp

lemma limit_loop_append: "limit_loop m (rs @ ss) st = limit_loop m ss (limit_loop m rs st)"
  by (induction rs arbitrary: st) simp_all

section \<open>Properties\<close>

text \<open>
  C6: After any readings of the container's memory, the server rejects new clients exactly when the
  last reading outside the band between the two marks was above it; unreadable files and readings
  inside the band decide nothing, and before the first decisive reading clients are accepted.
\<close>

theorem guard_follows_last_verdict:
  assumes "readCgroupInt max_file = (m, True)"
  shows "guardMemory max_file ticks =
    last_verdict False (map (verdict (high_mark m) (low_mark m)) ticks)"
  using marks.loop_verdict readCgroupInt_pos [OF assms] by (simp add: guardMemory_def assms)

text \<open>A limit of 1 GiB, the newline that ends a cgroup file written as a space.\<close>

definition sample_max :: "string option" where
  "sample_max = Some ''1073741824 ''"

lemma sample_max_value: "readCgroupInt sample_max = (1073741824, True)"
  unfolding sample_max_def by code_simp

lemma sample_marks: "high_mark 1073741824 = 966367641" "low_mark 1073741824 = 912680550"
  by code_simp+

theorem guard_follows_last_verdict_witness:
  "guardMemory sample_max [Some ''500'', Some ''1000000000'', None, Some ''950000000''] = True"
  unfolding guard_follows_last_verdict [OF sample_max_value] sample_marks by code_simp

text \<open>
  Hysteresis: whatever happened before, as long as every readable value stays within the band
  the decision does not change, so the guard cannot flap on a value that hovers around one mark.
\<close>

lemma guard_hysteresis:
  assumes m: "readCgroupInt max_file = (m, True)"
    and band: "\<And>f n. f \<in> set later \<Longrightarrow> readCgroupInt f = (n, True) \<Longrightarrow> low_mark m \<le> n \<and> n \<le> high_mark m"
  shows "guardMemory max_file (history @ later) = guardMemory max_file history"
  using marks.band_keeps [OF _ band] readCgroupInt_pos [OF m]
  by (simp add: guardMemory_def m guard_loop_append)

text \<open>
  C24: For every cgroup limit of at least 51 bytes, and with the rounding of \<open>float64\<close>, the marks
  are strictly ordered: accept below 85%, let the garbage collector work harder from 88%, reject
  above 90%, all inside the limit. Garbage is collected before clients are turned away.
\<close>

theorem marks_ordered:
  assumes "51 \<le> m" "m \<le> int64_max"
  shows "0 \<le> low_mark m \<and> low_mark m < share goLimitShare m \<and>
    share goLimitShare m < high_mark m \<and> high_mark m \<le> m"
  using marks_strict [OF assms(1)] marks.low_nonneg [of m] marks.high_le [of m] assms by simp

theorem marks_ordered_witness:
  "low_mark 6442450944 < share goLimitShare 6442450944 \<and> share goLimitShare 6442450944 < high_mark 6442450944"
  using marks_ordered [of 6442450944] by (simp add: int64_max_def)

text \<open>
  C19: When the server manages the Go memory limit and a reading succeeds, the limit in force after
  it is within 1% of what remains under 88% of the cgroup limit once the memory outside the Go
  runtime is taken off, never below 5% of the cgroup limit, and it is the value the gauge shows.
\<close>

theorem go_limit_tracks:
  assumes m: "readCgroupInt max_file = (m, True)" "20 \<le> m"
    and sane: "list_all sane_reading (history @ [(f, t, r)])"
    and c: "readCgroupInt f = (c, True)"
  shows "\<exists>l. applied (manageMemoryLimit [] max_file (history @ [(f, t, r)])) = Some l \<and>
    limit_gauge (manageMemoryLimit [] max_file (history @ [(f, t, r)])) = rnd (of_int l) \<and>
    m div 20 \<le> l \<and> l \<le> m \<and>
    \<bar>max (share goLimitShare m - max (c - (uint t - uint r)) 0) (m div 20) - l\<bar> \<le> l div 100"
proof -
  have max: "m \<le> int64_max" using readCgroupInt_pos [OF m(1)] by simp
  let ?st = "limit_loop m history limit_start" and ?fin = "manageMemoryLimit [] max_file (history @ [(f, t, r)])"
  have e: "?fin = limit_tick m (f, t, r) ?st"
    by (simp add: manageMemoryLimit_def m limit_loop_append)
  have st: "limit_ok m ?st"
    using m max sane by (intro limit_loop_ok) (simp_all add: limit_ok_def limit_start_def)
  have s: "sane_reading (f, t, r)" using sane by simp
  note ok = limit_tick_ok [OF m(2) max st s]
  have "wanted_limit m c t r = max (share goLimitShare m - max (c - (uint t - uint r)) 0) (m div 20)"
    using m max readCgroupInt_pos [OF c] s by (intro wanted_exact) simp_all
  then show ?thesis using ok(1) ok(2) [OF c] unfolding e limit_ok_def by auto
qed

theorem go_limit_tracks_witness:
  "\<exists>l. applied (manageMemoryLimit [] sample_max ([] @ [(Some ''800000000'', 300000000, 100000000)])) = Some l \<and>
    53687091 \<le> l"
proof -
  have s: "list_all sane_reading ([] @ [(Some ''800000000'', 300000000, 100000000)])"
    by (simp add: sane_reading_def)
  have c: "readCgroupInt (Some ''800000000'') = (800000000, True)" by code_simp
  show ?thesis using go_limit_tracks [OF sample_max_value _ s c] by auto
qed

end
