(* ===== verification/Ports.thy ===== *)
theory Ports
  imports Text
begin

text \<open>
  The server's command-line checks, \<open>main.go\<close>: the connection cap (\<open>validateMaxLoad\<close>), the list of
  extra ports (\<open>parsePorts\<close>) and the addresses to listen on (\<open>listenAddrs\<close>). An \<open>error\<close> return is
  \<open>Inl\<close>; the constructor says which \<open>fmt.Errorf\<close> made it and carries the values it prints.
\<close>

section \<open>Operations\<close>

datatype flag_error =
    BadMaxLoad int
  | BadPorts string
  | OutOfRange string string

definition defaultMaxLoad :: int where "defaultMaxLoad = 1000000"

definition validateMaxLoad :: "int \<Rightarrow> flag_error option" where
  "validateMaxLoad n = (if n < 1 then Some (BadMaxLoad n) else None)"

text \<open>
  One item of the list, already trimmed and not empty: a port or, at the first dash, a range. The
  upper bound is parsed before the lower one.
\<close>

definition parse_item :: "string \<Rightarrow> string \<Rightarrow> flag_error + int list" where
  "parse_item s item =
     (let has_hi = CHR ''-'' \<in> set item;
          (lo, rest) = partition_at (CHR ''-'') item
      in bindE (if has_hi then of_option (BadPorts s) (go_atoi rest) else Inr 0) (\<lambda>hi0.
         bindE (of_option (BadPorts s) (go_atoi (if has_hi then lo else item))) (\<lambda>start.
           let hi = (if has_hi then hi0 else start)
           in if start < 1 \<or> hi > 65535 \<or> hi < start then Inl (OutOfRange s item)
              else Inr [start..hi])))"

fun parse_items :: "string \<Rightarrow> string list \<Rightarrow> int list \<Rightarrow> flag_error + int list" where
  "parse_items s [] out = Inr out"
| "parse_items s (item # items) out =
     (let item = strip go_space item
      in if item = [] then parse_items s items out
         else bindE (parse_item s item) (\<lambda>ports. parse_items s items (out @ ports)))"

definition parsePorts :: "string \<Rightarrow> flag_error + int list" where
  "parsePorts s = parse_items s (split_on (CHR '','') s) []"

text \<open>\<open>net.JoinHostPort\<close>: a host with a colon is put in brackets.\<close>

definition join_host_port :: "string \<Rightarrow> string \<Rightarrow> string" where
  "join_host_port host port =
     (if CHR '':'' \<in> set host then ''['' @ host @ '']:'' @ port else host @ '':'' @ port)"

fun first_seen :: "int set \<Rightarrow> int list \<Rightarrow> int list" where
  "first_seen seen [] = []"
| "first_seen seen (p # ps) =
     (if p \<in> seen then first_seen seen ps else p # first_seen (insert p seen) ps)"

definition listenAddrs :: "string \<Rightarrow> int \<Rightarrow> string \<Rightarrow> flag_error + string list" where
  "listenAddrs host port extra =
     bindE (parsePorts extra) (\<lambda>more.
       Inr (map (\<lambda>p. join_host_port host (show_int p)) (first_seen {} ([port] @ more))))"

section \<open>Lemmas\<close>

lemma partition_at_absent: "c \<notin> set s \<Longrightarrow> partition_at c s = (s, [])"
  by (induction s) (auto simp: partition_at_def)

lemma parse_item_range:
  "parse_item s item = Inr ps \<Longrightarrow> ps \<noteq> [] \<and> sorted ps \<and> distinct ps \<and> set ps \<subseteq> {1..65535}"
  by (auto simp: parse_item_def res_simps Let_def split: if_splits prod.splits)

lemma parse_items_spec:
  "parse_items s items out = Inr ps \<longleftrightarrow>
     (\<exists>pss. mapE (parse_item s) (filter (\<lambda>i. i \<noteq> []) (map (strip go_space) items)) = Inr pss \<and>
       ps = out @ concat pss)"
  by (induction items arbitrary: out) (auto simp: Let_def bindE_Inr_iff)

lemma parsePorts_spec:
  "parsePorts s = Inr ps \<longleftrightarrow>
     (\<exists>pss. mapE (parse_item s) (filter (\<lambda>i. i \<noteq> []) (map (strip go_space) (split_on (CHR '','') s))) = Inr pss \<and>
       ps = concat pss)"
  by (simp add: parsePorts_def parse_items_spec)

lemma parsePorts_range: "parsePorts s = Inr ps \<Longrightarrow> set ps \<subseteq> {1..65535}"
proof -
  assume "parsePorts s = Inr ps"
  then obtain items pss where "mapE (parse_item s) items = Inr pss" and ps: "ps = concat pss"
    by (auto simp: parsePorts_spec)
  then have "set qs \<subseteq> {1..65535}" if "qs \<in> set pss" for qs
    using that parse_item_range by (blast dest: mapE_member)
  then show ?thesis unfolding ps by (simp add: UN_subset_iff)
qed

text \<open>A range prints as its bounds with a dash, a single port as its number.\<close>

definition show_item :: "int \<times> int \<Rightarrow> string" where
  "show_item r = (if fst r = snd r then show_int (fst r) else show_int (fst r) @ ''-'' @ show_int (snd r))"

definition valid_item :: "int \<times> int \<Rightarrow> bool" where
  "valid_item r \<longleftrightarrow> 1 \<le> fst r \<and> fst r \<le> snd r \<and> snd r \<le> 65535"

lemma show_pos_digits: "0 \<le> i \<Longrightarrow> c \<in> set (show_int i) \<Longrightarrow> is_digit c"
  by (simp add: show_int_def show_dec_digits)

lemma port_in_int64: "1 \<le> p \<Longrightarrow> p \<le> 65535 \<Longrightarrow> in_int64 p"
  by (simp add: in_int64_def int64_min_def int64_max_def)

lemma parse_show_item: "valid_item r \<Longrightarrow> parse_item s (show_item r) = Inr [fst r..snd r]"
proof -
  assume r: "valid_item r"
  have single: "parse_item s item = Inr [p..p]"
    if "CHR ''-'' \<notin> set item" "go_atoi item = Some p" "1 \<le> p" "p \<le> 65535" for item p
    using that by (simp add: parse_item_def partition_at_absent)
  have pair: "parse_item s (lo @ CHR ''-'' # hi) = Inr [p..q]"
    if "CHR ''-'' \<notin> set lo" "go_atoi lo = Some p" "go_atoi hi = Some q" "1 \<le> p" "p \<le> q" "q \<le> 65535"
    for lo hi p q
    using that by (simp add: parse_item_def partition_at_append)
  have nodash: "CHR ''-'' \<notin> set (show_int (fst r))" "CHR ''-'' \<notin> set (show_int (snd r))"
    using r show_pos_digits [of "fst r"] show_pos_digits [of "snd r"] digit_not(3)
    unfolding valid_item_def by fastforce+
  have atoi: "go_atoi (show_int (fst r)) = Some (fst r)" "go_atoi (show_int (snd r)) = Some (snd r)"
    using r by (auto simp: valid_item_def intro!: go_dec.prs_shw port_in_int64)
  show ?thesis
  proof (cases "fst r = snd r")
    case True
    then show ?thesis
      using r single [OF nodash(1) atoi(1)] unfolding valid_item_def show_item_def by simp
  next
    case False
    then show ?thesis
      using r pair [OF nodash(1) atoi] unfolding valid_item_def show_item_def by simp
  qed
qed

lemma show_item_clean:
  assumes "valid_item r"
  shows "CHR '','' \<notin> set (show_item r)" "strip go_space (show_item r) = show_item r" "show_item r \<noteq> []"
proof -
  have "c \<noteq> CHR '','' \<and> \<not> go_space c" if "c \<in> set (show_item r)" for c
    using that go_dec.shw_clean [of c] by (auto simp: show_item_def go_space_def split: if_splits)
  then show "CHR '','' \<notin> set (show_item r)" "strip go_space (show_item r) = show_item r"
    by (auto intro: strip_clean)
  show "show_item r \<noteq> []" by (simp add: show_item_def show_int_def)
qed

lemma set_first_seen: "set (first_seen seen ps) = set ps - seen"
  by (induction ps arbitrary: seen) auto

lemma distinct_first_seen: "distinct (first_seen seen ps)"
  by (induction ps arbitrary: seen) (auto simp: set_first_seen)

lemma join_host_port_inj: "join_host_port h p = join_host_port h q \<longleftrightarrow> p = q"
  by (simp add: join_host_port_def)

section \<open>Properties\<close>

text \<open>
  C22: Round trip of the \<open>-ports\<close> list: any list of ports and ranges within 1 to 65535, printed
  with commas, is read back as exactly the ports it names, in order.
\<close>

theorem parsePorts_roundtrip:
  assumes "list_all valid_item rs"
  shows "parsePorts (join '','' (map show_item rs)) = Inr (concat (map (\<lambda>r. [fst r..snd r]) rs))"
proof (cases "rs = []")
  case True
  then show ?thesis by (simp add: parsePorts_def split_on_def strip_def)
next
  case False
  have split: "split_on (CHR '','') (join '','' (map show_item rs)) = map show_item rs"
    using assms False show_item_clean(1) by (intro split_on_join) (auto simp: list_all_iff)
  have "filter (\<lambda>i. i \<noteq> []) (map (strip go_space) (map show_item rs)) = map show_item rs"
    using assms show_item_clean(2,3) by (induction rs) auto
  moreover have "mapE (parse_item s) (map show_item rs) = Inr (map (\<lambda>r. [fst r..snd r]) rs)" for s
    using assms by (induction rs) (simp_all add: parse_show_item)
  ultimately show ?thesis by (simp add: parsePorts_spec split)
qed

theorem parsePorts_roundtrip_witness:
  "parsePorts (join '','' (map show_item [(8081, 8081), (8090, 8092)])) = Inr [8081, 8090, 8091, 8092]"
  using parsePorts_roundtrip [of "[(8081, 8081), (8090, 8092)]"]
  by (simp add: valid_item_def upto.simps)

text \<open>
  The addresses to listen on are the main port first and then the extra ports, all different,
  so no port is bound twice; a bad list is refused and never shortened.
\<close>

lemma listenAddrs_no_repeats:
  "(\<forall>e. parsePorts extra = Inl e \<longrightarrow> listenAddrs host port extra = Inl e) \<and>
   (\<forall>more. parsePorts extra = Inr more \<longrightarrow>
      (\<exists>addrs. listenAddrs host port extra = Inr addrs \<and> distinct addrs \<and>
         hd addrs = join_host_port host (show_int port) \<and>
         set addrs = (\<lambda>p. join_host_port host (show_int p)) ` ({port} \<union> set more) \<and>
         set more \<subseteq> {1..65535}))"
proof (intro conjI allI impI)
  fix e
  assume "parsePorts extra = Inl e"
  then show "listenAddrs host port extra = Inl e" by (simp add: listenAddrs_def)
next
  fix more
  assume more: "parsePorts extra = Inr more"
  have "inj (\<lambda>p. join_host_port host (show_int p))"
    using py_dec.shw_inj by (auto simp: inj_on_def join_host_port_inj)
  then have "distinct (map (\<lambda>p. join_host_port host (show_int p)) (first_seen {} ([port] @ more)))"
    unfolding distinct_map using distinct_first_seen by (blast intro: inj_on_subset)
  then show "\<exists>addrs. listenAddrs host port extra = Inr addrs \<and> distinct addrs \<and>
      hd addrs = join_host_port host (show_int port) \<and>
      set addrs = (\<lambda>p. join_host_port host (show_int p)) ` ({port} \<union> set more) \<and> set more \<subseteq> {1..65535}"
    using parsePorts_range [OF more] by (auto simp: listenAddrs_def more set_first_seen)
qed

end
