(* ===== verification/Routes.thy ===== *)
theory Routes
  imports Text
begin

text \<open>
  The routes of the server, \<open>newMux\<close> in \<open>main.go\<close>, with what \<open>net/http\<close>'s \<open>ServeMux\<close> does with them:
  a path is cleaned, a request for another spelling of it is redirected to the clean one, the most
  specific pattern wins, and a pattern that ends in a slash matches all paths below it. Paths are those
  of requests other than \<open>CONNECT\<close>, without percent escapes.
\<close>

section \<open>Operations\<close>

datatype mux_handler = WsHandler | MetricsHandler | HealthHandler | PprofIndex | PprofProfile

definition newMux :: "bool \<Rightarrow> (string \<times> mux_handler) list" where
  "newMux enable_pprof =
     [(''/ws'', WsHandler), (''/metrics'', MetricsHandler), (''/health'', HealthHandler)] @
     (if enable_pprof then [(''/debug/pprof/'', PprofIndex), (''/debug/pprof/profile'', PprofProfile)] else [])"

text \<open>\<open>path.Clean\<close> of a rooted path, segment by segment, and \<open>http.cleanPath\<close>, which keeps the final slash.\<close>

fun clean_step :: "string list \<Rightarrow> string \<Rightarrow> string list" where
  "clean_step done seg =
     (if seg = [] \<or> seg = ''.'' then done else if seg = ''..'' then butlast done else done @ [seg])"

definition clean_segments :: "string \<Rightarrow> string list" where
  "clean_segments p = foldl clean_step [] (split_on (CHR ''/'') p)"

definition path_clean :: "string \<Rightarrow> string" where
  "path_clean p = ''/'' @ join ''/'' (clean_segments p)"

definition clean_path :: "string \<Rightarrow> string" where
  "clean_path p =
     (if p = [] then ''/''
      else let p = (if hd p \<noteq> CHR ''/'' then ''/'' @ p else p); np = path_clean p
      in if last p = CHR ''/'' \<and> np \<noteq> ''/'' then np @ ''/'' else np)"

text \<open>The most specific pattern: the path itself, or the longest one with a final slash above it.\<close>

definition subtree :: "string \<Rightarrow> string \<times> mux_handler \<Rightarrow> bool" where
  "subtree p r = (last (fst r) = CHR ''/'' \<and> starts_with (fst r) p)"

definition longest :: "(string \<times> mux_handler) list \<Rightarrow> (string \<times> mux_handler) option" where
  "longest rs = foldl (\<lambda>best r. case best of
       None \<Rightarrow> Some r | Some b \<Rightarrow> if length (fst b) < length (fst r) then Some r else best) None rs"

definition match_route :: "(string \<times> mux_handler) list \<Rightarrow> string \<Rightarrow> mux_handler option" where
  "match_route routes p =
     (case map_of routes p of
        Some h \<Rightarrow> Some h
      | None \<Rightarrow> map_option snd (longest (filter (subtree p) routes)))"

datatype answer = Run mux_handler | Redirect string | NotFound

definition serve_http :: "(string \<times> mux_handler) list \<Rightarrow> string \<Rightarrow> answer" where
  "serve_http routes p =
     (let path = clean_path p
      in if map_of routes path = None \<and> last path \<noteq> CHR ''/'' \<and> map_of routes (path @ ''/'') \<noteq> None
         then Redirect (path @ ''/'')
         else if path \<noteq> p then Redirect path
         else case match_route routes path of None \<Rightarrow> NotFound | Some h \<Rightarrow> Run h)"

section \<open>Cleaning a path\<close>

definition clean_seg :: "string \<Rightarrow> bool" where
  "clean_seg seg \<longleftrightarrow> seg \<noteq> [] \<and> seg \<noteq> ''.'' \<and> seg \<noteq> ''..'' \<and> CHR ''/'' \<notin> set seg"

lemma clean_fold:
  "list_all clean_seg done \<Longrightarrow> (\<And>s. s \<in> set segs \<Longrightarrow> CHR ''/'' \<notin> set s) \<Longrightarrow> list_all clean_seg (foldl clean_step done segs)"
proof (induction segs arbitrary: "done")
  case (Cons s segs)
  have "list_all clean_seg (clean_step done s)"
    using Cons.prems by (auto simp: clean_seg_def list_all_iff dest: in_set_butlastD)
  then show ?case using Cons by simp
qed simp

lemma split_on_clean: "s \<in> set (split_on d p) \<Longrightarrow> d \<notin> set s"
  unfolding split_on_def using split_by_pieces by fastforce

lemma clean_segments_ok: "list_all clean_seg (clean_segments p)"
  unfolding clean_segments_def by (rule clean_fold) (simp_all add: split_on_clean)

lemma clean_fold_id: "list_all clean_seg segs \<Longrightarrow> foldl clean_step done segs = done @ segs"
  by (induction segs arbitrary: "done") (auto simp: clean_seg_def)

lemma foldl_clean_empty: "foldl clean_step done [[]] = done"
  by simp

text \<open>The segments of a path made of clean segments, with or without a final slash.\<close>

lemma rooted_join: "segs \<noteq> [] \<Longrightarrow> ''/'' @ join ''/'' segs = join ''/'' ([] # segs)"
  by (cases segs) simp_all

lemma join_snoc: "segs \<noteq> [] \<Longrightarrow> join sep (segs @ [w]) = join sep segs @ sep @ w"
proof (induction sep segs rule: join.induct)
  case (3 sep v w' ws)
  then show ?case by (cases ws) simp_all
qed simp_all

lemma no_slash: "list_all clean_seg segs \<Longrightarrow> w \<in> set ([] # segs @ [[]]) \<Longrightarrow> CHR ''/'' \<notin> set w"
proof -
  assume ok: "list_all clean_seg segs" and "w \<in> set ([] # segs @ [[]])"
  then consider "w = []" | "w \<in> set segs" by fastforce
  then show ?thesis using ok by cases (simp_all add: list_all_iff clean_seg_def)
qed

lemma split_on_rooted:
  assumes "list_all clean_seg segs" "segs \<noteq> []"
  shows "split_on (CHR ''/'') (''/'' @ join ''/'' segs) = [] # segs"
  unfolding rooted_join [OF assms(2)]
proof (rule split_on_join)
  show "CHR ''/'' \<notin> set w" if "w \<in> set ([] # segs)" for w
    by (rule no_slash [OF assms(1)]) (use that in \<open>simp add: disj_commute\<close>)
qed simp

lemma split_on_trailing:
  assumes "list_all clean_seg segs" "segs \<noteq> []"
  shows "split_on (CHR ''/'') ((''/'' @ join ''/'' segs) @ ''/'') = [] # segs @ [[]]"
proof -
  have "(''/'' @ join ''/'' segs) @ ''/'' = join ''/'' (([] # segs) @ [[]])"
    unfolding rooted_join [OF assms(2)] by (subst join_snoc) simp_all
  also have "split_on (CHR ''/'') \<dots> = ([] # segs) @ [[]]"
  proof (rule split_on_join)
    show "CHR ''/'' \<notin> set w" if "w \<in> set (([] # segs) @ [[]])" for w
      by (rule no_slash [OF assms(1)]) (use that in simp)
  qed simp
  finally show ?thesis by simp
qed

lemma clean_segments_join:
  assumes "list_all clean_seg segs" "segs \<noteq> []"
  shows "clean_segments (''/'' @ join ''/'' segs) = segs"
    "clean_segments ((''/'' @ join ''/'' segs) @ ''/'') = segs"
  unfolding clean_segments_def split_on_rooted [OF assms] split_on_trailing [OF assms]
  using clean_fold_id [OF assms(1), of "[]"] by simp_all

text \<open>A clean path is a rooted join of clean segments, and cleaning it changes nothing.\<close>

lemma clean_shape:
  "clean_path p = ''/'' \<or> (\<exists>segs. list_all clean_seg segs \<and> segs \<noteq> [] \<and>
     (clean_path p = ''/'' @ join ''/'' segs \<or> clean_path p = (''/'' @ join ''/'' segs) @ ''/''))"
proof -
  have "path_clean q = ''/'' \<or> clean_segments q \<noteq> [] \<and> path_clean q = ''/'' @ join ''/'' (clean_segments q)" for q
    by (cases "clean_segments q = []") (simp_all add: path_clean_def)
  then show ?thesis
    using clean_segments_ok unfolding clean_path_def Let_def by (cases "p = []") (auto split: if_splits)
qed

lemma join_segments_last: "list_all clean_seg segs \<Longrightarrow> segs \<noteq> [] \<Longrightarrow> join ''/'' segs \<noteq> [] \<and> last (join ''/'' segs) \<noteq> CHR ''/''"
proof (induction "''/''" segs rule: join.induct)
  case (2 w)
  then show ?case by (auto simp: clean_seg_def dest: last_in_set)
qed simp_all

lemma path_clean_clean:
  assumes "list_all clean_seg segs" "segs \<noteq> []"
  shows "path_clean (''/'' @ join ''/'' segs) = ''/'' @ join ''/'' segs"
    "path_clean ((''/'' @ join ''/'' segs) @ ''/'') = ''/'' @ join ''/'' segs"
  unfolding path_clean_def clean_segments_join [OF assms] by (rule refl)+

lemma clean_path_idem: "clean_path (clean_path p) = clean_path p"
  using clean_shape [of p]
proof (elim disjE exE conjE)
  assume "clean_path p = ''/''"
  moreover have "clean_path ''/'' = ''/''" by code_simp
  ultimately show ?thesis by simp
next
  fix segs assume ok: "list_all clean_seg segs" "segs \<noteq> []" and p: "clean_path p = ''/'' @ join ''/'' segs"
  have "last (''/'' @ join ''/'' segs) \<noteq> CHR ''/''" using join_segments_last [OF ok] by simp
  then show ?thesis unfolding p using path_clean_clean(1) [OF ok] by (simp add: clean_path_def Let_def)
next
  fix segs assume ok: "list_all clean_seg segs" "segs \<noteq> []" and p: "clean_path p = (''/'' @ join ''/'' segs) @ ''/''"
  have "''/'' @ join ''/'' segs \<noteq> ''/''" using join_segments_last [OF ok] by simp
  then show ?thesis unfolding p using path_clean_clean(2) [OF ok] by (simp add: clean_path_def Let_def)
qed

section \<open>Properties\<close>

lemma newMux_slash: "map_of (newMux b) (p @ ''/'') \<noteq> None \<longleftrightarrow> b \<and> p @ ''/'' = ''/debug/pprof/''"
  by (auto simp: newMux_def split: if_splits)

lemma newMux_exact: "map_of (newMux b) p =
    (if p = ''/ws'' then Some WsHandler else if p = ''/metrics'' then Some MetricsHandler
     else if p = ''/health'' then Some HealthHandler
     else if b \<and> p = ''/debug/pprof/'' then Some PprofIndex
     else if b \<and> p = ''/debug/pprof/profile'' then Some PprofProfile else None)"
  by (simp add: newMux_def)

lemma newMux_subtrees: "longest (filter (subtree p) (newMux b)) =
    (if b \<and> starts_with ''/debug/pprof/'' p then Some (''/debug/pprof/'', PprofIndex) else None)"
  by (simp add: newMux_def subtree_def longest_def)

text \<open>
  C40: Every path has one answer and redirects end: a redirect leads to another path that is not redirected
  again; a handler runs only for a clean path, the WebSocket handler exactly for \<open>/ws\<close>, and the
  profiling handlers exactly for paths below \<open>/debug/pprof/\<close> and only if they were enabled; any other
  clean path is not found.
\<close>

theorem routes_settled:
  "case serve_http (newMux b) p of
     Run h \<Rightarrow> clean_path p = p \<and> (h = WsHandler) = (p = ''/ws'') \<and> (h = MetricsHandler) = (p = ''/metrics'') \<and>
       (h = HealthHandler) = (p = ''/health'') \<and> (h = PprofProfile) = (p = ''/debug/pprof/profile'') \<and>
       (h \<in> {PprofIndex, PprofProfile}) = (b \<and> starts_with ''/debug/pprof/'' p)
   | Redirect q \<Rightarrow> q \<noteq> p \<and> (\<nexists>r. serve_http (newMux b) q = Redirect r)
   | NotFound \<Rightarrow> clean_path p = p \<and> p \<notin> {''/ws'', ''/metrics'', ''/health''} \<and> \<not> (b \<and> starts_with ''/debug/pprof/'' p)"
proof -
  let ?path = "clean_path p"
  let ?slash = "map_of (newMux b) ?path = None \<and> last ?path \<noteq> CHR ''/'' \<and> map_of (newMux b) (?path @ ''/'') \<noteq> None"
  consider (slash) "?slash" | (other) "\<not> ?slash" "?path \<noteq> p" | (here) "\<not> ?slash" "?path = p" by blast
  then show ?thesis
  proof cases
    case slash
    then have q: "serve_http (newMux b) p = Redirect (?path @ ''/'')" unfolding serve_http_def Let_def by simp
    have b: "b" "?path @ ''/'' = ''/debug/pprof/''" using slash newMux_slash [of b ?path] by auto
    have "serve_http (newMux True) ''/debug/pprof/'' = Run PprofIndex" by code_simp
    moreover have "clean_path ''/debug/pprof/'' = ''/debug/pprof/''" by code_simp
    ultimately show ?thesis using q b slash by auto
  next
    case other
    then have q: "serve_http (newMux b) p = Redirect ?path" unfolding serve_http_def Let_def by simp
    have "serve_http (newMux b) ?path \<noteq> Redirect r" for r
      unfolding serve_http_def Let_def clean_path_idem if_not_P [OF other(1)] by (simp split: option.split)
    then show ?thesis using q other(2) by simp
  next
    case here
    then have s: "serve_http (newMux b) p = (case match_route (newMux b) p of None \<Rightarrow> NotFound | Some h \<Rightarrow> Run h)"
      unfolding serve_http_def Let_def if_not_P [OF here(1)] by simp
    show ?thesis unfolding s match_route_def newMux_subtrees newMux_exact using here(2)
      by (auto simp: starts_with_def)
  qed
qed

end
