(* ===== verification/Listening.thy ===== *)
theory Listening
  imports Ports Routes "HOL-Library.Word"
begin

text \<open>
  The start of the server, \<open>main\<close> in \<open>main.go\<close>: the choice of the network, the configuration of the
  engine and the check that every address is really listened on (\<open>checkListening\<close>). What \<open>main\<close> uses
  of Go's \<open>net\<close> package is written out: \<open>ParseIP\<close> with its IPv4 and IPv6 forms, and \<open>SplitHostPort\<close>.
  The engine's \<open>Start\<close> and \<open>net.DialTimeout\<close> are parameters that give the error, if any.
\<close>

section \<open>Addresses\<close>

text \<open>
  Four decimal fields: \<open>val\<close> and \<open>dig\<close> are the value and the digits of the current field, \<open>out\<close> the
  fields before it. A leading zero, a value over 255, an empty field and a fifth field are refused.
\<close>

fun v4_fields :: "int \<Rightarrow> nat \<Rightarrow> 8 word list \<Rightarrow> string \<Rightarrow> 8 word list option" where
  "v4_fields val dig out [] = (if length out < 3 then None else Some (out @ [of_int val]))"
| "v4_fields val dig out (c # s) =
     (if is_digit c
      then if dig = 1 \<and> val = 0 then None
           else if 255 < val * 10 + digit_val c then None
           else v4_fields (val * 10 + digit_val c) (Suc dig) out s
      else if c = CHR ''.''
      then if dig = 0 \<or> s = [] \<or> length out = 3 then None
           else v4_fields 0 0 (out @ [of_int val]) s
      else None)"

definition hex_digit :: "char \<Rightarrow> int option" where
  "hex_digit c = (let n = of_char c :: int in
     if 48 \<le> n \<and> n \<le> 57 then Some (n - 48)
     else if 97 \<le> n \<and> n \<le> 102 then Some (n - 87)
     else if 65 \<le> n \<and> n \<le> 70 then Some (n - 55)
     else None)"

definition is_hex :: "char \<Rightarrow> bool" where
  "is_hex c = (hex_digit c \<noteq> None)"

text \<open>A group of hexadecimal digits as its two bytes.\<close>

definition hex_group :: "string \<Rightarrow> 8 word list" where
  "hex_group hs = (let acc = foldl (\<lambda>acc c. acc * 16 + the (hex_digit c)) 0 hs
     in [of_int (acc div 256), of_int acc])"

text \<open>
  The groups of an IPv6 address; \<open>ell\<close> is the place of the ellipsis, if one was seen. The result is
  the place of the ellipsis, the bytes and what is left of the text.
\<close>

function v6_groups :: "nat option \<Rightarrow> 8 word list \<Rightarrow> string \<Rightarrow> (nat option \<times> 8 word list \<times> string) option" where
  "v6_groups ell out s =
     (if 16 \<le> length out then Some (ell, out, s)
      else let hs = takeWhile is_hex s; out' = out @ hex_group hs
      in if hs = [] \<or> 4 < length hs then None
      else case dropWhile is_hex s of
        [] \<Rightarrow> Some (ell, out', [])
      | c # r \<Rightarrow>
          if c = CHR ''.'' then
            if ell = None \<and> length out \<noteq> 12 \<or> 16 < length out + 4 then None
            else map_option (\<lambda>f. (ell, out @ f, [])) (v4_fields 0 0 [] s)
          else if c \<noteq> CHR '':'' \<or> r = [] then None
          else if hd r = CHR '':'' then
            if ell \<noteq> None then None
            else if tl r = [] then Some (Some (length out'), out', [])
            else v6_groups (Some (length out')) out' (tl r)
          else v6_groups ell out' r)"
  by pat_completeness auto
termination
proof (relation "measure (\<lambda>(ell, out, s). length s)")
  fix ell :: "nat option" and out out' :: "8 word list" and s hs c r
  assume "dropWhile is_hex s = c # r"
  then have "Suc (length r) \<le> length s" using length_dropWhile_le [of is_hex s] by simp
  then show "((Some (length out'), out', tl r), ell, out, s) \<in> measure (\<lambda>(ell, out, s). length s)"
    "((ell, out', r), ell, out, s) \<in> measure (\<lambda>(ell, out, s). length s)" by auto
qed simp

declare v6_groups.simps [simp del]

definition parse_v6 :: "string \<Rightarrow> 8 word list option" where
  "parse_v6 s =
     (let lead = starts_with ''::'' s; s0 = (if lead then drop 2 s else s)
      in if lead \<and> s0 = [] then Some (replicate 16 0)
      else case v6_groups (if lead then Some 0 else None) [] s0 of
        None \<Rightarrow> None
      | Some (ell, out, rest) \<Rightarrow>
          if rest \<noteq> [] then None
          else (case ell of
                  None \<Rightarrow> if length out < 16 then None else Some out
                | Some e \<Rightarrow> if length out < 16 then Some (take e out @ replicate (16 - length out) 0 @ drop e out)
                            else None))"

definition v4_prefix :: "8 word list" where
  "v4_prefix = replicate 10 0 @ [255, 255]"

text \<open>
  \<open>net.ParseIP\<close>, the 16 bytes of an address or \<open>None\<close> for \<open>nil\<close>. The first dot or colon decides the
  form; an address with a zone, which needs a percent sign, is not accepted.
\<close>

definition parse_ip :: "string \<Rightarrow> 8 word list option" where
  "parse_ip s =
     (if CHR ''%'' \<in> set s then None
      else case dropWhile (\<lambda>c. c \<noteq> CHR ''.'' \<and> c \<noteq> CHR '':'') s of
        [] \<Rightarrow> None
      | c # r \<Rightarrow> if c = CHR ''.'' then map_option (\<lambda>f. v4_prefix @ f) (v4_fields 0 0 [] s) else parse_v6 s)"

text \<open>\<open>IP.To4\<close> is not \<open>nil\<close>, and \<open>IP.IsUnspecified\<close>.\<close>

definition is_v4 :: "8 word list \<Rightarrow> bool" where
  "is_v4 ip = (take 12 ip = v4_prefix)"

definition unspecified :: "8 word list \<Rightarrow> bool" where
  "unspecified ip = (ip = v4_prefix @ replicate 4 0 \<or> ip = replicate 16 0)"

text \<open>
  \<open>net.SplitHostPort\<close>: the port is what follows the last colon, and a host in brackets must end just
  before it.
\<close>

definition split_host_port :: "string \<Rightarrow> (string \<times> string) option" where
  "split_host_port hp =
     (let port = rev (takeWhile (\<lambda>c. c \<noteq> CHR '':'') (rev hp));
          i = length hp - length port - 1
      in if CHR '':'' \<notin> set hp then None
      else if hd hp = CHR ''['' then
        (let inner = takeWhile (\<lambda>c. c \<noteq> CHR '']'') hp
         in if CHR '']'' \<notin> set hp \<or> Suc (length inner) \<noteq> i then None
            else if CHR ''['' \<in> set (drop 1 hp) \<or> CHR '']'' \<in> set (drop (Suc (length inner)) hp) then None
            else Some (drop 1 inner, port))
      else if CHR '':'' \<in> set (take i hp) then None
      else if CHR ''['' \<in> set hp \<or> CHR '']'' \<in> set hp then None
      else Some (take i hp, port))"

section \<open>Operations\<close>

datatype start_error =
    BadFlag flag_error
  | StartFailed string
  | NotListening string string

text \<open>The host to dial for an address: loopback where the server listens on every interface.\<close>

definition dial_host :: "string \<Rightarrow> string" where
  "dial_host host =
     (let ip = parse_ip host
      in if host = [] \<or> ip \<noteq> None \<and> unspecified (the ip)
         then if ip \<noteq> None \<and> \<not> is_v4 (the ip) then ''::1'' else ''127.0.0.1''
         else host)"

text \<open>The error of \<open>SplitHostPort\<close> is ignored, so host and port are then empty.\<close>

fun checkListening :: "(string \<Rightarrow> string option) \<Rightarrow> string list \<Rightarrow> start_error option" where
  "checkListening dial [] = None"
| "checkListening dial (a # addrs) =
     (let (host, port) = (case split_host_port a of None \<Rightarrow> ([], []) | Some hp \<Rightarrow> hp)
      in case dial (join_host_port (dial_host host) port) of
        Some err \<Rightarrow> Some (NotListening a err)
      | None \<Rightarrow> checkListening dial addrs)"

record server_flags =
  addr :: string
  port :: int
  ports :: string
  enablePprof :: bool
  keepalive :: int
  pollers :: int
  maxLoad :: int

definition default_flags :: server_flags where
  "default_flags = \<lparr>addr = ''0.0.0.0'', port = 8080, ports = [], enablePprof = False, keepalive = 120 * 10 ^ 9, pollers = 0,
     maxLoad = defaultMaxLoad\<rparr>"

definition network_of :: "string \<Rightarrow> string" where
  "network_of host =
     (case parse_ip host of None \<Rightarrow> ''tcp'' | Some ip \<Rightarrow> if is_v4 ip then ''tcp4'' else ''tcp'')"

text \<open>The configuration of the engine, with the routes of its handler and the keepalive time of the upgrader.\<close>

record engine_config =
  Network :: string
  Addrs :: "string list"
  MaxLoad :: int
  NPoller :: int
  Handler :: "(string \<times> mux_handler) list"
  KeepaliveTime :: int

text \<open>
  \<open>main\<close> until it waits for a signal: \<open>Inl\<close> is \<open>log.Fatal\<close>, \<open>Inr\<close> the configuration it serves with.
\<close>

definition server_main ::
  "server_flags \<Rightarrow> (engine_config \<Rightarrow> string option) \<Rightarrow> (string \<Rightarrow> string option) \<Rightarrow> start_error + engine_config" where
  "server_main fl start dial =
     (case validateMaxLoad (maxLoad fl) of
        Some e \<Rightarrow> Inl (BadFlag e)
      | None \<Rightarrow>
          (case listenAddrs (addr fl) (port fl) (ports fl) of
             Inl e \<Rightarrow> Inl (BadFlag e)
           | Inr addrs \<Rightarrow>
               let engine = \<lparr>Network = network_of (addr fl), Addrs = addrs, MaxLoad = maxLoad fl, NPoller = pollers fl,
                     Handler = newMux (enablePprof fl), KeepaliveTime = keepalive fl\<rparr>
               in (case start engine of
                     Some err \<Rightarrow> Inl (StartFailed err)
                   | None \<Rightarrow> (case checkListening dial addrs of Some e \<Rightarrow> Inl e | None \<Rightarrow> Inr engine))))"

section \<open>Lemmas\<close>

lemma digit_char_not: "0 \<le> d \<Longrightarrow> d < 10 \<Longrightarrow> digit_char d \<noteq> CHR ''.''"
  using digit_char_digit [of d] by (auto simp: is_digit_def)

lemma v4_fields_num:
  "0 < n \<Longrightarrow> n \<le> 255 \<Longrightarrow> v4_fields 0 0 out (show_dec n @ s) = v4_fields n (length (show_dec n)) out s"
proof (induction n arbitrary: s rule: show_dec.induct)
  case (1 n)
  show ?case
  proof (cases "n < 10")
    case True
    then show ?thesis using 1 by (simp add: show_dec.simps [of n])
  next
    case False
    then have sh: "show_dec n = show_dec (n div 10) @ [digit_char (n mod 10)]" by (simp add: show_dec.simps [of n])
    have "v4_fields 0 0 out (show_dec (n div 10) @ digit_char (n mod 10) # s) =
        v4_fields (n div 10) (length (show_dec (n div 10))) out (digit_char (n mod 10) # s)"
      using False 1 by simp
    moreover have "n div 10 \<noteq> 0" using False by simp
    ultimately show ?thesis using False 1(3) by (simp add: sh)
  qed
qed

lemma v4_fields_show: "0 \<le> n \<Longrightarrow> n \<le> 255 \<Longrightarrow> \<exists>k > 0. v4_fields 0 0 out (show_dec n @ s) = v4_fields n k out s"
proof (cases "n = 0")
  case True
  have "v4_fields 0 0 out (show_dec 0 @ s) = v4_fields 0 1 out s" by (simp add: show_dec.simps [of 0])
  then show ?thesis using True by auto
next
  case False
  assume "0 \<le> n" "n \<le> 255"
  then show ?thesis using False v4_fields_num [of n out s] by (intro exI [of _ "length (show_dec n)"]) simp
qed

text \<open>Dotted decimals.\<close>

fun show_v4 :: "8 word list \<Rightarrow> string" where
  "show_v4 [] = []"
| "show_v4 [a] = show_dec (uint a)"
| "show_v4 (a # as) = show_dec (uint a) @ CHR ''.'' # show_v4 as"

lemma byte_range: "0 \<le> uint (a :: 8 word)" "uint (a :: 8 word) \<le> 255"
  using uint_lt2p [of a] by (simp_all del: uint_lt2p)

lemma show_v4_ne: "show_v4 (a # as) \<noteq> []"
  by (cases as) simp_all

lemma v4_fields_dotted:
  "length out + length as = 4 \<Longrightarrow> as \<noteq> [] \<Longrightarrow> v4_fields 0 0 out (show_v4 as) = Some (out @ as)"
proof (induction as arbitrary: out rule: show_v4.induct)
  case (2 a)
  from v4_fields_show [OF byte_range [of a], of out "[]"] 2 show ?case by auto
next
  case (3 a b as)
  from v4_fields_show [OF byte_range [of a], of out "CHR ''.'' # show_v4 (b # as)"]
  obtain k where "k > 0" "v4_fields 0 0 out (show_v4 (a # b # as)) = v4_fields (uint a) k out (CHR ''.'' # show_v4 (b # as))"
    by auto
  then show ?case using 3 by (simp add: is_digit_def show_v4_ne)
qed simp

lemma show_v4_chars: "c \<in> set (show_v4 as) \<Longrightarrow> is_digit c \<or> c = CHR ''.''"
  by (induction as rule: show_v4.induct) (auto dest: show_dec_digits [OF byte_range(1)])

lemma parse_ip_dotted: "parse_ip (show_v4 [a, b, c, d]) = Some (v4_prefix @ [a, b, c, d])"
proof -
  let ?s = "show_v4 [a, b, c, d]"
  have no: "CHR ''%'' \<notin> set ?s" using show_v4_chars by (fastforce simp: is_digit_def)
  have "\<And>x. x \<in> set (show_dec (uint a)) \<Longrightarrow> x \<noteq> CHR ''.'' \<and> x \<noteq> CHR '':''"
    using show_dec_digits [OF byte_range(1)] by (fastforce simp: is_digit_def)
  then have "dropWhile (\<lambda>c. c \<noteq> CHR ''.'' \<and> c \<noteq> CHR '':'') ?s = CHR ''.'' # show_v4 [b, c, d]"
    by (simp add: dropWhile_append)
  then show ?thesis using no v4_fields_dotted [of "[]" "[a, b, c, d]"] by (simp add: parse_ip_def)
qed

lemma takeWhile_all: "(\<And>c. c \<in> set s \<Longrightarrow> p c) \<Longrightarrow> takeWhile p (s @ t) = s @ takeWhile p t"
  by simp

text \<open>\<open>SplitHostPort\<close> undoes \<open>JoinHostPort\<close>.\<close>

lemma split_join:
  assumes "CHR ''['' \<notin> set host" "CHR '']'' \<notin> set host"
    and "CHR '':'' \<notin> set p" "CHR ''['' \<notin> set p" "CHR '']'' \<notin> set p"
  shows "split_host_port (join_host_port host p) = Some (host, p)"
proof -
  have last: "rev (takeWhile (\<lambda>c. c \<noteq> CHR '':'') (rev (pre @ CHR '':'' # p))) = p" for pre
    using assms(3) by (simp add: takeWhile_append)
  show ?thesis
  proof (cases "CHR '':'' \<in> set host")
    case True
    have j: "join_host_port host p = (CHR ''['' # host @ [CHR '']'']) @ CHR '':'' # p"
      using True by (simp add: join_host_port_def)
    have "takeWhile (\<lambda>c. c \<noteq> CHR '']'') ((CHR ''['' # host @ [CHR '']'']) @ CHR '':'' # p) = CHR ''['' # host"
      using assms(2) by (simp add: takeWhile_append)
    with last [of "CHR ''['' # host @ [CHR '']'']"] show ?thesis
      using assms unfolding j by (simp add: split_host_port_def)
  next
    case False
    have j: "join_host_port host p = host @ CHR '':'' # p" using False by (simp add: join_host_port_def)
    have "hd (host @ CHR '':'' # p) \<noteq> CHR ''[''" using assms(1) by (cases host) auto
    with last [of host] show ?thesis using assms False unfolding j by (simp add: split_host_port_def)
  qed
qed

lemma show_int_port: "CHR '':'' \<notin> set (show_int i)" "CHR ''['' \<notin> set (show_int i)" "CHR '']'' \<notin> set (show_int i)"
  using show_int_chars [of _ i] by (fastforce simp: is_digit_def)+

lemma checkListening_joined:
  assumes "CHR ''['' \<notin> set host" "CHR '']'' \<notin> set host"
    and "checkListening dial (map (\<lambda>p. join_host_port host (show_int p)) ps) = None" "p \<in> set ps"
  shows "dial (join_host_port (dial_host host) (show_int p)) = None"
  using assms(3,4) split_join [OF assms(1,2) show_int_port]
  by (induction ps) (auto split: option.splits)

lemma dial_host_specified: "parse_ip (dial_host host) = Some ip \<Longrightarrow> \<not> unspecified ip"
proof -
  have "parse_ip ''::1'' = Some (replicate 15 0 @ [1])" "parse_ip ''127.0.0.1'' = Some (v4_prefix @ [127, 0, 0, 1])"
    by code_simp+
  moreover have "\<not> unspecified (replicate 15 0 @ [1])" "\<not> unspecified (v4_prefix @ [127, 0, 0, 1])" by code_simp+
  ultimately show "parse_ip (dial_host host) = Some ip \<Longrightarrow> \<not> unspecified ip"
    by (auto simp: dial_host_def Let_def split: if_splits)
qed

section \<open>Properties\<close>

text \<open>
  C23: A server that has started is really reachable: when \<open>main\<close> gets as far as waiting for a signal, the
  engine runs with a cap of at least one connection, on different addresses, which are those of the
  main port and of every port of the list, and on each of these ports a connection was made, to the
  host itself or to loopback in place of a wildcard address.
\<close>

theorem started_is_reachable:
  assumes run: "server_main fl start dial = Inr engine"
    and host: "CHR ''['' \<notin> set (addr fl)" "CHR '']'' \<notin> set (addr fl)"
  shows "\<exists>more. parsePorts (ports fl) = Inr more \<and> 1 \<le> MaxLoad engine \<and> start engine = None \<and> distinct (Addrs engine) \<and>
    set (Addrs engine) = (\<lambda>p. join_host_port (addr fl) (show_int p)) ` ({port fl} \<union> set more) \<and>
    list_all (\<lambda>p. dial (join_host_port (dial_host (addr fl)) (show_int p)) = None) (port fl # more) \<and>
    (case parse_ip (dial_host (addr fl)) of None \<Rightarrow> True | Some ip \<Rightarrow> \<not> unspecified ip)"
proof -
  obtain addrs where a: "listenAddrs (addr fl) (port fl) (ports fl) = Inr addrs"
    and e: "1 \<le> maxLoad fl" "MaxLoad engine = maxLoad fl" "Addrs engine = addrs"
      "start engine = None" "checkListening dial addrs = None"
    using run by (auto simp: server_main_def validateMaxLoad_def Let_def split: option.splits sum.splits if_splits)
  obtain more where more: "parsePorts (ports fl) = Inr more" using a by (auto simp: listenAddrs_def bindE_Inr_iff)
  have addrs: "addrs = map (\<lambda>p. join_host_port (addr fl) (show_int p)) (first_seen {} (port fl # more))"
    using a more by (simp add: listenAddrs_def)
  have "dial (join_host_port (dial_host (addr fl)) (show_int p)) = None" if "p \<in> set (port fl # more)" for p
  proof -
    have "p \<in> set (first_seen {} (port fl # more))" using that by (simp only: set_first_seen Diff_empty)
    then show ?thesis by (rule checkListening_joined [OF host e(5) [unfolded addrs]])
  qed
  moreover have "distinct addrs \<and> set addrs = (\<lambda>p. join_host_port (addr fl) (show_int p)) ` ({port fl} \<union> set more)"
    using listenAddrs_no_repeats [of "ports fl" "addr fl" "port fl"] a more by auto
  ultimately show ?thesis
    using more e by (auto simp: list_all_iff dest: dial_host_specified split: option.split)
qed

theorem started_is_reachable_witness:
  "\<exists>engine. server_main (default_flags\<lparr>ports := ''8081-8082''\<rparr>) (\<lambda>_. None)
      (\<lambda>a. if starts_with ''127.0.0.1:'' a then None else Some ''refused'') = Inr engine \<and>
    Addrs engine = [''0.0.0.0:8080'', ''0.0.0.0:8081'', ''0.0.0.0:8082''] \<and> distinct (Addrs engine)"
proof -
  let ?fl = "default_flags\<lparr>ports := ''8081-8082''\<rparr>"
  let ?dial = "\<lambda>a. if starts_with ''127.0.0.1:'' a then None else Some ''refused''"
  let ?engine = "\<lparr>Network = ''tcp4'', Addrs = [''0.0.0.0:8080'', ''0.0.0.0:8081'', ''0.0.0.0:8082''], MaxLoad = 1000000, NPoller = 0,
      Handler = newMux False, KeepaliveTime = 120000000000\<rparr>"
  have "server_main ?fl (\<lambda>_. None) ?dial = Inr ?engine" by code_simp
  from started_is_reachable [OF this] this show ?thesis by (auto simp: default_flags_def)
qed

text \<open>
  IPv4 hosts: for each address in dotted form the engine is given \<open>tcp4\<close>, so accepted connections
  are IPv4 sockets, and the start-up check dials that address, or \<open>127.0.0.1\<close> for \<open>0.0.0.0\<close>.
\<close>

lemma v4_host_network:
  "network_of (show_v4 [a, b, c, d]) = ''tcp4'' \<and>
   dial_host (show_v4 [a, b, c, d]) =
     (if a = 0 \<and> b = 0 \<and> c = 0 \<and> d = 0 then ''127.0.0.1'' else show_v4 [a, b, c, d])"
proof -
  have "show_v4 [a, b, c, d] \<noteq> []" by (rule show_v4_ne)
  moreover have "is_v4 (v4_prefix @ f)" for f by (simp add: is_v4_def v4_prefix_def)
  moreover have "unspecified (v4_prefix @ [a, b, c, d]) \<longleftrightarrow> a = 0 \<and> b = 0 \<and> c = 0 \<and> d = 0"
    by (auto simp: unspecified_def v4_prefix_def numeral_eq_Suc)
  ultimately show ?thesis by (simp del: show_v4.simps add: network_of_def dial_host_def parse_ip_dotted Let_def)
qed

end
