(* ===== verification/PyNum.thy ===== *)
theory PyNum
  imports Text
begin

text \<open>
  Python numbers and the values a sample dictionary holds. An integer and a float are different
  values that compare by their exact mathematical value and that arithmetic converts to a double,
  raising \<open>OverflowError\<close> for an integer too large for one.
\<close>

section \<open>Numbers\<close>

datatype pynum = PInt int | PFlo flt

text \<open>The exact value, for comparisons.\<close>

fun exact :: "pynum \<Rightarrow> flt" where
  "exact (PInt i) = Fin (of_int i)"
| "exact (PFlo x) = x"

fun to_float :: "pynum \<Rightarrow> flt res" where
  "to_float (PInt i) = (case mk (of_int i) of Fin r \<Rightarrow> Inr (Fin r) | _ \<Rightarrow> Inl OverflowError)"
| "to_float (PFlo x) = Inr x"

definition num_le :: "pynum \<Rightarrow> pynum \<Rightarrow> bool" where
  "num_le x y = (exact x \<le> exact y)"

definition num_lt :: "pynum \<Rightarrow> pynum \<Rightarrow> bool" where
  "num_lt x y = (exact x < exact y)"

text \<open>\<open>bool(x)\<close>: zero is false, a NaN is true.\<close>

fun nonzero :: "pynum \<Rightarrow> bool" where
  "nonzero (PInt i) = (i \<noteq> 0)"
| "nonzero (PFlo (Fin r)) = (r \<noteq> 0)"
| "nonzero (PFlo x) = True"

definition on_floats :: "(flt \<Rightarrow> flt \<Rightarrow> flt) \<Rightarrow> pynum \<Rightarrow> pynum \<Rightarrow> pynum res" where
  "on_floats f x y = bindE (to_float x) (\<lambda>a. bindE (to_float y) (\<lambda>b. Inr (PFlo (f a b))))"

fun num_sub :: "pynum \<Rightarrow> pynum \<Rightarrow> pynum res" where
  "num_sub (PInt a) (PInt b) = Inr (PInt (a - b))"
| "num_sub x y = on_floats (-) x y"

fun num_add :: "pynum \<Rightarrow> pynum \<Rightarrow> pynum res" where
  "num_add (PInt a) (PInt b) = Inr (PInt (a + b))"
| "num_add x y = on_floats (+) x y"

fun num_mul :: "pynum \<Rightarrow> pynum \<Rightarrow> pynum res" where
  "num_mul (PInt a) (PInt b) = Inr (PInt (a * b))"
| "num_mul x y = on_floats (*) x y"

text \<open>True division: of two integers, the double nearest to the exact quotient.\<close>

fun num_div :: "pynum \<Rightarrow> pynum \<Rightarrow> flt res" where
  "num_div (PInt a) (PInt b) =
     (if b = 0 then Inl ZeroDivisionError
      else case mk (of_int a / of_int b) of Fin r \<Rightarrow> Inr (Fin r) | _ \<Rightarrow> Inl OverflowError)"
| "num_div x y = bindE (to_float x) (\<lambda>a. bindE (to_float y) (\<lambda>b.
     if b = Fin 0 then Inl ZeroDivisionError else Inr (fdiv a b)))"

text \<open>\<open>round(x)\<close> and \<open>int(x)\<close> of a float, and \<open>round(x, 1)\<close>.\<close>

fun py_round :: "flt \<Rightarrow> int res" where
  "py_round (Fin r) = Inr (rhe r)"
| "py_round NaN = Inl ValueError"
| "py_round _ = Inl OverflowError"

fun py_trunc :: "flt \<Rightarrow> int res" where
  "py_trunc (Fin r) = Inr (if 0 \<le> r then \<lfloor>r\<rfloor> else \<lceil>r\<rceil>)"
| "py_trunc NaN = Inl ValueError"
| "py_trunc _ = Inl OverflowError"

fun num_trunc :: "pynum \<Rightarrow> int res" where
  "num_trunc (PInt i) = Inr i"
| "num_trunc (PFlo x) = py_trunc x"

fun round1 :: "flt \<Rightarrow> flt" where
  "round1 (Fin r) = mk (of_int (rhe (r * 10)) / 10)"
| "round1 x = x"

text \<open>
  \<open>max\<close> of a list keeps the first of equal values and \<open>min\<close> likewise; both are defined by the
  comparisons Python makes, so they follow it for NaN as well.
\<close>

fun num_max :: "pynum \<Rightarrow> pynum list \<Rightarrow> pynum" where
  "num_max m [] = m"
| "num_max m (x # xs) = num_max (if num_lt m x then x else m) xs"

fun num_min :: "pynum \<Rightarrow> pynum list \<Rightarrow> pynum" where
  "num_min m [] = m"
| "num_min m (x # xs) = num_min (if num_lt x m then x else m) xs"

text \<open>
  \<open>sum\<close> of a list of floats, with the compensated summation of CPython 3.12 and later: \<open>c\<close> gathers
  the low-order parts lost by each addition and is added at the end when it is finite and not zero.
\<close>

fun flt_abs :: "flt \<Rightarrow> flt" where
  "flt_abs (Fin r) = Fin \<bar>r\<bar>"
| "flt_abs NInf = PInf"
| "flt_abs x = x"

fun finite_flt :: "flt \<Rightarrow> bool" where
  "finite_flt (Fin r) = True"
| "finite_flt x = False"

fun flt_sum_from :: "flt \<Rightarrow> flt \<Rightarrow> flt list \<Rightarrow> flt" where
  "flt_sum_from s c [] = (if c \<noteq> Fin 0 \<and> finite_flt c then s + c else s)"
| "flt_sum_from s c (x # xs) =
     (let t = s + x
      in flt_sum_from t (c + (if flt_abs x \<le> flt_abs s then (s - t) + x else (x - t) + s)) xs)"

definition flt_sum :: "flt list \<Rightarrow> flt" where
  "flt_sum xs = flt_sum_from (Fin 0) (Fin 0) xs"

lemma exact_le_trans: "num_le x y \<Longrightarrow> num_le y z \<Longrightarrow> num_le x z"
  unfolding num_le_def by (rule flt_le_trans)

lemma num_lt_le: "num_lt x y \<Longrightarrow> num_le x y"
  by (simp add: num_lt_def num_le_def less_flt_def)

lemma num_le_refl: "exact x \<noteq> NaN \<Longrightarrow> num_le x x"
  by (cases "exact x") (auto simp: num_le_def)

lemma num_not_lt: "exact x \<noteq> NaN \<Longrightarrow> exact y \<noteq> NaN \<Longrightarrow> \<not> num_lt x y \<longleftrightarrow> num_le y x"
  using flt_not_NaN_total [of "exact x" "exact y"] by (auto simp: num_lt_def num_le_def less_flt_def)

lemma num_max_in: "num_max m xs \<in> set (m # xs)"
  by (induction xs arbitrary: m) (auto split: if_splits)

lemma num_min_in: "num_min m xs \<in> set (m # xs)"
  by (induction xs arbitrary: m) (auto split: if_splits)

lemma num_max_ge:
  "\<forall>y \<in> set (m # xs). exact y \<noteq> NaN \<Longrightarrow> x \<in> set (m # xs) \<Longrightarrow> num_le x (num_max m xs)"
proof (induction xs arbitrary: m x)
  case (Cons a xs)
  let ?n = "if num_lt m a then a else m"
  have n: "num_le a ?n" "num_le m ?n"
    using Cons.prems(1) num_not_lt [of m a] by (auto intro: num_le_refl num_lt_le)
  have "x \<in> set (?n # xs) \<or> num_le x ?n" using Cons.prems(2) n by auto
  moreover have ok: "\<forall>y \<in> set (?n # xs). exact y \<noteq> NaN" using Cons.prems(1) by auto
  have top: "num_le ?n (num_max ?n xs)" using Cons.IH [OF ok] by simp
  ultimately have "num_le x (num_max ?n xs)" using Cons.IH [OF ok] exact_le_trans [OF _ top] by blast
  then show ?case by simp
qed (auto intro: num_le_refl)

lemma num_min_le:
  "\<forall>y \<in> set (m # xs). exact y \<noteq> NaN \<Longrightarrow> x \<in> set (m # xs) \<Longrightarrow> num_le (num_min m xs) x"
proof (induction xs arbitrary: m x)
  case (Cons a xs)
  let ?n = "if num_lt a m then a else m"
  have n: "num_le ?n a" "num_le ?n m"
    using Cons.prems(1) num_not_lt [of a m] by (auto intro: num_le_refl num_lt_le)
  have "x \<in> set (?n # xs) \<or> num_le ?n x" using Cons.prems(2) n by auto
  moreover have ok: "\<forall>y \<in> set (?n # xs). exact y \<noteq> NaN" using Cons.prems(1) by auto
  have top: "num_le (num_min ?n xs) ?n" using Cons.IH [OF ok] by simp
  ultimately have "num_le (num_min ?n xs) x" using Cons.IH [OF ok] exact_le_trans [OF top] by blast
  then show ?case by simp
qed (auto intro: num_le_refl)

section \<open>Values\<close>

text \<open>
  The values the scripts pass around: what \<open>json.load\<close> returns, what a sample dictionary holds and
  what \<open>json.dump\<close> writes. The texts themselves are those of the theory \<open>Json\<close>.
\<close>

datatype pyval =
    VNone
  | VBool bool
  | VNum pynum
  | VStr string
  | VList "pyval list"
  | VDict "(string \<times> pyval) list"

definition is_none :: "pyval \<Rightarrow> bool" where
  "is_none v = (v = VNone)"

fun truthy :: "pyval \<Rightarrow> bool" where
  "truthy VNone = False"
| "truthy (VBool b) = b"
| "truthy (VNum n) = nonzero n"
| "truthy (VStr s) = (s \<noteq> [])"
| "truthy (VList xs) = (xs \<noteq> [])"
| "truthy (VDict d) = (d \<noteq> [])"

text \<open>A number where arithmetic or an ordering comparison with a number needs one; a \<open>bool\<close> counts
  as 0 or 1.\<close>

fun num_of :: "pyval \<Rightarrow> pynum res" where
  "num_of (VNum n) = Inr n"
| "num_of (VBool b) = Inr (PInt (if b then 1 else 0))"
| "num_of _ = Inl TypeError"

text \<open>\<open>v[key]\<close> and \<open>v[index]\<close> for a key string and an index that is not negative.\<close>

fun item_key :: "string \<Rightarrow> pyval \<Rightarrow> pyval res" where
  "item_key k (VDict d) = sub d k"
| "item_key k _ = Inl TypeError"

fun item_idx :: "nat \<Rightarrow> pyval \<Rightarrow> pyval res" where
  "item_idx i (VList xs) = (if i < length xs then Inr (xs ! i) else Inl IndexError)"
| "item_idx i (VStr s) = (if i < length s then Inr (VStr [s ! i]) else Inl IndexError)"
| "item_idx i (VDict d) = Inl (KeyError (show_int (int i)))"
| "item_idx i _ = Inl TypeError"

text \<open>\<open>float(v)\<close>.\<close>

fun float_of :: "pyval \<Rightarrow> flt res" where
  "float_of (VStr s) = of_option ValueError (py_float_of s)"
| "float_of (VNum n) = to_float n"
| "float_of (VBool b) = Inr (Fin (if b then 1 else 0))"
| "float_of _ = Inl TypeError"

definition vflt :: "flt option \<Rightarrow> pyval" where
  "vflt x = (case x of None \<Rightarrow> VNone | Some f \<Rightarrow> VNum (PFlo f))"

definition vint :: "int option \<Rightarrow> pyval" where
  "vint x = (case x of None \<Rightarrow> VNone | Some i \<Rightarrow> VNum (PInt i))"

text \<open>\<open>v or 0\<close>.\<close>

definition or_zero :: "pyval \<Rightarrow> pyval" where
  "or_zero v = (if truthy v then v else VNum (PInt 0))"

lemma vint_simps [simp]: "vint None = VNone" "vint (Some i) = VNum (PInt i)"
  by (simp_all add: vint_def)

lemma vflt_simps [simp]: "vflt None = VNone" "vflt (Some f) = VNum (PFlo f)"
  by (simp_all add: vflt_def)

text \<open>
  Formatting with a fixed number of decimals converts a number to a float first. A \<open>str\<close> raises
  \<open>ValueError\<close> for this format, anything else \<open>TypeError\<close>.
\<close>

definition fmt_num :: "bool \<Rightarrow> nat \<Rightarrow> pynum \<Rightarrow> string res" where
  "fmt_num grouped d n = bindE (to_float n) (\<lambda>x. Inr (fmt_fixed grouped d x))"

fun fmt_val :: "bool \<Rightarrow> nat \<Rightarrow> pyval \<Rightarrow> string res" where
  "fmt_val grouped d (VStr s) = Inl ValueError"
| "fmt_val grouped d v = bindE (num_of v) (fmt_num grouped d)"

text \<open>\<open>str(v)\<close> of a value that is not a container, as an f-string without a format prints it.\<close>

fun str_scalar :: "pyval \<Rightarrow> string res" where
  "str_scalar VNone = Inr ''None''"
| "str_scalar (VBool b) = Inr (if b then ''True'' else ''False'')"
| "str_scalar (VNum (PInt i)) = Inr (show_int i)"
| "str_scalar (VNum (PFlo x)) = Inr (py_repr x)"
| "str_scalar (VStr s) = Inr s"
| "str_scalar _ = Inl TypeError"

section \<open>Numbers that convert\<close>

text \<open>A number that has a finite double: any finite float, and an integer below the overflow bound.\<close>

fun convertible :: "pynum \<Rightarrow> bool" where
  "convertible (PInt i) = (\<bar>i\<bar> \<le> 2 ^ 1023)"
| "convertible (PFlo x) = finite_flt x"

lemma mk_bounded: "\<bar>x\<bar> \<le> 2 ^ 1023 \<Longrightarrow> mk x = Fin (rnd x)"
proof (rule mk_Fin)
  assume x: "\<bar>x\<bar> \<le> 2 ^ 1023"
  have p: "(2::rat) ^ 1023 = 2 powi 1023" by (simp only: power_int_numeral)
  have r: "rnd (2 ^ 1023) = 2 ^ 1023" unfolding p by (rule rnd_powi) simp
  have "rnd x \<le> 2 ^ 1023" "- (2 ^ 1023) \<le> rnd x"
    using x rnd_mono [of x "2 ^ 1023"] rnd_mono [of "- (2 ^ 1023)" x]
    unfolding rnd_minus r abs_le_iff by linarith+
  then have "\<bar>rnd x\<bar> \<le> 2 ^ 1023" unfolding abs_le_iff by linarith
  moreover have "(2::rat) ^ 1023 < 2 ^ 1024" by (rule power_strict_increasing) simp_all
  ultimately show "\<bar>rnd x\<bar> < 2 ^ 1024" by (rule le_less_trans)
qed

lemma to_float_convertible: "convertible n \<Longrightarrow> \<exists>r. to_float n = Inr (Fin r)"
proof (cases n)
  case (PInt i)
  assume "convertible n"
  then have i: "\<bar>i\<bar> \<le> 2 ^ 1023" using PInt by (simp only: convertible.simps)
  have "\<bar>of_int i :: rat\<bar> = of_int \<bar>i\<bar>" by simp
  also have "\<dots> \<le> of_int (2 ^ 1023)" using i by (simp only: of_int_le_iff)
  also have "\<dots> = 2 ^ 1023" by (simp only: of_int_power of_int_numeral)
  finally show ?thesis using PInt mk_bounded by simp
next
  case (PFlo x)
  assume "convertible n"
  then show ?thesis using PFlo by (cases x) auto
qed

end
