(* ===== verification/Metrics.thy ===== *)
theory Metrics
  imports PyNum
begin

text \<open>
  The readers of \<open>bench/local/record.py\<close>: what they make of a Prometheus answer, the server's
  \<open>/metrics\<close> page, a cgroup file and a Docker command's output. What the outside world delivers is
  an argument: an HTTP answer is \<open>None\<close> when the request or the decoding failed, a file \<open>None\<close> when
  it cannot be opened. An exception that the code catches is the value it returns then; one it does
  not catch is \<open>Inl\<close>.
\<close>

section \<open>Tables\<close>

definition STEP :: int where "STEP = 2"

definition SERVER_FIELDS :: "(string \<times> string) list" where
  "SERVER_FIELDS = [
    (''millionws_connections_active'', ''server_conns''),
    (''go_goroutines'', ''goroutines''),
    (''process_open_fds'', ''open_fds''),
    (''process_resident_memory_bytes'', ''process_rss''),
    (''go_memstats_heap_inuse_bytes'', ''go_heap_inuse''),
    (''go_memstats_stack_inuse_bytes'', ''go_stack_inuse''),
    (''millionws_connections_rejected_total'', ''rejected'')]"

definition QUERIES :: "(string \<times> string) list" where
  "QUERIES = [
    (''loadgen_conns'', ''sum(loadgen_connections_active)''),
    (''loadgen_target'', ''sum(loadgen_connections_target)''),
    (''dial_errors_15s'', ''sum(increase(loadgen_dial_errors_total[15s]))''),
    (''echo_rate'', ''sum(rate(loadgen_messages_received_total[30s]))''),
    (''echo_p50_ms'', ''1000 * histogram_quantile(0.50, sum by (le) (rate(loadgen_echo_latency_seconds_bucket[30s])))''),
    (''echo_p99_ms'', ''1000 * histogram_quantile(0.99, sum by (le) (rate(loadgen_echo_latency_seconds_bucket[30s])))'')]"

definition FIELDS :: "string list" where
  "FIELDS = [
    ''t'', ''state'', ''server_conns'', ''loadgen_conns'', ''loadgen_target'',
    ''cg_memory'', ''cg_anon'', ''cg_sock'', ''cg_kernel'', ''cg_slab'', ''cg_percpu'', ''cg_file'', ''cg_peak'',
    ''oom_kills'', ''cpu_pct'', ''pids'', ''process_rss'', ''go_heap_inuse'',
    ''go_stack_inuse'', ''goroutines'', ''open_fds'', ''dial_errors_15s'',
    ''echo_rate'', ''echo_p50_ms'', ''echo_p99_ms'', ''conntrack'', ''rejected'']"

section \<open>Prometheus\<close>

text \<open>Subscripting the answer is inside the \<open>try\<close>, reading the number is not.\<close>

definition answer_data :: "pyval option \<Rightarrow> pyval option" where
  "answer_data answer = (case answer of None \<Rightarrow> None | Some v \<Rightarrow>
     (case bindE (item_key ''data'' v) (item_key ''result'') of Inl e \<Rightarrow> None | Inr d \<Rightarrow> Some d))"

definition prom :: "pyval option \<Rightarrow> flt option res" where
  "prom answer = (case answer_data answer of
     None \<Rightarrow> Inr None
   | Some data \<Rightarrow>
       if \<not> truthy data then Inr None
       else bindE (item_idx 0 data) (\<lambda>first.
            bindE (item_key ''value'' first) (\<lambda>pair.
            bindE (item_idx 1 pair) (\<lambda>raw.
            bindE (float_of raw) (\<lambda>v.
              Inr (if v = NaN then None else Some v))))))"

text \<open>
  The labels of one series, sorted by name, and its value. Prometheus sends label values as strings.
  A \<open>dict\<close> comprehension keeps the last value of a repeated key.
\<close>

type_synonym labels = "(string \<times> string) list"

fun str_of :: "pyval \<Rightarrow> string res" where
  "str_of (VStr s) = Inr s"
| "str_of _ = Inl TypeError"

fun series_labels :: "pyval \<Rightarrow> labels res" where
  "series_labels (VDict d) =
     mapE (\<lambda>(k, v). bindE (str_of v) (\<lambda>s. Inr (k, s))) (sort_key fst d)"
| "series_labels _ = Inl TypeError"

definition series_entry :: "pyval \<Rightarrow> (labels \<times> flt) res" where
  "series_entry x =
     bindE (bindE (item_key ''metric'' x) series_labels) (\<lambda>ls.
     bindE (item_key ''value'' x) (\<lambda>pair.
     bindE (item_idx 1 pair) (\<lambda>raw.
     bindE (float_of raw) (\<lambda>v. Inr (ls, v)))))"

fun elements :: "pyval \<Rightarrow> pyval list res" where
  "elements (VList xs) = Inr xs"
| "elements (VDict d) = Inr (map (\<lambda>(k, v). VStr k) d)"
| "elements (VStr s) = Inr (map (\<lambda>c. VStr [c]) s)"
| "elements _ = Inl TypeError"

definition prom_vector :: "pyval option \<Rightarrow> (labels \<times> flt) list" where
  "prom_vector answer = (case answer_data answer of
     None \<Rightarrow> []
   | Some data \<Rightarrow>
       (case bindE (elements data) (mapE series_entry) of
          Inl e \<Rightarrow> []
        | Inr entries \<Rightarrow> fold (\<lambda>(k, v). AList.update k v) entries []))"

section \<open>The server's metrics page\<close>

text \<open>
  The exception handler encloses the whole loop: a value that is not a number ends it, and the
  fields read before stay.
\<close>

fun scrape_lines :: "pyval dict \<Rightarrow> string list \<Rightarrow> pyval dict" where
  "scrape_lines out [] = out"
| "scrape_lines out (line # lines) =
     (case partition_at (CHR '' '') line of (name, value) \<Rightarrow>
        (case map_of SERVER_FIELDS name of
           None \<Rightarrow> scrape_lines out lines
         | Some field \<Rightarrow>
             (case py_float_of value of
                None \<Rightarrow> out
              | Some v \<Rightarrow> scrape_lines (put field (VNum (PFlo v)) out) lines)))"

definition scrape_server :: "string option \<Rightarrow> pyval dict" where
  "scrape_server body =
     (let out = map (\<lambda>f. (f, VNone)) (map snd SERVER_FIELDS)
      in case body of None \<Rightarrow> out | Some text \<Rightarrow> scrape_lines out (splitlines text))"

section \<open>Files and commands\<close>

definition read_file :: "(string \<Rightarrow> string option) \<Rightarrow> string \<Rightarrow> string" where
  "read_file fs path = (case fs path of None \<Rightarrow> [] | Some text \<Rightarrow> text)"

fun kv_lines :: "int dict \<Rightarrow> string list \<Rightarrow> int dict res" where
  "kv_lines out [] = Inr out"
| "kv_lines out (line # lines) =
     (case py_words line of
        [k, v] \<Rightarrow> bindE (of_option ValueError (py_int_of v)) (\<lambda>n. kv_lines (put k n out) lines)
      | _ \<Rightarrow> kv_lines out lines)"

definition kv :: "string \<Rightarrow> int dict res" where
  "kv text = kv_lines [] (splitlines text)"

definition docker_state :: "string \<Rightarrow> string" where
  "docker_state stdout = (let s = strip py_space stdout in if s = [] then ''gone'' else s)"

text \<open>\<open>int(text) if text else None\<close> on stripped text, as the readers of single numbers do.\<close>

definition int_or_none :: "string \<Rightarrow> int option res" where
  "int_or_none s = (if s = [] then Inr None else bindE (of_option ValueError (py_int_of s)) (\<lambda>n. Inr (Some n)))"

definition conntrack_count :: "string \<Rightarrow> int option res" where
  "conntrack_count stdout =
     (if strip py_space stdout = [] then Inr None
      else bindE (of_option ValueError (py_int_of stdout)) (\<lambda>n. Inr (Some n)))"

section \<open>Lemmas\<close>

lemma scrape_lines_keys:
  "set (map snd SERVER_FIELDS) \<subseteq> set (keys out) \<Longrightarrow> keys (scrape_lines out lines) = keys out"
proof (induction out lines rule: scrape_lines.induct)
  case (2 out line lines)
  obtain name val where p: "partition_at (CHR '' '') line = (name, val)" by fastforce
  show ?case
  proof (cases "map_of SERVER_FIELDS name")
    case None
    with 2 p show ?thesis by simp
  next
    case (Some field)
    then have "field \<in> set (keys out)" using 2(3) by (force dest!: map_of_SomeD)
    then have k: "keys (put field v out) = keys out" for v by (simp add: keys_put)
    show ?thesis
    proof (cases "py_float_of val")
      case None
      with Some p show ?thesis by simp
    next
      case (Some x)
      with \<open>map_of SERVER_FIELDS name = Some field\<close> 2(2) [OF p [symmetric]] 2(3) p k
      show ?thesis by (simp add: subset_insertI2)
    qed
  qed
qed simp

lemma scrape_server_keys: "keys (scrape_server body) = map snd SERVER_FIELDS"
proof -
  have "keys (map (\<lambda>f. (f, VNone :: pyval)) (map snd SERVER_FIELDS)) = map snd SERVER_FIELDS"
    by (simp add: keys_def o_def)
  then show ?thesis
    by (auto simp: scrape_server_def Let_def scrape_lines_keys split: option.splits)
qed

text \<open>Every scraped value is missing or a float.\<close>

definition scraped :: "pyval \<Rightarrow> bool" where
  "scraped v \<longleftrightarrow> v = VNone \<or> (\<exists>x. v = VNum (PFlo x))"

lemma scrape_lines_values:
  "(\<And>k v. map_of out k = Some v \<Longrightarrow> scraped v) \<Longrightarrow> map_of (scrape_lines out lines) k = Some v \<Longrightarrow> scraped v"
proof (induction out lines arbitrary: k v rule: scrape_lines.induct)
  case (2 out line lines)
  obtain name val where p: "partition_at (CHR '' '') line = (name, val)" by fastforce
  show ?case
  proof (cases "map_of SERVER_FIELDS name")
    case None
    with 2 p show ?thesis by simp
  next
    case (Some field)
    show ?thesis
    proof (cases "py_float_of val")
      case None
      with Some 2(4) p 2(3) show ?thesis by simp
    next
      case (Some x)
      have "scraped v" if "map_of (put field (VNum (PFlo x)) out) k = Some v" for k v
        using that 2(3) by (auto simp: scraped_def split: if_splits)
      with Some \<open>map_of SERVER_FIELDS name = Some field\<close> 2(2) [OF p [symmetric]] 2(4) p show ?thesis by simp
    qed
  qed
qed simp

section \<open>Key and value files\<close>

text \<open>A file of lines, each ended by a newline.\<close>

definition cgroup_file :: "string list \<Rightarrow> string" where
  "cgroup_file lines = concat (map (\<lambda>l. l @ [CHR 0x0A]) lines)"

lemma line_break_space: "line_break c \<Longrightarrow> py_space c"
  by (auto simp: line_break_def py_space_def Let_def)

lemma lines_from_line:
  "(\<And>c. c \<in> set l \<Longrightarrow> \<not> line_break c) \<Longrightarrow>
     lines_from cur (l @ CHR 0x0A # s) = (rev cur @ l) # lines_from [] s"
proof (induction l arbitrary: cur)
  case (Cons c l)
  have "\<not> line_break c" using Cons.prems by simp
  moreover have "of_char c \<noteq> (13 :: int)" using \<open>\<not> line_break c\<close> by (auto simp: line_break_def Let_def)
  ultimately show ?case using Cons by simp
qed (simp add: line_break_def)

lemma splitlines_file:
  "(\<And>l c. l \<in> set ls \<Longrightarrow> c \<in> set l \<Longrightarrow> \<not> line_break c) \<Longrightarrow> splitlines (cgroup_file ls) = ls"
proof (induction ls)
  case (Cons l ls)
  have "splitlines (cgroup_file ls) = ls" by (rule Cons.IH) (use Cons.prems in auto)
  moreover have "lines_from [] (l @ CHR 0x0A # cgroup_file ls) = ([] @ l) # lines_from [] (cgroup_file ls)"
    by (rule lines_from_line [of l "[]", simplified rev.simps]) (use Cons.prems in auto)
  ultimately show ?case by (simp add: splitlines_def cgroup_file_def)
qed (simp add: splitlines_def cgroup_file_def)

lemma py_words_pair:
  assumes "k \<noteq> []" "v \<noteq> []" "\<And>c. c \<in> set k \<union> set v \<Longrightarrow> \<not> py_space c"
  shows "py_words (k @ '' '' @ v) = [k, v]"
proof -
  have "split_by py_space (k @ CHR '' '' # v) = k # split_by py_space v"
    using assms(3) by (intro split_by_append) (auto simp: py_space_def)
  moreover have "split_by py_space v = [v]" using assms(3) by (intro split_by_clean) simp
  ultimately show ?thesis using assms(1,2) by (simp add: py_words_def)
qed

definition kv_text :: "int dict \<Rightarrow> string" where
  "kv_text d = cgroup_file (map (\<lambda>(k, n). k @ '' '' @ show_int n) d)"

definition plain_key :: "string \<Rightarrow> bool" where
  "plain_key k \<longleftrightarrow> k \<noteq> [] \<and> \<not> list_ex py_space k"

lemma plain_keyD: "plain_key k \<Longrightarrow> c \<in> set k \<Longrightarrow> \<not> py_space c"
  by (auto simp: plain_key_def list_ex_iff)

lemma put_new: "k \<notin> set (keys d) \<Longrightarrow> put k v d = d @ [(k, v)]"
  by (induction d) (auto simp: put_def keys_def)

lemma kv_lines_file:
  "distinct (keys (out @ d)) \<Longrightarrow> list_all plain_key (keys d) \<Longrightarrow>
     kv_lines out (map (\<lambda>(k, n). k @ '' '' @ show_int n) d) = Inr (out @ d)"
proof (induction d arbitrary: out)
  case (Cons kn d)
  obtain k n where kn: "kn = (k, n)" by (cases kn)
  have k: "plain_key k" using Cons.prems(2) kn by (simp add: keys_def)
  have "show_int n \<noteq> []" using py_int_show_int [of n] by (auto simp: py_int_of_def strip_def)
  then have "py_words (k @ '' '' @ show_int n) = [k, show_int n]"
    using k plain_keyD [OF k] show_int_clean [of _ n] by (intro py_words_pair) (auto simp: plain_key_def)
  moreover have "put k n out = out @ [(k, n)]"
    using Cons.prems(1) kn by (intro put_new) (auto simp: keys_def)
  ultimately show ?case
    using Cons.IH [of "out @ [(k, n)]"] Cons.prems kn by (simp add: py_int_show_int keys_def)
qed simp

text \<open>
  Round trip of the cgroup files: counters written one per line, a name without white space and
  a decimal number, are read back as the same dictionary, in the same order.
\<close>

lemma kv_roundtrip:
  assumes "distinct (keys d)" "list_all plain_key (keys d)"
  shows "kv (kv_text d) = Inr d"
proof -
  have "splitlines (kv_text d) = map (\<lambda>(k, n). k @ '' '' @ show_int n) d"
    unfolding kv_text_def
  proof (rule splitlines_file)
    fix l c
    assume "l \<in> set (map (\<lambda>(k, n). k @ '' '' @ show_int n) d)" "c \<in> set l"
    then obtain k n where "(k, n) \<in> set d" "c \<in> set (k @ '' '' @ show_int n)" by auto
    moreover have "plain_key k" using assms(2) \<open>(k, n) \<in> set d\<close> by (auto simp: list_all_iff keys_def)
    ultimately have "c = CHR '' '' \<or> \<not> py_space c" using plain_keyD show_int_clean by fastforce
    moreover have "\<not> line_break (CHR '' '')" by (simp add: line_break_def)
    ultimately show "\<not> line_break c" using line_break_space by blast
  qed
  then show ?thesis using kv_lines_file [of "[]" d] assms by (simp add: kv_def)
qed

lemma kv_roundtrip_example:
  "kv (kv_text [(''usage_usec'', 1200345), (''user_usec'', 0)]) = Inr [(''usage_usec'', 1200345), (''user_usec'', 0)]"
  by (rule kv_roundtrip) code_simp+

section \<open>What the page shows\<close>

text \<open>
  A metrics page on which every line of a server field has a number: one value per line, as the
  exposition format has it.
\<close>

definition readable_line :: "string \<Rightarrow> bool" where
  "readable_line line = (case partition_at (CHR '' '') line of (name, value) \<Rightarrow>
     map_of SERVER_FIELDS name = None \<or> py_float_of value \<noteq> None)"

text \<open>The metric is on the page and every line of it has the value \<open>v\<close>.\<close>

definition shows_metric :: "string list \<Rightarrow> string \<Rightarrow> flt \<Rightarrow> bool" where
  "shows_metric lines metric v \<longleftrightarrow>
     (\<exists>line \<in> set lines. fst (partition_at (CHR '' '') line) = metric) \<and>
     list_all (\<lambda>line. fst (partition_at (CHR '' '') line) = metric \<longrightarrow> py_float_of (snd (partition_at (CHR '' '') line)) = Some v) lines"

lemma SERVER_FIELDS_inj: "map_of SERVER_FIELDS m = Some f \<Longrightarrow> map_of SERVER_FIELDS n = Some f \<Longrightarrow> m = n"
  by (auto simp: SERVER_FIELDS_def split: if_splits)

lemma scrape_lines_metric:
  assumes "map_of SERVER_FIELDS metric = Some field" "list_all readable_line lines"
    and "list_all (\<lambda>line. fst (partition_at (CHR '' '') line) = metric \<longrightarrow> py_float_of (snd (partition_at (CHR '' '') line)) = Some v) lines"
  shows "map_of (scrape_lines out lines) field =
    (if \<exists>line \<in> set lines. fst (partition_at (CHR '' '') line) = metric then Some (VNum (PFlo v)) else map_of out field)"
  using assms(2,3)
proof (induction lines arbitrary: out)
  case (Cons line lines)
  obtain name val where p: "partition_at (CHR '' '') line = (name, val)" by (cases "partition_at (CHR '' '') line")
  show ?case
  proof (cases "map_of SERVER_FIELDS name")
    case None
    then have "name \<noteq> metric" using assms(1) by auto
    then show ?thesis using Cons None by (simp add: p)
  next
    case (Some f)
    then obtain x where x: "py_float_of val = Some x" using Cons.prems(1) by (auto simp: readable_line_def p)
    show ?thesis
    proof (cases "name = metric")
      case True
      then have "f = field" "x = v" using assms(1) Some Cons.prems(2) x by (simp_all add: p)
      then show ?thesis using Cons True Some x by (simp add: p)
    next
      case False
      then have "f \<noteq> field" using SERVER_FIELDS_inj [OF assms(1), of name] Some by auto
      then show ?thesis using Cons False Some x by (simp add: p)
    qed
  qed
qed simp

lemma scrape_shows:
  "map_of SERVER_FIELDS metric = Some field \<Longrightarrow> list_all readable_line (splitlines body) \<Longrightarrow>
     shows_metric (splitlines body) metric v \<Longrightarrow> map_of (scrape_server (Some body)) field = Some (VNum (PFlo v))"
  using scrape_lines_metric [of metric field "splitlines body" v]
  by (auto simp: scrape_server_def Let_def shows_metric_def)

end
