(* ===== verification/Sampler.thy ===== *)
theory Sampler
  imports Metrics
begin

text \<open>
  One sample of the server container, \<open>class Sampler\<close> of \<open>bench/local/record.py\<close>: the cgroup files,
  the server's metrics page, the Prometheus queries, the connection-tracking count and the
  container's state, gathered in one dictionary. The observations of one call are the record
  \<open>observation\<close>; the state between calls is the CPU reading of the call before.
\<close>

section \<open>State and operations\<close>

record observation =
  fs :: "string \<Rightarrow> string option"
  wall :: flt
  mono :: flt
  metrics_page :: "string option"
  prom_answer :: "string \<Rightarrow> pyval option"
  conntrack_out :: string
  docker_out :: string

record sampler =
  cg :: string
  last_cpu :: "(int \<times> flt) option"

text \<open>\<open>Sampler.__init__\<close>, given the standard output of \<open>docker inspect -f {{.State.Pid}}\<close>.\<close>

definition Sampler_init :: "(string \<Rightarrow> string option) \<Rightarrow> string \<Rightarrow> sampler res" where
  "Sampler_init files pid_out =
     (let pid = strip py_space pid_out;
          text = strip py_space (read_file files (''/proc/'' @ pid @ ''/cgroup''))
      in bindE (of_option IndexError (after ''::'' text)) (\<lambda>rel.
           Inr \<lparr>cg = ''/sys/fs/cgroup'' @ rel, last_cpu = None\<rparr>))"

text \<open>CPU use since the call before, in percent of one core.\<close>

definition cpu_percent :: "int \<Rightarrow> flt \<Rightarrow> int \<times> flt \<Rightarrow> flt res" where
  "cpu_percent usage now prev =
     bindE (num_div (PInt (100 * (usage - fst prev))) (PFlo ((now - snd prev) * mk 1000000)))
       (\<lambda>x. Inr (round1 x))"

definition cpu_field :: "int option \<Rightarrow> flt \<Rightarrow> (int \<times> flt) option \<Rightarrow> pyval res" where
  "cpu_field usage now prev = (case (usage, prev) of
     (Some u, Some p) \<Rightarrow> bindE (cpu_percent u now p) (\<lambda>x. Inr (VNum (PFlo x)))
   | _ \<Rightarrow> Inr VNone)"

text \<open>The fields of a sample read before the server and Prometheus are asked.\<close>

definition cgroup_fields ::
  "flt \<Rightarrow> int option \<Rightarrow> int option \<Rightarrow> int dict \<Rightarrow> int dict \<Rightarrow> int option \<Rightarrow> pyval \<Rightarrow> pyval dict" where
  "cgroup_fields time cur peak stat events pids cpu =
     [(''t'', VNum (PFlo (round1 time))),
      (''cg_memory'', vint cur),
      (''cg_peak'', vint peak),
      (''cg_anon'', vint (map_of stat ''anon'')),
      (''cg_sock'', vint (map_of stat ''sock'')),
      (''cg_kernel'', vint (map_of stat ''kernel'')),
      (''cg_slab'', vint (map_of stat ''slab'')),
      (''cg_percpu'', vint (map_of stat ''percpu'')),
      (''cg_file'', vint (map_of stat ''file'')),
      (''oom_kills'', vint (map_of events ''oom_kill'')),
      (''pids'', vint pids),
      (''cpu_pct'', cpu)]"

definition sample :: "observation \<Rightarrow> sampler \<Rightarrow> (pyval dict \<times> sampler) res" where
  "sample ob sp =
    (let cgfile = (\<lambda>name. read_file (fs ob) (cg sp @ ''/'' @ name));
         num_file = (\<lambda>name. int_or_none (strip py_space (cgfile name)))
     in
     bindE (kv (cgfile ''memory.stat'')) (\<lambda>stat.
     bindE (num_file ''memory.current'') (\<lambda>cur.
     bindE (num_file ''memory.peak'') (\<lambda>peak.
     bindE (kv (cgfile ''memory.events'')) (\<lambda>events.
     bindE (num_file ''pids.current'') (\<lambda>pids.
     bindE (kv (cgfile ''cpu.stat'')) (\<lambda>cpu_stat.
     let usage = map_of cpu_stat ''usage_usec''; now = mono ob in
     bindE (cpu_field usage now (last_cpu sp)) (\<lambda>cpu.
     bindE (mapE (\<lambda>(k, q). bindE (prom (prom_answer ob q)) (\<lambda>v. Inr (k, vflt v))) QUERIES) (\<lambda>qs.
     bindE (conntrack_count (conntrack_out ob)) (\<lambda>ct.
       let s0 = cgroup_fields (wall ob) cur peak stat events pids cpu;
           s1 = update_all s0 (scrape_server (metrics_page ob));
           s2 = update_all s1 qs;
           s3 = put ''conntrack'' (vint ct) s2;
           s4 = put ''state'' (VStr (docker_state (docker_out ob))) s3
       in Inr (s4, sp\<lparr>last_cpu := (case usage of None \<Rightarrow> last_cpu sp | Some u \<Rightarrow> Some (u, now))\<rparr>)))))))))))"

section \<open>Lemmas\<close>

lemma keys_QUERIES_answers:
  "mapE (\<lambda>(k, q). bindE (g q) (\<lambda>v. Inr (k, h v))) qs = Inr rs \<Longrightarrow> keys rs = map fst qs"
  by (induction qs arbitrary: rs) (auto simp: res_simps)

lemma sampleE:
  assumes "sample ob sp = Inr (s, sp')"
  obtains cur peak stat events pids cpu_stat cpu qs ct where
    "kv (read_file (fs ob) (cg sp @ ''/memory.stat'')) = Inr stat"
    "int_or_none (strip py_space (read_file (fs ob) (cg sp @ ''/memory.current''))) = Inr cur"
    "kv (read_file (fs ob) (cg sp @ ''/cpu.stat'')) = Inr cpu_stat"
    "cpu_field (map_of cpu_stat ''usage_usec'') (mono ob) (last_cpu sp) = Inr cpu"
    "mapE (\<lambda>(k, q). bindE (prom (prom_answer ob q)) (\<lambda>v. Inr (k, vflt v))) QUERIES = Inr qs"
    "s = put ''state'' (VStr (docker_state (docker_out ob))) (put ''conntrack'' (vint ct)
       (update_all (update_all (cgroup_fields (wall ob) cur peak stat events pids cpu)
         (scrape_server (metrics_page ob))) qs))"
    "sp' = sp\<lparr>last_cpu := (case map_of cpu_stat ''usage_usec'' of None \<Rightarrow> last_cpu sp
        | Some u \<Rightarrow> Some (u, mono ob))\<rparr>"
  using assms unfolding sample_def Let_def bindE_Inr_iff by force

lemma keys_cgroup_fields: "keys (cgroup_fields time cur peak stat events pids cpu) =
  [''t'', ''cg_memory'', ''cg_peak'', ''cg_anon'', ''cg_sock'', ''cg_kernel'', ''cg_slab'', ''cg_percpu'',
   ''cg_file'', ''oom_kills'', ''pids'', ''cpu_pct'']"
  by (simp add: cgroup_fields_def)

lemma sample_keys:
  assumes "sample ob sp = Inr (s, sp')"
  shows "set (keys s) = set FIELDS" and "distinct (keys s)"
proof -
  obtain cur peak stat events pids cpu qs ct where
    q: "mapE (\<lambda>(k, q). bindE (prom (prom_answer ob q)) (\<lambda>v. Inr (k, vflt v))) QUERIES = Inr qs"
    and s: "s = put ''state'' (VStr (docker_state (docker_out ob))) (put ''conntrack'' (vint ct)
       (update_all (update_all (cgroup_fields (wall ob) cur peak stat events pids cpu)
         (scrape_server (metrics_page ob))) qs))"
    by (rule sampleE [OF assms])
  have "keys qs = map fst QUERIES" by (rule keys_QUERIES_answers [OF q])
  then show "set (keys s) = set FIELDS"
    unfolding s by (auto simp: scrape_server_keys keys_cgroup_fields SERVER_FIELDS_def QUERIES_def FIELDS_def)
  show "distinct (keys s)"
    unfolding s by (intro distinct_put distinct_update_all) (simp add: keys_cgroup_fields)
qed

text \<open>The value a sample can have in each column.\<close>

definition typed_value :: "string \<Rightarrow> pyval \<Rightarrow> bool" where
  "typed_value k v \<longleftrightarrow>
     (if k = ''state'' then \<exists>s. v = VStr s
      else if k = ''t'' then \<exists>x. v = VNum (PFlo x)
      else v = VNone \<or> (\<exists>n. v = VNum n))"

lemma scrape_server_values: "map_of (scrape_server body) k = Some v \<Longrightarrow> scraped v"
proof -
  assume v: "map_of (scrape_server body) k = Some v"
  have "scraped v" if "map_of (map (\<lambda>f. (f, VNone)) (map snd SERVER_FIELDS)) k = Some v" for k v
    using map_of_SomeD [OF that] by (auto simp: scraped_def)
  with v show ?thesis
    by (auto simp: scrape_server_def Let_def intro: scrape_lines_values split: option.splits)
qed

lemma cpu_field_typed: "cpu_field u now prev = Inr c \<Longrightarrow> c = VNone \<or> (\<exists>x. c = VNum (PFlo x))"
  by (auto simp: cpu_field_def bindE_Inr_iff split: option.splits)

lemma vint_typed: "vint i = VNone \<or> (\<exists>n. vint i = VNum n)"
  by (cases i) (simp_all add: vint_def)

lemma vflt_typed: "vflt i = VNone \<or> (\<exists>n. vflt i = VNum n)"
  by (cases i) (simp_all add: vflt_def)

lemma cgroup_fields_typed:
  "cpu = VNone \<or> (\<exists>x. cpu = VNum (PFlo x)) \<Longrightarrow>
   map_of (cgroup_fields time cur peak stat events pids cpu) k = Some v \<Longrightarrow> typed_value k v"
  using vint_typed by (auto simp: cgroup_fields_def typed_value_def split: if_splits)

text \<open>Successive samples of one sampler.\<close>

fun samples :: "observation list \<Rightarrow> sampler \<Rightarrow> (pyval dict list \<times> sampler) res" where
  "samples [] sp = Inr ([], sp)"
| "samples (ob # obs) sp =
     bindE (sample ob sp) (\<lambda>(s, sp1). bindE (samples obs sp1) (\<lambda>(rows, sp2). Inr (s # rows, sp2)))"

text \<open>The CPU counter of one observation, and the last one read.\<close>

definition usage_of :: "string \<Rightarrow> observation \<Rightarrow> int option" where
  "usage_of cgroup ob = (case kv (read_file (fs ob) (cgroup @ ''/cpu.stat'')) of
     Inl e \<Rightarrow> None | Inr d \<Rightarrow> map_of d ''usage_usec'')"

definition last_usage :: "string \<Rightarrow> (int \<times> flt) option \<Rightarrow> observation list \<Rightarrow> (int \<times> flt) option" where
  "last_usage cgroup prev obs =
     fold (\<lambda>ob acc. case usage_of cgroup ob of None \<Rightarrow> acc | Some u \<Rightarrow> Some (u, mono ob)) obs prev"

lemma query_answer:
  "mapE (\<lambda>(k, q). bindE (g q) (\<lambda>v. Inr (k, h v))) qs = Inr rs \<Longrightarrow> distinct (map fst qs) \<Longrightarrow>
     (k, q) \<in> set qs \<Longrightarrow> \<exists>a. g q = Inr a \<and> map_of rs k = Some (h a)"
  by (induction qs arbitrary: rs) (force simp: bindE_Inr_iff)+

lemma sample_lookup:
  assumes "sample ob sp = Inr (s, sp')"
  obtains cur peak stat events pids cpu_stat cpu qs ct where
    "kv (read_file (fs ob) (cg sp @ ''/cpu.stat'')) = Inr cpu_stat"
    "int_or_none (strip py_space (read_file (fs ob) (cg sp @ ''/memory.current''))) = Inr cur"
    "cpu_field (map_of cpu_stat ''usage_usec'') (mono ob) (last_cpu sp) = Inr cpu"
    "mapE (\<lambda>(k, q). bindE (prom (prom_answer ob q)) (\<lambda>v. Inr (k, vflt v))) QUERIES = Inr qs"
    "keys qs = map fst QUERIES"
    "\<And>k. map_of s k =
       (if k = ''state'' then Some (VStr (docker_state (docker_out ob)))
        else if k = ''conntrack'' then Some (vint ct)
        else if k \<in> fst ` set QUERIES then map_of qs k
        else if k \<in> snd ` set SERVER_FIELDS then map_of (scrape_server (metrics_page ob)) k
        else map_of (cgroup_fields (wall ob) cur peak stat events pids cpu) k)"
    "sp' = sp\<lparr>last_cpu := (case map_of cpu_stat ''usage_usec'' of None \<Rightarrow> last_cpu sp
        | Some u \<Rightarrow> Some (u, mono ob))\<rparr>"
proof (rule sampleE [OF assms])
  fix cur peak stat events pids cpu_stat cpu qs ct
  assume q: "mapE (\<lambda>(k, q). bindE (prom (prom_answer ob q)) (\<lambda>v. Inr (k, vflt v))) QUERIES = Inr qs"
    and s: "s = put ''state'' (VStr (docker_state (docker_out ob))) (put ''conntrack'' (vint ct)
       (update_all (update_all (cgroup_fields (wall ob) cur peak stat events pids cpu)
         (scrape_server (metrics_page ob))) qs))"
    and rest: "kv (read_file (fs ob) (cg sp @ ''/cpu.stat'')) = Inr cpu_stat"
      "int_or_none (strip py_space (read_file (fs ob) (cg sp @ ''/memory.current''))) = Inr cur"
      "cpu_field (map_of cpu_stat ''usage_usec'') (mono ob) (last_cpu sp) = Inr cpu"
      "sp' = sp\<lparr>last_cpu := (case map_of cpu_stat ''usage_usec'' of None \<Rightarrow> last_cpu sp
        | Some u \<Rightarrow> Some (u, mono ob))\<rparr>"
  have k: "keys qs = map fst QUERIES" by (rule keys_QUERIES_answers [OF q])
  have d: "distinct (keys qs)" "distinct (keys (scrape_server (metrics_page ob)))"
    unfolding k scrape_server_keys by (simp_all add: QUERIES_def SERVER_FIELDS_def)
  show thesis
  proof (rule that [OF rest(1-3) q k _ rest(4)])
    fix k
    show "map_of s k =
       (if k = ''state'' then Some (VStr (docker_state (docker_out ob)))
        else if k = ''conntrack'' then Some (vint ct)
        else if k \<in> fst ` set QUERIES then map_of qs k
        else if k \<in> snd ` set SERVER_FIELDS then map_of (scrape_server (metrics_page ob)) k
        else map_of (cgroup_fields (wall ob) cur peak stat events pids cpu) k)"
      unfolding s map_of_put map_of_update_all [OF d(1)] map_of_update_all [OF d(2)] \<open>keys qs = _\<close> scrape_server_keys
      by (simp only: fun_upd_apply list.set_map)
  qed
qed

lemma sample_server_column:
  "sample ob sp = Inr (s, sp') \<Longrightarrow> k \<in> snd ` set SERVER_FIELDS \<Longrightarrow> map_of s k = map_of (scrape_server (metrics_page ob)) k"
proof (erule sample_lookup)
  fix cur peak stat events pids cpu qs ct
  assume k: "k \<in> snd ` set SERVER_FIELDS"
    and s: "\<And>k. map_of s k =
       (if k = ''state'' then Some (VStr (docker_state (docker_out ob)))
        else if k = ''conntrack'' then Some (vint ct)
        else if k \<in> fst ` set QUERIES then map_of qs k
        else if k \<in> snd ` set SERVER_FIELDS then map_of (scrape_server (metrics_page ob)) k
        else map_of (cgroup_fields (wall ob) cur peak stat events pids cpu) k)"
  have "k \<notin> {''state'', ''conntrack''} \<union> fst ` set QUERIES" using k by (auto simp: SERVER_FIELDS_def QUERIES_def)
  then show "map_of s k = map_of (scrape_server (metrics_page ob)) k" using s [of k] k by simp
qed

lemma sample_query_column:
  assumes "sample ob sp = Inr (s, sp')" "(k, q) \<in> set QUERIES"
  shows "\<exists>a. prom (prom_answer ob q) = Inr a \<and> map_of s k = Some (vflt a)"
proof (rule sample_lookup [OF assms(1)])
  fix cur peak stat events pids cpu qs ct
  assume answers: "mapE (\<lambda>(k, q). bindE (prom (prom_answer ob q)) (\<lambda>v. Inr (k, vflt v))) QUERIES = Inr qs"
    and s: "\<And>k. map_of s k =
       (if k = ''state'' then Some (VStr (docker_state (docker_out ob)))
        else if k = ''conntrack'' then Some (vint ct)
        else if k \<in> fst ` set QUERIES then map_of qs k
        else if k \<in> snd ` set SERVER_FIELDS then map_of (scrape_server (metrics_page ob)) k
        else map_of (cgroup_fields (wall ob) cur peak stat events pids cpu) k)"
  have "k \<in> fst ` set QUERIES" using assms(2) by force
  moreover from this have "k \<notin> {''state'', ''conntrack''}" by (auto simp: QUERIES_def)
  ultimately show ?thesis using s [of k] query_answer [OF answers _ assms(2)] by (simp add: QUERIES_def)
qed

lemma sample_state_column: "sample ob sp = Inr (s, sp') \<Longrightarrow> map_of s ''state'' = Some (VStr (docker_state (docker_out ob)))"
  by (erule sample_lookup) simp

text \<open>The other columns are those of the cgroup files.\<close>

lemma sample_typed:
  assumes "sample ob sp = Inr (s, sp')" "map_of s k = Some v"
  shows "typed_value k v"
proof (rule sample_lookup [OF assms(1)])
  fix cur peak stat events pids cpu_stat cpu qs ct
  assume cpu: "cpu_field (map_of cpu_stat ''usage_usec'') (mono ob) (last_cpu sp) = Inr cpu"
    and s: "\<And>k. map_of s k =
       (if k = ''state'' then Some (VStr (docker_state (docker_out ob)))
        else if k = ''conntrack'' then Some (vint ct)
        else if k \<in> fst ` set QUERIES then map_of qs k
        else if k \<in> snd ` set SERVER_FIELDS then map_of (scrape_server (metrics_page ob)) k
        else map_of (cgroup_fields (wall ob) cur peak stat events pids cpu) k)"
  consider "k = ''state''" | "k = ''conntrack''" | q where "(k, q) \<in> set QUERIES"
    | "k \<in> snd ` set SERVER_FIELDS" | "k \<notin> {''state'', ''conntrack''} \<union> fst ` set QUERIES \<union> snd ` set SERVER_FIELDS"
    by fastforce
  then show ?thesis
  proof cases
    case 3
    then have "k \<notin> {''state'', ''t''}" by (auto simp: QUERIES_def)
    moreover obtain a where "v = vflt a" using assms(2) sample_query_column [OF assms(1) 3] by auto
    ultimately show ?thesis using vflt_typed [of a] by (simp add: typed_value_def)
  next
    case 4
    then have "scraped v" using assms(2) sample_server_column [OF assms(1) 4] scrape_server_values by simp
    moreover have "k \<notin> {''state'', ''t''}" using 4 by (auto simp: SERVER_FIELDS_def)
    ultimately show ?thesis by (auto simp: typed_value_def scraped_def)
  next
    case 5
    then have "map_of (cgroup_fields (wall ob) cur peak stat events pids cpu) k = Some v" using assms(2) s [of k] by simp
    then show ?thesis by (rule cgroup_fields_typed [OF cpu_field_typed [OF cpu]])
  qed (use assms(2) s [of k] vint_typed in \<open>auto simp: typed_value_def\<close>)
qed

lemma usage_of_stat: "kv (read_file (fs ob) (c @ ''/cpu.stat'')) = Inr d \<Longrightarrow> usage_of c ob = map_of d ''usage_usec''"
  by (simp add: usage_of_def)

lemma samples_state:
  "samples obs sp = Inr (rows, sp') \<Longrightarrow>
     cg sp' = cg sp \<and> last_cpu sp' = last_usage (cg sp) (last_cpu sp) obs \<and> length rows = length obs"
proof (induction obs arbitrary: rows sp)
  case (Cons ob obs)
  then obtain s sp1 rows1 where 1: "sample ob sp = Inr (s, sp1)" "samples obs sp1 = Inr (rows1, sp')" "rows = s # rows1"
    by (auto simp: bindE_Inr_iff)
  obtain d where "kv (read_file (fs ob) (cg sp @ ''/cpu.stat'')) = Inr d"
    "sp1 = sp\<lparr>last_cpu := (case map_of d ''usage_usec'' of None \<Rightarrow> last_cpu sp | Some u \<Rightarrow> Some (u, mono ob))\<rparr>"
    using sample_lookup [OF 1(1)] by blast
  then show ?case using Cons.IH [OF 1(2)] usage_of_stat 1(3)
    by (auto simp: last_usage_def split: option.splits)
qed (simp add: last_usage_def)

section \<open>Properties\<close>

text \<open>
  C21: a sample is complete and well typed: it has exactly the columns of \<open>FIELDS\<close>, each once, so the
  CSV writer never refuses it and no later lookup of a column fails; every column has a value of its
  type; and the three sources do not overwrite one another: the server's columns are what its
  metrics page says, the Prometheus columns the answers to their queries, the state Docker's.
\<close>

theorem sample_complete:
  assumes "sample ob sp = Inr (s, sp')"
  shows "set (keys s) = set FIELDS \<and> distinct (keys s) \<and>
    (\<forall>k v. map_of s k = Some v \<longrightarrow> typed_value k v) \<and>
    (\<forall>k \<in> snd ` set SERVER_FIELDS. map_of s k = map_of (scrape_server (metrics_page ob)) k) \<and>
    (\<forall>(k, q) \<in> set QUERIES. \<exists>a. prom (prom_answer ob q) = Inr a \<and> map_of s k = Some (vflt a)) \<and>
    map_of s ''state'' = Some (VStr (docker_state (docker_out ob)))"
  using sample_keys [OF assms] sample_typed [OF assms] sample_server_column [OF assms] sample_query_column [OF assms]
    sample_state_column [OF assms]
  by (intro conjI) auto

text \<open>An observation of a running container, and the sampler before it.\<close>

definition example_observation :: "int \<Rightarrow> int \<Rightarrow> observation" where
  "example_observation time usage = \<lparr>
     fs = map_of [
       (''/sys/fs/cgroup/s/cpu.stat'', cgroup_file [''usage_usec '' @ show_int usage, ''nr_periods 0'']),
       (''/sys/fs/cgroup/s/memory.current'', cgroup_file [''52428800'']),
       (''/sys/fs/cgroup/s/memory.stat'', cgroup_file [''anon 41943040'', ''sock 4096''])],
     wall = mk (of_int time), mono = mk (of_int time),
     metrics_page = Some (cgroup_file [''# TYPE go_goroutines gauge'', ''go_goroutines 12'', ''millionws_connections_active 1e+03'']),
     prom_answer = (\<lambda>q. None), conntrack_out = [], docker_out = cgroup_file [''running false 0'']\<rparr>"

definition example_sampler :: sampler where
  "example_sampler = \<lparr>cg = ''/sys/fs/cgroup/s'', last_cpu = None\<rparr>"

theorem sample_complete_witness:
  "\<exists>s sp'. sample (example_observation 100 5000000) example_sampler = Inr (s, sp') \<and>
    set (keys s) = set FIELDS \<and> map_of s ''state'' = Some (VStr ''running false 0'') \<and>
    map_of s ''server_conns'' = Some (VNum (PFlo (Fin 1000)))"
proof -
  have "bindE (sample (example_observation 100 5000000) example_sampler) (\<lambda>(s, sp'). Inr True) = Inr True"
    by code_simp
  then obtain s sp' where s: "sample (example_observation 100 5000000) example_sampler = Inr (s, sp')"
    by (auto simp: bindE_Inr_iff)
  have "map_of (scrape_server (metrics_page (example_observation 100 5000000))) ''server_conns'' = Some (VNum (PFlo (Fin 1000)))"
    "docker_state (docker_out (example_observation 100 5000000)) = ''running false 0''"
    by code_simp+
  moreover have "''server_conns'' \<in> snd ` set SERVER_FIELDS" by (simp add: SERVER_FIELDS_def)
  ultimately show ?thesis using sample_complete [OF s] s by auto
qed

text \<open>
  C26: the CPU column of a sample spans the time since the last sample in which the counter could be
  read, however many failed in between; without such a sample it is missing.
\<close>

theorem cpu_spans_last_reading:
  assumes "samples obs sp = Inr (rows, sp1)" "sample ob sp1 = Inr (s, sp2)"
  shows "\<exists>c. cpu_field (usage_of (cg sp) ob) (mono ob) (last_usage (cg sp) (last_cpu sp) obs) = Inr c \<and>
    map_of s ''cpu_pct'' = Some c"
proof -
  note st = samples_state [OF assms(1)]
  obtain d cpu where "kv (read_file (fs ob) (cg sp1 @ ''/cpu.stat'')) = Inr d"
    "cpu_field (map_of d ''usage_usec'') (mono ob) (last_cpu sp1) = Inr cpu" "map_of s ''cpu_pct'' = Some cpu"
    using assms(2)
    by (rule sample_lookup) (simp add: QUERIES_def SERVER_FIELDS_def cgroup_fields_def)
  then show ?thesis using st usage_of_stat by auto
qed

theorem cpu_spans_last_reading_witness:
  "\<exists>s sp2. bindE (samples [example_observation 100 5000000, (example_observation 102 0)\<lparr>fs := Map.empty\<rparr>] example_sampler)
      (\<lambda>(rows, sp1). sample (example_observation 104 6000000) sp1) = Inr (s, sp2) \<and>
    map_of s ''cpu_pct'' = Some (VNum (PFlo (Fin 25)))"
proof -
  let ?obs = "[example_observation 100 5000000, (example_observation 102 0)\<lparr>fs := Map.empty\<rparr>]"
  have "bindE (samples ?obs example_sampler)
      (\<lambda>(rows, sp1). bindE (sample (example_observation 104 6000000) sp1) (\<lambda>x. Inr True)) = Inr True"
    by code_simp
  then obtain rows sp1 s sp2 where r: "samples ?obs example_sampler = Inr (rows, sp1)"
    "sample (example_observation 104 6000000) sp1 = Inr (s, sp2)" by (auto simp: bindE_Inr_iff)
  have "cpu_field (usage_of (cg example_sampler) (example_observation 104 6000000))
      (mono (example_observation 104 6000000)) (last_usage (cg example_sampler) (last_cpu example_sampler) ?obs)
    = Inr (VNum (PFlo (Fin 25)))" by code_simp
  then show ?thesis using cpu_spans_last_reading [OF r] r by simp
qed

end
