(* ===== verification/Summary.thy ===== *)
theory Summary
  imports Sampler
begin

text \<open>
  The summary of a run, \<open>write_summary\<close> of \<open>bench/local/record.py\<close>: which sample counts as the
  peak, the memory per connection, and the two files it writes, \<open>summary.json\<close> (a dictionary) and
  \<open>summary.md\<close> (its lines). The rows are the samples of the run in order; each is a dictionary with
  the keys \<open>FIELDS\<close>.
\<close>

section \<open>Formatting and arithmetic helpers\<close>

definition fmt_bytes :: "pyval \<Rightarrow> string res" where
  "fmt_bytes n =
     (if is_none n then Inr ''n/a''
      else bindE (num_of n) (\<lambda>x. bindE (num_div x (PInt 1048576)) (\<lambda>q.
             Inr (fmt_fixed True 1 q @ '' MiB''))))"

definition per_conn :: "pyval \<Rightarrow> pyval \<Rightarrow> pynum \<Rightarrow> pyval res" where
  "per_conn value idle conns =
     (if is_none value \<or> is_none idle \<or> \<not> nonzero conns then Inr VNone
      else bindE (num_of value) (\<lambda>v. bindE (num_of idle) (\<lambda>i.
           bindE (num_sub v i) (\<lambda>d. bindE (num_div d conns) (\<lambda>q.
           bindE (py_round q) (\<lambda>n. Inr (VNum (PInt n))))))))"

text \<open>The two local lambdas \<open>kb\<close> and \<open>num\<close>.\<close>

definition kb :: "pyval \<Rightarrow> string res" where
  "kb v = (if is_none v then Inr ''n/a''
     else bindE (num_of v) (\<lambda>x. bindE (num_div x (PInt 1024)) (\<lambda>q. Inr (fmt_fixed False 1 q @ '' KiB''))))"

definition num_text :: "pyval \<Rightarrow> string res" where
  "num_text v = (if is_none v then Inr ''n/a'' else fmt_val True 0 v)"

section \<open>The peak sample\<close>

definition row_num :: "pyval dict \<Rightarrow> string \<Rightarrow> pynum res" where
  "row_num r k = bindE (sub r k) num_of"

definition is_live :: "pyval dict \<Rightarrow> bool res" where
  "is_live r = bindE (sub r ''server_conns'') (\<lambda>c.
     if truthy c then bindE (sub r ''cg_memory'') (\<lambda>m. Inr (\<not> is_none m)) else Inr False)"

definition live_rows :: "pyval dict list \<Rightarrow> pyval dict list res" where
  "live_rows rows = filterE is_live rows"

definition top_conns :: "pyval dict list \<Rightarrow> pynum res" where
  "top_conns live = bindE (mapE (\<lambda>r. row_num r ''server_conns'') live) (\<lambda>cs.
     Inr (case cs of [] \<Rightarrow> PInt 0 | c # cs \<Rightarrow> num_max c cs))"

text \<open>Rows whose count is at least a share of \<open>n\<close>.\<close>

definition rows_above :: "rat \<Rightarrow> pynum \<Rightarrow> pyval dict list \<Rightarrow> pyval dict list res" where
  "rows_above share n live = filterE (\<lambda>r. bindE (row_num r ''server_conns'') (\<lambda>c.
     bindE (num_mul (PFlo (mk share)) n) (\<lambda>limit. Inr (num_le limit c)))) live"

fun last_of :: "'a list \<Rightarrow> 'a res" where
  "last_of [] = Inl IndexError"
| "last_of (x # xs) = Inr (last (x # xs))"

fun first_of :: "'a list \<Rightarrow> 'a res" where
  "first_of [] = Inl IndexError"
| "first_of (x # xs) = Inr x"

definition peak_row :: "pyval dict list \<Rightarrow> pyval dict list \<Rightarrow> pyval dict res" where
  "peak_row rows live =
     bindE (top_conns live) (\<lambda>top.
       if live \<noteq> [] then bindE (rows_above (995 / 1000) top live) last_of else last_of rows)"

section \<open>Averages, errors, the dictionary\<close>

definition cpu_values :: "pyval dict list \<Rightarrow> flt list res" where
  "cpu_values window =
     bindE (mapE (\<lambda>r. sub r ''cpu_pct'') window) (\<lambda>vs.
       mapE (\<lambda>v. bindE (num_of v) to_float) (filter (\<lambda>v. \<not> is_none v) vs))"

definition cpu_average :: "flt list \<Rightarrow> pyval" where
  "cpu_average cpu =
     (if cpu = [] then VNone
      else VNum (PFlo (round1 (fdiv (flt_sum cpu) (Fin (of_nat (length cpu)))))))"

definition error_counts :: "(labels \<times> flt) list \<Rightarrow> int dict res" where
  "error_counts errors =
     bindE (mapE (\<lambda>(k, v). bindE (py_trunc v) (\<lambda>n. Inr (get_or ''?'' k ''reason'', n)))
              (filter (\<lambda>(k, v). nonzero (PFlo v)) errors))
       (\<lambda>es. Inr (fold (\<lambda>(k, n). put k n) es []))"

definition peak_bytes :: "pyval dict list \<Rightarrow> pyval res" where
  "peak_bytes rows =
     bindE (mapE (\<lambda>r. bindE (sub r ''cg_peak'') (\<lambda>v. num_of (or_zero v))) rows) (\<lambda>ns.
       case ns of [] \<Rightarrow> Inl ValueError | n # ns \<Rightarrow> Inr (VNum (num_max n ns)))"

definition IDLE_KEYS :: "string list" where
  "IDLE_KEYS = [''cg_memory'', ''cg_anon'', ''cg_sock'', ''cg_kernel'', ''process_rss'', ''goroutines'', ''open_fds'']"

text \<open>
  One entry per source of memory: its key in the summary, the field it reads, and whether the idle
  sample is read with \<open>get\<close> (a missing field counts as \<open>None\<close>) or by subscript.
\<close>

definition BYTES :: "(string \<times> string \<times> bool) list" where
  "BYTES = [
    (''cgroup_total'', ''cg_memory'', False),
    (''cgroup_anon'', ''cg_anon'', False),
    (''kernel_sockets'', ''cg_sock'', False),
    (''kernel_other'', ''cg_kernel'', True),
    (''kernel_slab'', ''cg_slab'', True),
    (''process_rss'', ''process_rss'', False),
    (''go_heap'', ''go_heap_inuse'', True)]"

definition bytes_per_connection :: "pyval dict \<Rightarrow> pyval dict \<Rightarrow> pynum \<Rightarrow> pyval dict res" where
  "bytes_per_connection peak idle conns =
     mapE (\<lambda>(key, field, optional).
       bindE (sub peak field) (\<lambda>v.
       bindE (if optional then Inr (get_or VNone idle field) else sub idle field) (\<lambda>i.
       bindE (per_conn v i conns) (\<lambda>b. Inr (key, b))))) BYTES"

definition summary_dict ::
  "string \<Rightarrow> pyval dict \<Rightarrow> pyval dict list \<Rightarrow> string \<Rightarrow> (labels \<times> flt) list \<Rightarrow> pyval dict res" where
  "summary_dict variant idle rows reason errors =
     bindE (live_rows rows) (\<lambda>live.
     bindE (peak_row rows live) (\<lambda>peak.
     bindE (sub peak ''server_conns'') (\<lambda>sc.
     bindE (num_of (or_zero sc)) (\<lambda>conns.
     bindE (last_of rows) (\<lambda>lst.
     bindE (error_counts errors) (\<lambda>err.
     bindE (rows_above (98 / 100) conns live) (\<lambda>window.
     bindE (cpu_values window) (\<lambda>cpu.
     bindE (row_num lst ''t'') (\<lambda>t1.
     bindE (bindE (first_of rows) (\<lambda>r. row_num r ''t'')) (\<lambda>t0.
     bindE (bindE (num_sub t1 t0) to_float) (\<lambda>dt.
     bindE (py_round dt) (\<lambda>duration.
     bindE (num_trunc conns) (\<lambda>peak_conns.
     bindE (sub peak ''loadgen_target'') (\<lambda>target.
     bindE (mapE (\<lambda>k. bindE (sub peak k) (\<lambda>v. Inr (k, v)))
              (filter (\<lambda>k. k \<noteq> ''t'' \<and> k \<noteq> ''state'') FIELDS)) (\<lambda>at_peak.
     bindE (bytes_per_connection peak idle conns) (\<lambda>bpc.
     bindE (sub lst ''state'') (\<lambda>state.
     bindE (str_of state) (\<lambda>final.
     bindE (peak_bytes rows) (\<lambda>mem_peak.
       Inr [(''variant'', VStr variant),
            (''stop_reason'', VStr reason),
            (''duration_s'', VNum (PInt duration)),
            (''peak_connections'', VNum (PInt peak_conns)),
            (''loadgen_target'', target),
            (''at_peak'', VDict at_peak),
            (''idle'', VDict (map (\<lambda>k. (k, get_or VNone idle k)) IDLE_KEYS)),
            (''bytes_per_connection'', VDict bpc),
            (''cpu_pct_near_peak_avg'', cpu_average cpu),
            (''final_state'', VStr final),
            (''oom_killed'', VBool (contains '' true '' ('' '' @ final @ '' ''))),
            (''cgroup_memory_peak'', mem_peak),
            (''dial_errors_by_reason'', VDict (map (\<lambda>(k, n). (k, VNum (PInt n))) err))])))))))))))))))))))"

section \<open>The Markdown file\<close>

definition cat :: "string res list \<Rightarrow> string res" where
  "cat parts = bindE (mapE id parts) (\<lambda>ws. Inr (concat ws))"

definition average_text :: "pyval \<Rightarrow> string res" where
  "average_text v = (if truthy v then str_scalar v else Inr ''n/a'')"

definition error_text :: "int dict \<Rightarrow> string" where
  "error_text err =
     (let t = join '', '' (map (\<lambda>(k, n). k @ '' '' @ fmt_int n) (sort_key fst err))
      in if t = [] then ''none'' else t)"

definition two_cells :: "string \<Rightarrow> string res \<Rightarrow> string res \<Rightarrow> string res" where
  "two_cells label idle peak = cat [Inr (''| '' @ label @ '' | ''), idle, Inr '' | '', peak, Inr '' |'']"

definition one_cell :: "string \<Rightarrow> string res \<Rightarrow> string res" where
  "one_cell label v = cat [Inr (''| '' @ label @ '' | ''), v, Inr '' |'']"

definition summary_lines ::
  "string \<Rightarrow> pyval dict \<Rightarrow> pyval dict \<Rightarrow> pynum \<Rightarrow> string \<Rightarrow> string \<Rightarrow> pyval dict \<Rightarrow> pyval \<Rightarrow> pyval \<Rightarrow> int dict \<Rightarrow> string list res" where
  "summary_lines variant idle peak conns reason final b average mem_peak err =
    (let idle_bytes = (\<lambda>k. bindE (sub idle k) fmt_bytes);
         idle_bytes' = (\<lambda>k. fmt_bytes (get_or VNone idle k));
         peak_bytes = (\<lambda>k. bindE (sub peak k) fmt_bytes);
         idle_num = (\<lambda>k. bindE (sub idle k) num_text);
         peak_num = (\<lambda>k. bindE (sub peak k) num_text);
         b_kb = (\<lambda>k. bindE (sub b k) kb)
     in mapE id [
      Inr (''# '' @ variant),
      Inr [],
      Inr (''Stopped because: '' @ reason @ ''.''),
      Inr [],
      Inr ''| Metric | Idle | At peak |'',
      Inr ''| --- | --- | --- |'',
      two_cells ''Connections'' (Inr ''0'') (num_text (VNum conns)),
      two_cells ''Container memory (cgroup)'' (idle_bytes ''cg_memory'') (peak_bytes ''cg_memory''),
      two_cells ''Kernel memory (socket structs, epoll, slab)'' (idle_bytes' ''cg_kernel'') (peak_bytes ''cg_kernel''),
      two_cells ''Kernel socket buffers'' (idle_bytes ''cg_sock'') (peak_bytes ''cg_sock''),
      two_cells ''Process RSS'' (idle_bytes ''process_rss'') (peak_bytes ''process_rss''),
      two_cells ''Go heap in use'' (idle_bytes' ''go_heap_inuse'') (peak_bytes ''go_heap_inuse''),
      two_cells ''Goroutines'' (idle_num ''goroutines'') (peak_num ''goroutines''),
      two_cells ''Open file descriptors'' (idle_num ''open_fds'') (peak_num ''open_fds''),
      cat [Inr ''| CPU, average near peak | | '', average_text average, Inr ''% of one core |''],
      cat [Inr ''| Echo latency p50 / p99 | | '', peak_num ''echo_p50_ms'', Inr '' ms / '', peak_num ''echo_p99_ms'', Inr '' ms |''],
      Inr [],
      Inr ''Memory per connection, (peak - idle) / connections:'',
      Inr [],
      Inr ''| Source | Per connection |'',
      Inr ''| --- | --- |'',
      one_cell ''Container total (cgroup)'' (b_kb ''cgroup_total''),
      one_cell ''Anonymous memory'' (b_kb ''cgroup_anon''),
      one_cell ''Kernel memory (socket structs, epoll, slab)'' (b_kb ''kernel_other''),
      one_cell ''of which slab objects'' (b_kb ''kernel_slab''),
      one_cell ''Kernel socket buffers'' (b_kb ''kernel_sockets''),
      one_cell ''Process RSS'' (b_kb ''process_rss''),
      one_cell ''Go heap'' (b_kb ''go_heap''),
      Inr [],
      cat [Inr (''Final container state: `'' @ final @ ''` (status, OOM-killed, exit code). ''),
           Inr ''Highest cgroup memory during the run: '', fmt_bytes mem_peak, Inr ''.''],
      Inr [],
      Inr (''Dial errors by reason: '' @ error_text err @ ''.''),
      Inr []])"

text \<open>The whole function: the dictionary for \<open>summary.json\<close> and the lines of \<open>summary.md\<close>.\<close>

definition write_summary ::
  "string \<Rightarrow> pyval dict \<Rightarrow> pyval dict list \<Rightarrow> string \<Rightarrow> (labels \<times> flt) list \<Rightarrow> (pyval dict \<times> string list) res" where
  "write_summary variant idle rows reason errors =
     bindE (summary_dict variant idle rows reason errors) (\<lambda>summary.
     bindE (live_rows rows) (\<lambda>live.
     bindE (peak_row rows live) (\<lambda>peak.
     bindE (bindE (sub peak ''server_conns'') (\<lambda>c. num_of (or_zero c))) (\<lambda>conns.
     bindE (bindE (last_of rows) (\<lambda>r. bindE (sub r ''state'') str_of)) (\<lambda>final.
     bindE (bytes_per_connection peak idle conns) (\<lambda>b.
     bindE (sub summary ''cpu_pct_near_peak_avg'') (\<lambda>average.
     bindE (sub summary ''cgroup_memory_peak'') (\<lambda>mem_peak.
     bindE (error_counts errors) (\<lambda>err.
     bindE (summary_lines variant idle peak conns reason final b average mem_peak err) (\<lambda>lines.
       Inr (summary, lines)))))))))))"

section \<open>Well-typed samples\<close>

text \<open>
  What the recorder's sources deliver: numbers of a size that memory sizes and counts have, a whole
  number of connections, and strings for the state. Such a value never makes the arithmetic of the
  summary overflow.
\<close>

definition magnitude :: rat where
  "magnitude = 2 ^ 1000"

definition small :: "rat \<Rightarrow> bool" where
  "small x \<longleftrightarrow> \<bar>x\<bar> \<le> magnitude"

fun small_num :: "pynum \<Rightarrow> bool" where
  "small_num (PInt i) = small (of_int i)"
| "small_num (PFlo (Fin x)) = small x"
| "small_num (PFlo x) = False"

definition num_or_none :: "pyval \<Rightarrow> bool" where
  "num_or_none v \<longleftrightarrow> v = VNone \<or> (\<exists>n. v = VNum n \<and> small_num n)"

text \<open>A connection count: missing, or a whole number that is a double.\<close>

definition count_or_none :: "pyval \<Rightarrow> bool" where
  "count_or_none v \<longleftrightarrow> v = VNone \<or> (\<exists>n. v = VNum (PFlo (Fin (of_int n))) \<and> 0 \<le> n \<and> n \<le> 2 ^ 53)"

definition proper_value :: "string \<Rightarrow> pyval \<Rightarrow> bool" where
  "proper_value k v \<longleftrightarrow>
     (if k = ''state'' then \<exists>s. v = VStr s
      else if k = ''t'' then \<exists>x. v = VNum (PFlo (Fin x)) \<and> small x
      else if k = ''server_conns'' then count_or_none v
      else num_or_none v)"

definition proper_row :: "pyval dict \<Rightarrow> bool" where
  "proper_row r \<longleftrightarrow> set (keys r) = set FIELDS \<and>
     (\<forall>k v. map_of r k = Some v \<longrightarrow> proper_value k v)"

lemma magnitude_facts: "rnd magnitude = magnitude" "1 \<le> magnitude" "4 * magnitude \<le> 2 ^ 1023" "2 ^ 53 \<le> magnitude"
proof -
  have p: "magnitude = 2 powi 1000" unfolding magnitude_def by (simp only: power_int_numeral)
  show "rnd magnitude = magnitude" unfolding p by (rule rnd_powi) simp
  show "1 \<le> magnitude" unfolding magnitude_def by (rule one_le_power) simp
  have "4 * magnitude = 2 ^ 1002" unfolding magnitude_def by simp
  also have "\<dots> \<le> 2 ^ 1023" by (rule power_increasing) simp_all
  finally show "4 * magnitude \<le> 2 ^ 1023" .
  show "2 ^ 53 \<le> magnitude" unfolding magnitude_def by (rule power_increasing) simp_all
qed

lemma rnd_small: "\<bar>x\<bar> \<le> magnitude \<Longrightarrow> \<bar>rnd x\<bar> \<le> magnitude"
  using rnd_mono [of x magnitude] rnd_mono [of "- magnitude" x]
  by (simp add: rnd_minus magnitude_facts abs_le_iff)

lemma mk_medium: "\<bar>x\<bar> \<le> 4 * magnitude \<Longrightarrow> mk x = Fin (rnd x)"
  using magnitude_facts(3) by (intro mk_bounded) (rule order_trans)

lemma to_float_small:
  assumes "small_num n"
  shows "\<exists>x. to_float n = Inr (Fin x) \<and> \<bar>x\<bar> \<le> magnitude"
proof (cases n)
  case (PInt i)
  with assms have i: "\<bar>of_int i\<bar> \<le> magnitude" by (simp add: small_def)
  then have "mk (of_int i) = Fin (rnd (of_int i))"
    using magnitude_facts(2) by (intro mk_medium) linarith
  with PInt rnd_small [OF i] show ?thesis by simp
next
  case (PFlo y)
  with assms show ?thesis by (cases y) (auto simp: small_def)
qed

lemma abs_div_le: "1 \<le> b \<Longrightarrow> \<bar>a / b\<bar> \<le> \<bar>a :: rat\<bar>"
  by (simp add: abs_divide divide_le_eq mult_left_mono mult_le_cancel_left1)

lemma fdiv_Fin: "\<bar>a\<bar> \<le> 4 * magnitude \<Longrightarrow> 1 \<le> b \<Longrightarrow> fdiv (Fin a) (Fin b) = Fin (rnd (a / b))"
proof -
  assume a: "\<bar>a\<bar> \<le> 4 * magnitude" and b: "1 \<le> b"
  from a have "mk (a / b) = Fin (rnd (a / b))"
    using abs_div_le [OF b, of a] by (intro mk_medium) linarith
  then show ?thesis by simp
qed

text \<open>Division by a positive integer, as the unit conversions do it.\<close>

lemma num_div_unit:
  assumes n: "\<bar>of_int a\<bar> \<le> 4 * magnitude" and b: "1 \<le> b"
  shows "num_div (PInt a) (PInt b) = Inr (Fin (rnd (of_int a / of_int b)))"
proof -
  have "(1::rat) \<le> of_int b" using b by simp
  then have "mk (of_int a / of_int b) = Fin (rnd (of_int a / of_int b))"
    using fdiv_Fin [OF n] by simp
  with b show ?thesis by simp
qed

lemma num_div_total:
  assumes n: "small_num n" and b: "1 \<le> b" "b \<le> 2 ^ 53"
  shows "\<exists>q. num_div n (PInt b) = Inr (Fin q)"
proof (cases n)
  case (PInt a)
  then have "\<bar>of_int a\<bar> \<le> 4 * magnitude" using n magnitude_facts(2) by (simp add: small_def)
  then show ?thesis using num_div_unit [OF _ b(1)] PInt by blast
next
  case (PFlo x)
  then obtain y where y: "x = Fin y" "\<bar>y\<bar> \<le> magnitude" using n by (cases x) (auto simp: small_def)
  have r: "rnd (of_int b) = of_int b" using b by (intro rnd_int) simp
  have b1: "(1::rat) \<le> of_int b" "of_int b \<le> (2::rat) ^ 53"
    using b by (simp, metis of_int_le_iff of_int_numeral of_int_power)
  then have "mk (of_int b) = Fin (of_int b)"
    using magnitude_facts(2,4) r by (subst mk_medium) auto
  then show ?thesis using fdiv_Fin [of y "of_int b"] y b b1 PFlo magnitude_facts(2) by simp
qed

lemma fmt_bytes_total: "num_or_none v \<Longrightarrow> \<exists>s. fmt_bytes v = Inr s"
  using num_div_total [of _ 1048576] by (fastforce simp: fmt_bytes_def num_or_none_def is_none_def)

lemma num_text_total: "num_or_none v \<Longrightarrow> \<exists>s. num_text v = Inr s"
  using to_float_small by (fastforce simp: num_text_def num_or_none_def is_none_def fmt_num_def)

lemma num_sub_small:
  assumes v: "small_num v" and i: "small_num i"
  shows "\<exists>d. num_sub v i = Inr d \<and>
    ((\<exists>n. d = PInt n \<and> \<bar>of_int n\<bar> \<le> 4 * magnitude) \<or> (\<exists>x. d = PFlo (Fin x) \<and> \<bar>x\<bar> \<le> 4 * magnitude))"
proof (cases "\<exists>a b. v = PInt a \<and> i = PInt b")
  case True
  then show ?thesis using v i magnitude_facts(2) by (auto simp: small_def)
next
  case False
  obtain x y where x: "to_float v = Inr (Fin x)" "\<bar>x\<bar> \<le> magnitude"
    and y: "to_float i = Inr (Fin y)" "\<bar>y\<bar> \<le> magnitude"
    using to_float_small [OF v] to_float_small [OF i] by blast
  have d: "\<bar>x - y\<bar> \<le> 2 * magnitude" using x y by linarith
  then have mk: "mk (x - y) = Fin (rnd (x - y))" using magnitude_facts(2) by (intro mk_medium) simp
  have "rnd (2 * magnitude) \<le> 4 * magnitude" "- (4 * magnitude) \<le> rnd (- (2 * magnitude))"
    using rd_relative [of "2 * magnitude"] magnitude_facts(2) by (auto simp: rnd_minus ulp_def)
  then have "\<bar>rnd (x - y)\<bar> \<le> 4 * magnitude"
    using d rnd_mono [of "x - y" "2 * magnitude"] rnd_mono [of "- (2 * magnitude)" "x - y"]
    unfolding abs_le_iff by linarith
  moreover have "num_sub v i = on_floats (-) v i"
    using False by (cases v; cases i) auto
  ultimately show ?thesis using mk x y by (simp add: on_floats_def minus_flt_def)
qed

text \<open>A whole, positive connection count as a divisor.\<close>

lemma num_div_count:
  assumes d: "(\<exists>n. d = PInt n \<and> \<bar>of_int n\<bar> \<le> 4 * magnitude) \<or> (\<exists>x. d = PFlo (Fin x) \<and> \<bar>x\<bar> \<le> 4 * magnitude)"
    and c: "1 \<le> c"
  shows "\<exists>x. num_div d (PFlo (Fin (of_int c))) = Inr (Fin (rnd (x / of_int c))) \<and> \<bar>x\<bar> \<le> 4 * magnitude \<and>
    to_float d = Inr (Fin x)"
proof -
  have c1: "(1::rat) \<le> of_int c" using c by simp
  have r4: "rnd (4 * magnitude) = 4 * magnitude"
  proof -
    have p: "magnitude = 2 powi 1000" unfolding magnitude_def by (simp only: power_int_numeral)
    have "rnd (of_int 4 * 2 powi 1000) = of_int 4 * 2 powi 1000" by (rule rnd_representable) simp_all
    then show ?thesis by (simp only: p of_int_numeral)
  qed
  from d obtain x where x: "to_float d = Inr (Fin x)" "\<bar>x\<bar> \<le> 4 * magnitude"
  proof
    assume "\<exists>n. d = PInt n \<and> \<bar>of_int n\<bar> \<le> 4 * magnitude"
    then obtain n where n: "d = PInt n" "\<bar>of_int n\<bar> \<le> 4 * magnitude" by blast
    then have "\<bar>rnd (of_int n)\<bar> \<le> 4 * magnitude"
      using rnd_mono [of "of_int n" "4 * magnitude"] rnd_mono [of "- (4 * magnitude)" "of_int n"]
      unfolding rnd_minus r4 abs_le_iff by linarith
    with n that show thesis by (simp add: mk_medium)
  qed auto
  have nz: "Fin (of_int c) \<noteq> Fin 0" using c1 by simp
  have "num_div d (PFlo (Fin (of_int c))) = Inr (fdiv (Fin x) (Fin (of_int c)))"
    using x nz by (cases d) simp_all
  with fdiv_Fin [OF x(2) c1] x show ?thesis by auto
qed

lemma per_conn_total:
  assumes "num_or_none v" "num_or_none i" "c = PInt 0 \<or> (\<exists>n \<ge> 1. c = PFlo (Fin (of_int n)))"
  shows "\<exists>b. per_conn v i c = Inr b \<and> (b = VNone \<or> (\<exists>n. b = VNum (PInt n) \<and> \<bar>of_int n\<bar> \<le> 9 * magnitude))"
proof (cases "is_none v \<or> is_none i \<or> \<not> nonzero c")
  case True
  then show ?thesis by (simp add: per_conn_def)
next
  case False
  then obtain a b n where v: "v = VNum a" "small_num a" and i: "i = VNum b" "small_num b"
    and n: "c = PFlo (Fin (of_int n))" "1 \<le> n"
    using assms by (auto simp: num_or_none_def is_none_def)
  obtain d where d: "num_sub a b = Inr d"
    "(\<exists>n. d = PInt n \<and> \<bar>of_int n\<bar> \<le> 4 * magnitude) \<or> (\<exists>x. d = PFlo (Fin x) \<and> \<bar>x\<bar> \<le> 4 * magnitude)"
    using num_sub_small [OF v(2) i(2)] by blast
  obtain x where x: "num_div d c = Inr (Fin (rnd (x / of_int n)))" "\<bar>x\<bar> \<le> 4 * magnitude"
    using num_div_count [OF d(2) n(2)] n(1) by blast
  let ?q = "x / of_int n"
  have q: "\<bar>?q\<bar> \<le> 4 * magnitude"
    using abs_div_le [of "of_int n" x] x(2) n(2) by simp
  have "rnd (4 * magnitude) \<le> 4 * magnitude * (1 + ulp)" "4 * magnitude * (1 + ulp) \<le> 8 * magnitude"
    using rd_relative [of "4 * magnitude"] magnitude_facts(2) by (simp_all add: ulp_def)
  then have "\<bar>rnd ?q\<bar> \<le> 8 * magnitude"
    using rnd_mono [of ?q "4 * magnitude"] rnd_mono [of "- (4 * magnitude)" ?q] q
    unfolding rnd_minus abs_le_iff by linarith
  then have "\<bar>of_int (rhe (rnd ?q))\<bar> \<le> 9 * magnitude"
    using rhe_bounds [of "rnd ?q"] magnitude_facts(2) by linarith
  with False v i d(1) x(1) show ?thesis by (simp add: per_conn_def)
qed

section \<open>The peak of proper rows\<close>

text \<open>The connection count of a row, 0 where the server did not answer.\<close>

definition conns_of :: "pyval dict \<Rightarrow> int" where
  "conns_of r = (case map_of r ''server_conns'' of Some (VNum (PFlo (Fin x))) \<Rightarrow> \<lfloor>x\<rfloor> | _ \<Rightarrow> 0)"

definition live :: "pyval dict \<Rightarrow> bool" where
  "live r \<longleftrightarrow> 0 < conns_of r \<and> map_of r ''cg_memory'' \<noteq> Some VNone"

lemma proper_sub: "proper_row r \<Longrightarrow> k \<in> set FIELDS \<Longrightarrow> \<exists>v. map_of r k = Some v"
  using keys_map_of [of r k] by (auto simp: proper_row_def)

lemma proper_num:
  "proper_row r \<Longrightarrow> k \<in> set FIELDS \<Longrightarrow> k \<noteq> ''state'' \<Longrightarrow> k \<noteq> ''t'' \<Longrightarrow> k \<noteq> ''server_conns'' \<Longrightarrow>
     \<exists>v. map_of r k = Some v \<and> num_or_none v"
  using proper_sub [of r k] by (fastforce simp: proper_row_def proper_value_def)

lemma proper_conns:
  assumes "proper_row r"
  shows "(map_of r ''server_conns'' = Some VNone \<and> conns_of r = 0) \<or>
    (map_of r ''server_conns'' = Some (VNum (PFlo (Fin (of_int (conns_of r))))) \<and> 0 \<le> conns_of r \<and> conns_of r \<le> 2 ^ 53)"
proof -
  obtain v where v: "map_of r ''server_conns'' = Some v"
    using proper_sub [OF assms, of "''server_conns''"] by (auto simp: FIELDS_def)
  then have "proper_value ''server_conns'' v" using assms by (simp add: proper_row_def)
  then have "count_or_none v" by (simp add: proper_value_def)
  then show ?thesis using v by (auto simp: count_or_none_def conns_of_def)
qed

lemma proper_live: "proper_row r \<Longrightarrow> is_live r = Inr (live r)"
proof -
  assume r: "proper_row r"
  obtain m where m: "map_of r ''cg_memory'' = Some m"
    using proper_sub [OF r, of "''cg_memory''"] by (auto simp: FIELDS_def)
  show ?thesis
    using proper_conns [OF r] m by (auto simp: is_live_def live_def sub_def is_none_def)
qed

lemma live_num:
  "proper_row r \<Longrightarrow> live r \<Longrightarrow> row_num r ''server_conns'' = Inr (PFlo (Fin (of_int (conns_of r))))"
  using proper_conns [of r] by (auto simp: live_def row_num_def sub_def)

lemma live_rows_proper: "list_all proper_row rows \<Longrightarrow> live_rows rows = Inr (filter live rows)"
  unfolding live_rows_def by (rule filterE_total) (simp add: proper_live list_all_iff)

definition top_of :: "pyval dict list \<Rightarrow> int" where
  "top_of rs = Max (conns_of ` set rs)"

lemma num_max_counts:
  "num_max (PFlo (Fin (of_int a))) (map (\<lambda>i. PFlo (Fin (of_int i))) is) = PFlo (Fin (of_int (fold max is a)))"
proof (induction "is" arbitrary: a)
  case (Cons i "is")
  have "(if num_lt (PFlo (Fin (of_int a))) (PFlo (Fin (of_int i))) then PFlo (Fin (of_int i)) else PFlo (Fin (of_int a)))
      = PFlo (Fin (of_int (max i a)))"
    by (auto simp: num_lt_def max_def)
  then show ?case using Cons.IH by (simp only: num_max.simps list.map fold_simps comp_def)
qed simp

lemma top_conns_live:
  assumes "list_all proper_row rs" "list_all live rs" "rs \<noteq> []"
  shows "top_conns rs = Inr (PFlo (Fin (of_int (top_of rs))))"
proof -
  have "mapE (\<lambda>r. row_num r ''server_conns'') rs = Inr (map (\<lambda>r. PFlo (Fin (of_int (conns_of r)))) rs)"
    using assms by (intro mapE_total live_num) (auto simp: list_all_iff)
  moreover obtain r rs' where rs: "rs = r # rs'" using assms(3) by (cases rs) auto
  moreover have "top_of rs = fold max (map conns_of rs') (conns_of r)"
    by (simp add: top_of_def rs Max.set_eq_fold flip: list.set_map list.simps(15))
  ultimately show ?thesis
    using num_max_counts [of "conns_of r" "map conns_of rs'"] by (simp add: top_conns_def comp_def)
qed

lemma top_of_bounds:
  "rs \<noteq> [] \<Longrightarrow> \<exists>r \<in> set rs. conns_of r = top_of rs"
  "r \<in> set rs \<Longrightarrow> conns_of r \<le> top_of rs"
  unfolding top_of_def using Max_in [of "conns_of ` set rs"] by (auto, fastforce)

text \<open>A threshold that is a share of a count, as a double.\<close>

definition share_of :: "rat \<Rightarrow> int \<Rightarrow> rat" where
  "share_of s n = rnd (rnd s * of_int n)"

lemma share_of_le:
  assumes "0 \<le> n" "n \<le> 2 ^ 53" "rnd s \<le> 1"
  shows "share_of s n \<le> of_int n"
  unfolding share_of_def using assms rnd_int [of n] by (intro double.share_le) auto

lemma rows_above_live:
  assumes rs: "list_all proper_row rs" "list_all live rs" and n: "0 \<le> n" "n \<le> 2 ^ 53" and s: "0 \<le> s" "s \<le> 1"
  shows "rows_above s (PFlo (Fin (of_int n))) rs = Inr (filter (\<lambda>r. share_of s n \<le> of_int (conns_of r)) rs)"
proof -
  have s1: "rnd 1 = 1" using rnd_int [of 1] by simp
  then have rs1: "0 \<le> rnd s" "rnd s \<le> 1" using s rnd_mono [of s 1] by (auto simp: double.rd_nonneg)
  have m: "mk s = Fin (rnd s)" using s magnitude_facts(2) by (intro mk_medium) simp
  have n': "(of_int n :: rat) \<le> 2 ^ 53" using n(2) by (metis of_int_le_iff of_int_numeral of_int_power)
  have "rnd s * of_int n \<le> of_int n" using rs1 n by (simp add: mult_left_le_one_le)
  moreover have "0 \<le> rnd s * of_int n" using rs1 n by simp
  ultimately have "\<bar>rnd s * of_int n\<bar> \<le> 4 * magnitude" using magnitude_facts(2,4) n' by linarith
  then have "mk (rnd s * of_int n) = Fin (share_of s n)" unfolding share_of_def by (rule mk_medium)
  then have mul: "on_floats (*) (PFlo (mk s)) (PFlo (Fin (of_int n))) = Inr (PFlo (Fin (share_of s n)))"
    by (simp add: m on_floats_def)
  show ?thesis unfolding rows_above_def
    by (rule filterE_total) (use rs in \<open>simp add: live_num list_all_iff mul num_le_def\<close>)
qed

lemma peak_row_live:
  assumes rows: "list_all proper_row rows" and ne: "filter live rows \<noteq> []"
  defines "ls \<equiv> filter live rows"
  defines "near \<equiv> filter (\<lambda>r. share_of (995 / 1000) (top_of ls) \<le> of_int (conns_of r)) ls"
  shows "near \<noteq> []" "peak_row rows ls = Inr (last near)"
proof -
  have ls: "list_all proper_row ls" "list_all live ls" using rows by (auto simp: ls_def list_all_iff)
  obtain r where r: "r \<in> set ls" "conns_of r = top_of ls"
    using top_of_bounds(1) ne unfolding ls_def by blast
  have top: "0 \<le> top_of ls" "top_of ls \<le> 2 ^ 53"
    using r ls proper_conns [of r] by (auto simp: list_all_iff live_def)
  have "rnd (995 / 1000) \<le> 1" using rnd_mono [of "995 / 1000" 1] rnd_int [of 1] by simp
  then have "r \<in> set near" using share_of_le [OF top] r by (simp add: near_def)
  then show ne': "near \<noteq> []" by auto
  have "rows_above (995 / 1000) (PFlo (Fin (of_int (top_of ls)))) ls = Inr near"
    unfolding near_def by (rule rows_above_live [OF ls top]) simp_all
  then show "peak_row rows ls = Inr (last near)"
    using top_conns_live [OF ls] ne ne' unfolding ls_def [symmetric]
    by (cases near) (simp_all add: peak_row_def)
qed

section \<open>The summary is always written\<close>

definition count_num :: "pynum \<Rightarrow> bool" where
  "count_num c \<longleftrightarrow> c = PInt 0 \<or> (\<exists>n. 1 \<le> n \<and> n \<le> 2 ^ 53 \<and> c = PFlo (Fin (of_int n)))"

text \<open>The values of \<open>bytes_per_connection\<close>: missing or integers that convert.\<close>

definition byte_value :: "pyval \<Rightarrow> bool" where
  "byte_value b \<longleftrightarrow> b = VNone \<or> (\<exists>n. b = VNum (PInt n) \<and> \<bar>of_int n\<bar> \<le> 9 * magnitude)"

lemma kb_total: "byte_value b \<Longrightarrow> returns (kb b)"
proof -
  assume b: "byte_value b"
  have "returns (num_div (PInt n) (PInt 1024))" if n: "\<bar>of_int n\<bar> \<le> 9 * magnitude" for n
  proof -
    have "\<bar>of_int n / 1024 :: rat\<bar> \<le> 4 * magnitude" using n magnitude_facts(2) by simp
    then show ?thesis by (simp add: mk_medium returns_def)
  qed
  then show ?thesis using b
    by (auto simp: byte_value_def kb_def is_none_def intro!: returns_intro)
qed

lemma proper_returns:
  assumes "proper_row r" "k \<in> set FIELDS"
  shows "returns (sub r k)"
  using proper_sub [OF assms] by (auto simp: sub_def)

lemma num_keys:
  assumes r: "proper_row r" and k: "k \<in> set FIELDS" "k \<notin> {''state'', ''t'', ''server_conns''}"
  shows "num_or_none (get_or VNone r k)" and "returns (bindE (sub r k) fmt_bytes)"
    and "returns (bindE (sub r k) num_text)"
  using proper_num [OF r k(1)] k(2) fmt_bytes_total num_text_total
  by (fastforce simp: get_or_def sub_def returns_def)+

lemma BYTES_fields:
  "(key, field, opt) \<in> set BYTES \<Longrightarrow> field \<in> set FIELDS \<and> field \<notin> {''state'', ''t'', ''server_conns''}"
  by (auto simp: BYTES_def FIELDS_def)

lemma count_num_cases: "count_num c \<Longrightarrow> c = PInt 0 \<or> (\<exists>n \<ge> 1. c = PFlo (Fin (of_int n)))"
  by (auto simp: count_num_def)

lemma bytes_total:
  assumes peak: "proper_row peak" and idle: "proper_row idle" and c: "count_num c"
  shows "\<exists>b. bytes_per_connection peak idle c = Inr b \<and> keys b = map fst BYTES \<and>
    (\<forall>k v. map_of b k = Some v \<longrightarrow> byte_value v)"
proof -
  let ?f = "\<lambda>(key, field, opt). bindE (sub peak field) (\<lambda>v.
      bindE (if opt then Inr (get_or VNone idle field) else sub idle field) (\<lambda>i.
      bindE (per_conn v i c) (\<lambda>b. Inr (key, b))))"
  have entry: "\<exists>b. ?f (key, field, opt) = Inr (key, b) \<and> byte_value b"
    if "(key, field, opt) \<in> set BYTES" for key field opt
  proof -
    have f: "field \<in> set FIELDS \<and> field \<notin> {''state'', ''t'', ''server_conns''}"
      by (rule BYTES_fields) (rule that)
    obtain v where v: "map_of peak field = Some v" "num_or_none v"
      using proper_num [OF peak] f by auto
    obtain i where i: "map_of idle field = Some i" "num_or_none i"
      using proper_num [OF idle] f by auto
    obtain b where "per_conn v i c = Inr b" "byte_value b"
      using per_conn_total [OF v(2) i(2) count_num_cases [OF c]] by (auto simp: byte_value_def)
    then show ?thesis using v i by (cases opt) (simp_all add: sub_def get_or_def)
  qed
  have "\<exists>b. mapE ?f xs = Inr b \<and> keys b = map fst xs \<and> (\<forall>kv \<in> set b. byte_value (snd kv))"
    if "set xs \<subseteq> set BYTES" for xs
    using that
  proof (induction xs)
    case (Cons x xs)
    obtain key field opt where x: "x = (key, field, opt)" using prod_cases3 by blast
    obtain b where b: "?f x = Inr (key, b)" "byte_value b"
      using entry [of key field opt] Cons.prems x by auto
    obtain bs where "mapE ?f xs = Inr bs" "keys bs = map fst xs" "\<forall>kv \<in> set bs. byte_value (snd kv)"
      using Cons by auto
    then show ?case using b x by simp
  qed simp
  then obtain b where b: "mapE ?f BYTES = Inr b" "keys b = map fst BYTES" "\<forall>kv \<in> set b. byte_value (snd kv)"
    by blast
  have "byte_value v" if "map_of b k = Some v" for k v
    using b(3) map_of_SomeD [OF that] by fastforce
  then show ?thesis using b(1,2) by (auto simp: bytes_per_connection_def)
qed

lemma cat_returns [returns_intro]: "(\<And>p. p \<in> set parts \<Longrightarrow> returns p) \<Longrightarrow> returns (cat parts)"
  by (auto simp: cat_def intro!: returns_intro)

lemma cells_return [returns_intro]:
  "returns a \<Longrightarrow> returns b \<Longrightarrow> returns (two_cells l a b)"
  "returns a \<Longrightarrow> returns (one_cell l a)"
  by (auto simp: two_cells_def one_cell_def intro!: returns_intro)

lemma average_text_total: "returns (average_text (cpu_average cpu))"
  by (auto simp: average_text_def cpu_average_def intro!: returns_intro)

lemma summary_lines_total:
  assumes peak: "proper_row peak" and idle: "proper_row idle" and c: "count_num c"
    and b: "keys b = map fst BYTES" "\<And>k v. map_of b k = Some v \<Longrightarrow> byte_value v"
    and mem: "num_or_none mem_peak"
  shows "returns (summary_lines variant idle peak c reason final b (cpu_average cpu) mem_peak err)"
proof -
  have kb: "returns (bindE (sub b k) kb)" if "k \<in> fst ` set BYTES" for k
  proof -
    have "k \<in> set (keys b)" using that b(1) by simp
    then obtain v where v: "map_of b k = Some v" using keys_map_of [of b k] by auto
    then show ?thesis using kb_total b(2) by (simp add: sub_def)
  qed
  have conns: "returns (num_text (VNum c))"
  proof -
    have "small_num c"
    proof -
      have "small (of_int n)" if n: "1 \<le> n" "n \<le> 2 ^ 53" for n
      proof -
        have "(of_int n :: rat) \<le> 2 ^ 53" using n(2) by (metis of_int_le_iff of_int_numeral of_int_power)
        then have "of_int n \<le> magnitude" using magnitude_facts(4) by (rule order_trans)
        then show ?thesis using n(1) by (simp add: small_def)
      qed
      then show ?thesis using c magnitude_facts(2) by (auto simp: count_num_def small_def)
    qed
    then show ?thesis using num_text_total [of "VNum c"] by (auto simp: num_or_none_def returns_def)
  qed
  have mem': "returns (fmt_bytes mem_peak)" using fmt_bytes_total [OF mem] by (auto simp: returns_def)
  have opt: "returns (fmt_bytes (get_or VNone idle k))" if "k \<in> {''cg_kernel'', ''go_heap_inuse''}" for k
    using fmt_bytes_total [OF num_keys(1) [OF idle]] that by (auto simp: returns_def FIELDS_def)
  have F: "k \<in> set FIELDS \<and> k \<notin> {''state'', ''t'', ''server_conns''}"
    if "k \<in> {''cg_memory'', ''cg_kernel'', ''cg_sock'', ''process_rss'', ''go_heap_inuse'', ''goroutines'',
      ''open_fds'', ''echo_p50_ms'', ''echo_p99_ms''}" for k
    using that by (auto simp: FIELDS_def)
  show ?thesis
    unfolding summary_lines_def Let_def
    by (rule returns_mapE)
       (auto intro!: returns_intro(3-) cat_returns cells_return kb conns mem' opt average_text_total
          num_keys(2,3) [OF peak] num_keys(2,3) [OF idle] simp: F BYTES_def)
qed

lemma last_of_ne: "xs \<noteq> [] \<Longrightarrow> last_of xs = Inr (last xs)"
  by (cases xs) simp_all

lemma first_of_ne: "xs \<noteq> [] \<Longrightarrow> first_of xs = Inr (hd xs)"
  by (cases xs) simp_all

lemma peak_proper:
  assumes rows: "list_all proper_row rows" "rows \<noteq> []"
  shows "\<exists>p. peak_row rows (filter live rows) = Inr p \<and> p \<in> set rows"
proof (cases "filter live rows = []")
  case True
  then show ?thesis using rows(2) by (simp add: peak_row_def top_conns_def last_of_ne)
next
  case False
  from peak_row_live [OF rows(1) False] show ?thesis
    by (metis (no_types, lifting) filter_is_subset last_in_set subset_code(1))
qed

lemma conns_count:
  assumes "proper_row r"
  shows "\<exists>v c. sub r ''server_conns'' = Inr v \<and> num_of (or_zero v) = Inr c \<and> count_num c"
  using proper_conns [OF assms]
  by (cases "conns_of r = 0") (auto simp: sub_def or_zero_def count_num_def)

lemma rows_above_returns:
  assumes c: "count_num c" and rs: "list_all proper_row rs" "list_all live rs"
  shows "returns (rows_above s c rs)"
proof -
  have "returns (num_mul (PFlo (mk s)) c)"
    using c magnitude_facts(2) by (auto simp: count_num_def on_floats_def mk_medium intro!: returns_intro)
  then show ?thesis
    using rs by (auto simp: rows_above_def live_num list_all_iff intro!: returns_intro)
qed

lemma cpu_values_returns: "list_all proper_row rs \<Longrightarrow> returns (cpu_values rs)"
proof -
  assume rs: "list_all proper_row rs"
  have v: "num_or_none v" if "mapE (\<lambda>r. sub r ''cpu_pct'') rs = Inr vs" "v \<in> set vs" for v vs
    using mapE_member [OF that] rs proper_num [of _ "''cpu_pct''"]
    by (fastforce simp: list_all_iff sub_Inr_iff FIELDS_def)
  have n: "returns (num_of v)" if "num_or_none v" "\<not> is_none v" for v
    using that by (fastforce simp: num_or_none_def is_none_def returns_def)
  have f: "returns (to_float n)" if "num_of v = Inr n" "\<not> is_none v" "num_or_none v" for v n
    using that to_float_small by (fastforce simp: num_or_none_def is_none_def returns_def)
  show ?thesis unfolding cpu_values_def
    using v rs n by (intro returns_intro) (auto simp: list_all_iff proper_returns FIELDS_def intro: f)
qed

lemma peak_bytes_total:
  assumes "list_all proper_row rows" "rows \<noteq> []"
  shows "\<exists>v. peak_bytes rows = Inr v \<and> num_or_none v"
proof -
  let ?f = "\<lambda>r. bindE (sub r ''cg_peak'') (\<lambda>v. num_of (or_zero v))"
  have f: "\<exists>n. ?f r = Inr n \<and> small_num n" if "r \<in> set rows" for r
  proof -
    have r: "proper_row r" using assms that by (auto simp: list_all_iff)
    obtain v where "map_of r ''cg_peak'' = Some v" "num_or_none v"
      using proper_num [OF r, of "''cg_peak''"] by (auto simp: FIELDS_def)
    then show ?thesis using magnitude_facts(2)
      by (auto simp: sub_def num_or_none_def or_zero_def small_def)
  qed
  then have "returns (mapE ?f rows)" by (intro returns_mapE) (auto simp: returns_def)
  then obtain ns where ns: "mapE ?f rows = Inr ns" by (auto simp: returns_def)
  have small: "small_num n" if "n \<in> set ns" for n
    using mapE_member [OF ns that] f by fastforce
  from ns assms(2) have "ns \<noteq> []" by (cases rows) (auto simp: bindE_Inr_iff)
  then obtain m ms where m: "ns = m # ms" by (cases ns) auto
  have "small_num (num_max m ms)" using small num_max_in [of m ms] m by auto
  then show ?thesis using ns m by (simp add: peak_bytes_def num_or_none_def)
qed

lemma error_counts_returns: "(\<And>k v. (k, v) \<in> set errors \<Longrightarrow> finite_flt v) \<Longrightarrow> returns (error_counts errors)"
proof -
  assume fin: "\<And>k v. (k, v) \<in> set errors \<Longrightarrow> finite_flt v"
  have "returns (py_trunc v)" if "(k, v) \<in> set errors" for k v
    using fin [OF that] by (cases v) simp_all
  then show ?thesis unfolding error_counts_def by (intro returns_intro) (auto intro!: returns_intro)
qed

lemma duration_returns:
  assumes "proper_row r" "proper_row s"
  shows "\<exists>a b x. row_num r ''t'' = Inr a \<and> row_num s ''t'' = Inr b \<and>
    bindE (num_sub a b) to_float = Inr (Fin x)"
proof -
  have "\<exists>x. row_num r ''t'' = Inr (PFlo (Fin x)) \<and> small x" if r: "proper_row r" for r
  proof -
    obtain v where v: "map_of r ''t'' = Some v"
      using proper_sub [OF r, of "''t''"] by (auto simp: FIELDS_def)
    then have "proper_value ''t'' v" using r by (simp add: proper_row_def)
    then show ?thesis using v by (auto simp: proper_value_def row_num_def sub_def)
  qed
  with assms obtain x y where x: "row_num r ''t'' = Inr (PFlo (Fin x))" "small x"
    and y: "row_num s ''t'' = Inr (PFlo (Fin y))" "small y" by metis
  obtain d where "num_sub (PFlo (Fin x)) (PFlo (Fin y)) = Inr d"
    "(\<exists>n. d = PInt n \<and> \<bar>of_int n\<bar> \<le> 4 * magnitude) \<or> (\<exists>x. d = PFlo (Fin x) \<and> \<bar>x\<bar> \<le> 4 * magnitude)"
    using num_sub_small [of "PFlo (Fin x)" "PFlo (Fin y)"] x y by auto
  then show ?thesis using x y num_div_count [of d 1] by auto
qed

lemma summary_dict_returns:
  assumes rows: "list_all proper_row rows" "rows \<noteq> []" and idle: "proper_row idle"
    and errors: "\<And>k v. (k, v) \<in> set errors \<Longrightarrow> finite_flt v"
  shows "returns (summary_dict variant idle rows reason errors)"
proof -
  have last: "last_of rows = Inr (last rows)" "first_of rows = Inr (hd rows)"
    using rows(2) by (simp_all add: last_of_ne first_of_ne)
  have ends: "proper_row (last rows)" "proper_row (hd rows)"
    using rows by (auto simp: list_all_iff)
  obtain p where p: "peak_row rows (filter live rows) = Inr p" "p \<in> set rows"
    using peak_proper [OF rows] by blast
  then have pp: "proper_row p" using rows by (auto simp: list_all_iff)
  obtain v c where c: "sub p ''server_conns'' = Inr v" "num_of (or_zero v) = Inr c" "count_num c"
    using conns_count [OF pp] by blast
  obtain err where err: "error_counts errors = Inr err"
    using error_counts_returns [of errors] errors unfolding returns_def by blast
  have lv: "list_all proper_row (filter live rows)" "list_all live (filter live rows)"
    using rows by (auto simp: list_all_iff)
  obtain window where w: "rows_above (98 / 100) c (filter live rows) = Inr window"
    using rows_above_returns [OF c(3) lv] by (auto simp: returns_def)
  then have "set window \<subseteq> set rows" unfolding rows_above_def using filterE_set by fastforce
  then have "list_all proper_row window" using rows by (auto simp: list_all_iff)
  then obtain cpu where cpu: "cpu_values window = Inr cpu"
    using cpu_values_returns by (auto simp: returns_def)
  obtain t1 t0 dt where t: "row_num (last rows) ''t'' = Inr t1" "row_num (hd rows) ''t'' = Inr t0"
    "bindE (num_sub t1 t0) to_float = Inr (Fin dt)"
    using duration_returns [OF ends] by blast
  then obtain d where d: "num_sub t1 t0 = Inr d" "to_float d = Inr (Fin dt)"
    by (auto simp: bindE_Inr_iff)
  obtain pc where pc: "num_trunc c = Inr pc" using c(3) by (auto simp: count_num_def)
  obtain target where target: "sub p ''loadgen_target'' = Inr target"
    using proper_returns [OF pp, of "''loadgen_target''"] by (auto simp: returns_def FIELDS_def)
  have "returns (mapE (\<lambda>k. bindE (sub p k) (\<lambda>v. Inr (k, v)))
      (filter (\<lambda>k. k \<noteq> ''t'' \<and> k \<noteq> ''state'') FIELDS))"
    by (intro returns_intro) (auto intro: proper_returns [OF pp])
  then obtain pk where pk: "mapE (\<lambda>k. bindE (sub p k) (\<lambda>v. Inr (k, v)))
      (filter (\<lambda>k. k \<noteq> ''t'' \<and> k \<noteq> ''state'') FIELDS) = Inr pk" by (auto simp: returns_def)
  obtain b where b: "bytes_per_connection p idle c = Inr b"
    using bytes_total [OF pp idle c(3)] by blast
  obtain st where st: "map_of (last rows) ''state'' = Some st"
    using proper_sub [OF ends(1), of "''state''"] by (auto simp: FIELDS_def)
  then have "proper_value ''state'' st" using ends(1) by (simp add: proper_row_def)
  then obtain f where f: "sub (last rows) ''state'' = Inr (VStr f)"
    using st by (auto simp: proper_value_def sub_def)
  obtain mem where mem: "peak_bytes rows = Inr mem" using peak_bytes_total [OF rows] by blast
  show ?thesis
    using w unfolding summary_dict_def live_rows_proper [OF rows(1)]
    by (simp add: p c err last cpu t(1,2) d pc target pk b f mem)
qed

section \<open>What the summary says\<close>

text \<open>
  C25: the memory per connection \<open>per_conn\<close> reports for byte counts below \<open>2 ^ 52\<close> is the quotient
  rounded to an integer: it is off by one half at most, up to the rounding error of one division.
\<close>

theorem per_conn_rounds:
  assumes v: "\<bar>v\<bar> \<le> 2 ^ 52" and i: "\<bar>i\<bar> \<le> 2 ^ 52" and n: "1 \<le> n"
  shows "\<exists>q. per_conn (VNum (PInt v)) (VNum (PInt i)) (PFlo (Fin (of_int n))) = Inr (VNum (PInt q)) \<and>
    \<bar>of_int q - of_int (v - i) / of_int n\<bar> \<le> 1 / 2 + ulp * (1 + \<bar>of_int (v - i) / of_int n :: rat\<bar>)"
proof -
  let ?d = "v - i"
  have d: "\<bar>?d\<bar> \<le> 2 ^ 53" using v i by simp
  then have "rnd (of_int ?d) = of_int ?d" by (rule rnd_int)
  moreover have d': "\<bar>of_int ?d :: rat\<bar> \<le> 2 ^ 53"
    using d by (metis of_int_abs of_int_le_iff of_int_numeral of_int_power)
  then have d4: "\<bar>of_int ?d :: rat\<bar> \<le> 4 * magnitude" using magnitude_facts(2,4) by linarith
  ultimately have fl: "to_float (PInt ?d) = Inr (Fin (of_int ?d))" by (simp add: mk_medium)
  have n1: "(1 :: rat) \<le> of_int n" using n by simp
  have "num_div (PInt ?d) (PFlo (Fin (of_int n))) = Inr (Fin (rnd (of_int ?d / of_int n)))"
    using fl fdiv_Fin [OF d4 n1] n1 by (simp del: of_int_diff to_float.simps(1))
  then have "per_conn (VNum (PInt v)) (VNum (PInt i)) (PFlo (Fin (of_int n)))
      = Inr (VNum (PInt (rhe (rnd (of_int ?d / of_int n)))))"
    using n by (simp add: per_conn_def is_none_def del: of_int_diff num_div.simps)
  moreover have "\<bar>of_int (rhe (rnd (of_int ?d / of_int n))) - of_int ?d / of_int n\<bar>
      \<le> 1 / 2 + ulp * (1 + \<bar>of_int ?d / of_int n :: rat\<bar>)"
    using rhe_bounds [of "rnd (of_int ?d / of_int n)"] rnd_error_total [of "of_int ?d / of_int n"] by linarith
  ultimately show ?thesis by blast
qed

theorem per_conn_rounds_witness:
  "\<exists>q. per_conn (VNum (PInt 5000000000)) (VNum (PInt 20000000)) (PFlo (Fin (of_int 300000))) = Inr (VNum (PInt q)) \<and>
    \<bar>of_int q - of_int (5000000000 - 20000000) / of_int 300000\<bar>
      \<le> 1 / 2 + ulp * (1 + \<bar>of_int (5000000000 - 20000000) / of_int 300000 :: rat\<bar>)"
  by (rule per_conn_rounds) simp_all

lemma summary_dictE:
  assumes "summary_dict variant idle rows reason errors = Inr s"
  obtains lv peak sc conns pc target pk b err f st sv mp dur cpu where
    "live_rows rows = Inr lv" "peak_row rows lv = Inr peak"
    "sub peak ''server_conns'' = Inr sc" "num_of (or_zero sc) = Inr conns" "num_trunc conns = Inr pc"
    "sub peak ''loadgen_target'' = Inr target"
    "mapE (\<lambda>k. bindE (sub peak k) (\<lambda>v. Inr (k, v))) (filter (\<lambda>k. k \<noteq> ''t'' \<and> k \<noteq> ''state'') FIELDS) = Inr pk"
    "bytes_per_connection peak idle conns = Inr b"
    "last_of rows = Inr st" "sub st ''state'' = Inr sv" "str_of sv = Inr f"
    "peak_bytes rows = Inr mp" "error_counts errors = Inr err"
    "s = [(''variant'', VStr variant), (''stop_reason'', VStr reason),
            (''duration_s'', VNum (PInt dur)), (''peak_connections'', VNum (PInt pc)),
            (''loadgen_target'', target), (''at_peak'', VDict pk),
            (''idle'', VDict (map (\<lambda>k. (k, get_or VNone idle k)) IDLE_KEYS)),
            (''bytes_per_connection'', VDict b),
            (''cpu_pct_near_peak_avg'', cpu_average cpu),
            (''final_state'', VStr f),
            (''oom_killed'', VBool (contains '' true '' ('' '' @ f @ '' ''))),
            (''cgroup_memory_peak'', mp),
            (''dial_errors_by_reason'', VDict (map (\<lambda>(k, n). (k, VNum (PInt n))) err))]"
  using assms unfolding summary_dict_def
  by (clarsimp simp only: bindE_Inr_iff sum.inject)

lemma copied_keys:
  assumes "mapE (\<lambda>k. bindE (sub r k) (\<lambda>v. Inr (k, v))) ks = Inr kvs" "k \<in> set ks"
  shows "map_of kvs k = map_of r k"
  using assms by (induction ks arbitrary: kvs) (auto simp: bindE_Inr_iff sub_Inr_iff)

lemma last_filter_index:
  assumes "filter P xs \<noteq> []"
  shows "\<exists>i < length xs. xs ! i = last (filter P xs) \<and> P (xs ! i) \<and> (\<forall>j. i < j \<longrightarrow> j < length xs \<longrightarrow> \<not> P (xs ! j))"
  using assms
proof (induction xs rule: rev_induct)
  case (snoc x xs)
  show ?case
  proof (cases "P x")
    case True
    then show ?thesis by (intro exI [of _ "length xs"]) simp
  next
    case False
    with snoc obtain i where i: "i < length xs" "xs ! i = last (filter P xs)" "P (xs ! i)"
      "\<And>j. i < j \<Longrightarrow> j < length xs \<Longrightarrow> \<not> P (xs ! j)" by auto
    have "\<not> P ((xs @ [x]) ! j)" if "i < j" "j < length (xs @ [x])" for j
      using i(4) [of j] that False by (cases "j = length xs") (auto simp: nth_append)
    then show ?thesis using i False by (intro exI [of _ i]) (auto simp: nth_append)
  qed
qed simp


lemma rnd_995: "995 / 1000 * (1 - 1 / 2 ^ 51) \<le> rnd (995 / 1000)" "rnd (995 / 1000) \<le> 1"
  by code_simp+

lemma share_of_995:
  assumes "1 \<le> c" "share_of (995 / 1000) n \<le> of_int c"
  shows "995 / 1000 * (1 - 1 / 2 ^ 50) * of_int n \<le> (of_int c :: rat)"
proof (cases "n \<le> 1")
  case True
  then have "995 / 1000 * (1 - 1 / 2 ^ 50) * of_int n \<le> (1 :: rat)" by simp
  also have "\<dots> \<le> of_int c" using assms(1) by simp
  finally show ?thesis .
next
  case False
  then have n: "(2 :: rat) \<le> of_int n" by simp
  let ?x = "rnd (995 / 1000) * of_int n"
  have x: "995 / 1000 * (1 - 1 / 2 ^ 51) * of_int n \<le> ?x"
    by (rule mult_right_mono [OF rnd_995(1)]) (use n in simp)
  moreover have "(1 :: rat) \<le> 995 / 1000 * (1 - 1 / 2 ^ 51) * of_int n" using n by simp
  ultimately have x1: "1 \<le> ?x" by linarith
  have "995 / 1000 * (1 - 1 / 2 ^ 50) * of_int n \<le> 995 / 1000 * (1 - 1 / 2 ^ 51) * of_int n * (1 - ulp)"
    using n by (simp add: ulp_def)
  also have "\<dots> \<le> ?x * (1 - ulp)" by (rule mult_right_mono [OF x]) (simp add: ulp_def)
  also have "\<dots> \<le> rnd ?x" using rd_relative [OF x1] by blast
  also have "\<dots> \<le> of_int c" using assms(2) by (simp only: share_of_def)
  finally show ?thesis .
qed

text \<open>
  C4: the peak that \<open>write_summary\<close> reports is the settled one. It is the count of one live sample,
  the other fields of \<open>at_peak\<close> are that same sample's, no live sample has a count more than half a
  percent above it, and every later live sample is below the half-percent threshold: it is the last
  one near the maximum.
\<close>

theorem summary_peak_settled:
  assumes rows: "list_all proper_row rows" and lv: "filter live rows \<noteq> []"
    and s: "summary_dict variant idle rows reason errors = Inr s"
  shows "\<exists>i < length rows. live (rows ! i) \<and>
    map_of s ''peak_connections'' = Some (VNum (PInt (conns_of (rows ! i)))) \<and>
    (\<exists>pk. map_of s ''at_peak'' = Some (VDict pk) \<and>
       (\<forall>k \<in> set FIELDS - {''t'', ''state''}. map_of pk k = map_of (rows ! i) k)) \<and>
    (\<forall>r \<in> set rows. live r \<longrightarrow>
       995 / 1000 * (1 - 1 / 2 ^ 50) * of_int (conns_of r) \<le> (of_int (conns_of (rows ! i)) :: rat)) \<and>
    (\<forall>j. i < j \<longrightarrow> j < length rows \<longrightarrow> live (rows ! j) \<longrightarrow>
       of_int (conns_of (rows ! j)) < share_of (995 / 1000) (top_of (filter live rows)))"
proof -
  let ?ls = "filter live rows"
  let ?P = "\<lambda>r. live r \<and> share_of (995 / 1000) (top_of ?ls) \<le> of_int (conns_of r)"
  have near: "filter (\<lambda>r. share_of (995 / 1000) (top_of ?ls) \<le> of_int (conns_of r)) ?ls = filter ?P rows"
    by (simp add: conj_commute)
  have peak: "filter ?P rows \<noteq> []" "peak_row rows ?ls = Inr (last (filter ?P rows))"
    using peak_row_live [OF rows lv] unfolding near by simp_all
  obtain i where i: "i < length rows" "rows ! i = last (filter ?P rows)" "?P (rows ! i)"
    "\<forall>j. i < j \<longrightarrow> j < length rows \<longrightarrow> \<not> ?P (rows ! j)"
    using last_filter_index [OF peak(1)] by blast
  let ?p = "rows ! i"
  have p: "proper_row ?p" using rows i(1) by (simp add: list_all_length)
  have c1: "1 \<le> conns_of ?p" using i(3) by (simp add: live_def)
  from s obtain pc pk where
    d: "num_trunc (PFlo (Fin (of_int (conns_of ?p)))) = Inr pc"
       "mapE (\<lambda>k. bindE (sub ?p k) (\<lambda>v. Inr (k, v))) (filter (\<lambda>k. k \<noteq> ''t'' \<and> k \<noteq> ''state'') FIELDS) = Inr pk"
       "map_of s ''peak_connections'' = Some (VNum (PInt pc))" "map_of s ''at_peak'' = Some (VDict pk)"
    using peak(2) p i(2,3) proper_conns [OF p] live_rows_proper [OF rows]
    by (elim summary_dictE) (auto simp: live_def sub_def or_zero_def)
  have keep: "map_of pk k = map_of ?p k" if "k \<in> set FIELDS - {''t'', ''state''}" for k
    using copied_keys [OF d(2)] that by auto
  have close: "995 / 1000 * (1 - 1 / 2 ^ 50) * of_int (conns_of r) \<le> (of_int (conns_of ?p) :: rat)"
    if r: "r \<in> set rows" "live r" for r
  proof -
    have "conns_of r \<le> top_of ?ls" using top_of_bounds(2) [of r ?ls] r by simp
    then have "995 / 1000 * (1 - 1 / 2 ^ 50) * of_int (conns_of r)
        \<le> (995 / 1000 * (1 - 1 / 2 ^ 50) * of_int (top_of ?ls) :: rat)" by simp
    also have "\<dots> \<le> of_int (conns_of ?p)" using share_of_995 [OF c1] i(3) by blast
    finally show ?thesis .
  qed
  show ?thesis using i d keep close by (intro exI [of _ i]) (auto simp: not_le)
qed

lemma write_summary_total:
  assumes rows: "list_all proper_row rows" "rows \<noteq> []" and idle: "proper_row idle"
    and errors: "\<And>k v. (k, v) \<in> set errors \<Longrightarrow> finite_flt v"
  shows "returns (write_summary variant idle rows reason errors)"
proof -
  obtain s where s: "summary_dict variant idle rows reason errors = Inr s"
    using summary_dict_returns [OF rows idle, of errors] errors unfolding returns_def by blast
  obtain p where p: "peak_row rows (filter live rows) = Inr p" "p \<in> set rows"
    using peak_proper [OF rows] by blast
  then have pp: "proper_row p" using rows by (auto simp: list_all_iff)
  obtain v c where c: "sub p ''server_conns'' = Inr v" "num_of (or_zero v) = Inr c" "count_num c"
    using conns_count [OF pp] by blast
  obtain b where b: "bytes_per_connection p idle c = Inr b" "keys b = map fst BYTES"
    "\<And>k v. map_of b k = Some v \<Longrightarrow> byte_value v" using bytes_total [OF pp idle c(3)] by blast
  obtain mem where mem: "peak_bytes rows = Inr mem" "num_or_none mem" using peak_bytes_total [OF rows] by blast
  show ?thesis
    using s
  proof (rule summary_dictE)
    fix lv peak sc conns pc target pk b' err f st sv mp dur cpu
    assume st: "last_of rows = Inr st" "sub st ''state'' = Inr sv" "str_of sv = Inr f"
      and err: "error_counts errors = Inr err" and mp: "peak_bytes rows = Inr mp"
      and sd: "s = [(''variant'', VStr variant), (''stop_reason'', VStr reason),
            (''duration_s'', VNum (PInt dur)), (''peak_connections'', VNum (PInt pc)),
            (''loadgen_target'', target), (''at_peak'', VDict pk),
            (''idle'', VDict (map (\<lambda>k. (k, get_or VNone idle k)) IDLE_KEYS)),
            (''bytes_per_connection'', VDict b'),
            (''cpu_pct_near_peak_avg'', cpu_average cpu),
            (''final_state'', VStr f),
            (''oom_killed'', VBool (contains '' true '' ('' '' @ f @ '' ''))),
            (''cgroup_memory_peak'', mp),
            (''dial_errors_by_reason'', VDict (map (\<lambda>(k, n). (k, VNum (PInt n))) err))]"
    obtain lines where "summary_lines variant idle p c reason f b (cpu_average cpu) mem err = Inr lines"
      using summary_lines_total [OF pp idle c(3) b(2) _ mem(2)] b(3) unfolding returns_def by blast
    moreover have "sub s ''cpu_pct_near_peak_avg'' = Inr (cpu_average cpu)" "sub s ''cgroup_memory_peak'' = Inr mem"
      using sd mp mem(1) by (simp_all add: sub_def)
    ultimately show ?thesis
      unfolding write_summary_def live_rows_proper [OF rows(1)]
      by (simp add: s p(1) c b(1) st mem(1) err)
  qed
qed

text \<open>
  C18: \<open>write_summary\<close> returns a dictionary and a page for every non-empty list of well-typed samples:
  no index out of range, missing key, division by zero, formatting of \<open>None\<close> or overflow, also when
  the server never answered and no sample is live.
\<close>

theorem write_summary_returns:
  assumes rows: "list_all proper_row rows" "rows \<noteq> []" and idle: "proper_row idle"
    and errors: "\<And>k v. (k, v) \<in> set errors \<Longrightarrow> finite_flt v"
  shows "returns (write_summary variant idle rows reason errors)"
  by (rule write_summary_total [OF rows idle]) (rule errors)

definition example_row :: "int \<Rightarrow> int \<Rightarrow> pyval dict" where
  "example_row time conns =
     map (\<lambda>k. (k, if k = ''t'' then VNum (PFlo (Fin (of_int time)))
        else if k = ''state'' then VStr ''running false 0''
        else if k = ''server_conns'' then VNum (PFlo (Fin (of_int conns)))
        else if k = ''cg_memory'' then VNum (PInt (20000000 + 10000 * conns))
        else VNone)) FIELDS"

lemma proper_rowI:
  "keys r = FIELDS \<Longrightarrow> (\<And>k v. (k, v) \<in> set r \<Longrightarrow> proper_value k v) \<Longrightarrow> proper_row r"
  by (auto simp: proper_row_def dest: map_of_SomeD)

lemma example_row_proper: "\<bar>time\<bar> \<le> 2 ^ 50 \<Longrightarrow> 0 \<le> conns \<Longrightarrow> conns \<le> 2 ^ 30 \<Longrightarrow> proper_row (example_row time conns)"
proof -
  assume t: "\<bar>time\<bar> \<le> 2 ^ 50" and c: "0 \<le> conns" "conns \<le> 2 ^ 30"
  have small: "small (of_int n)" if "\<bar>n\<bar> \<le> 2 ^ 53" for n
  proof -
    have "\<bar>of_int n :: rat\<bar> \<le> 2 ^ 53" using that by (metis of_int_abs of_int_le_iff of_int_numeral of_int_power)
    then show ?thesis using magnitude_facts(4) by (simp add: small_def)
  qed
  have counts: "count_or_none (VNum (PFlo (Fin (of_int conns))))" "small (20000000 + 10000 * of_int conns)"
    "small (of_int time)"
    using t c small [of "20000000 + 10000 * conns"] small [of time] by (auto simp: count_or_none_def)
  show ?thesis
  proof (rule proper_rowI)
    fix k v
    assume "(k, v) \<in> set (example_row time conns)"
    then have v: "v = (if k = ''t'' then VNum (PFlo (Fin (of_int time)))
        else if k = ''state'' then VStr ''running false 0''
        else if k = ''server_conns'' then VNum (PFlo (Fin (of_int conns)))
        else if k = ''cg_memory'' then VNum (PInt (20000000 + 10000 * conns))
        else VNone)" unfolding example_row_def by auto
    show "proper_value k v" using counts by (simp add: v proper_value_def num_or_none_def)
  qed (simp add: example_row_def keys_def o_def)
qed

definition example_rows :: "pyval dict list" where
  "example_rows = [example_row 2 900, example_row 4 1000, example_row 6 996, example_row 8 500]"

theorem summary_peak_settled_witness:
  "\<exists>s. summary_dict ''default'' (example_row 0 0) example_rows ''time limit of 8s reached'' [] = Inr s \<and>
    map_of s ''peak_connections'' = Some (VNum (PInt 996)) \<and>
    (\<exists>i < length example_rows. \<forall>r \<in> set example_rows. live r \<longrightarrow>
       995 / 1000 * (1 - 1 / 2 ^ 50) * of_int (conns_of r) \<le> (of_int (conns_of (example_rows ! i)) :: rat))"
proof -
  have rows: "list_all proper_row example_rows" by (simp add: example_rows_def example_row_proper)
  have lv: "filter live example_rows \<noteq> []" by code_simp
  have "returns (summary_dict ''default'' (example_row 0 0) example_rows ''time limit of 8s reached'' [])"
    by (rule summary_dict_returns [OF rows]) (simp_all add: example_row_proper example_rows_def)
  then obtain s where s: "summary_dict ''default'' (example_row 0 0) example_rows ''time limit of 8s reached'' [] = Inr s"
    by (auto simp: returns_def)
  have "bindE (summary_dict ''default'' (example_row 0 0) example_rows ''time limit of 8s reached'' [])
      (\<lambda>s. Inr (map_of s ''peak_connections'')) = Inr (Some (VNum (PInt 996)))"
    by code_simp
  then have "map_of s ''peak_connections'' = Some (VNum (PInt 996))" by (simp only: s bindE.simps sum.inject)
  then show ?thesis using s summary_peak_settled [OF rows lv s] by blast
qed

theorem write_summary_returns_witness:
  "returns (write_summary ''default'' (example_row 0 0) [example_row 2 900, example_row 4 1000]
     ''time limit of 4s reached'' [([(''reason'', ''timeout'')], Fin 3)])"
  by (rule write_summary_returns) (simp_all add: example_row_proper)

end
