(* ===== verification/RunLoop.thy ===== *)
theory RunLoop
  imports Sampler Summary
begin

text \<open>
  The recorder's two commands, \<open>cmd_idle\<close> and \<open>cmd_run\<close> of \<open>bench/local/record.py\<close>: one sample
  every \<open>STEP\<close> seconds until the container stops, the target is held, the count stops growing or the
  time is up. One pass of the loop is \<open>run_iteration\<close>; what the outside delivers to it is one
  observation and the values of the five calls of \<open>time.time()\<close> it may make. A list of ticks is the
  run as far as it has gone: the loop is still running (\<open>None\<close>) when the ticks are used up.
\<close>

section \<open>State\<close>

record run_args =
  variant :: string
  hold :: int
  plateau :: int
  max_time :: int

record clocks =
  now_best :: flt
  now_reach :: flt
  now_hold :: flt
  now_plateau :: flt
  now_max :: flt

type_synonym tick = "observation \<times> clocks"

record run_state =
  best :: "pynum option"
  best_at :: flt
  reached_at :: "flt option"

record recording =
  rows :: "pyval dict list"
  csv :: "pyval list list"
  printed :: "string list"

definition run_start :: "flt \<Rightarrow> run_state" where
  "run_start start = \<lparr>best = None, best_at = start, reached_at = None\<rparr>"

section \<open>One sample: the CSV row, the progress line, the decision\<close>

text \<open>
  \<open>DictWriter.writerow\<close>: a key that is not a column is refused, a missing one is written as the
  empty string. The cells are the values, in the order of the columns.
\<close>

definition writerow :: "string list \<Rightarrow> pyval dict \<Rightarrow> pyval list res" where
  "writerow columns s =
     (if set (keys s) \<subseteq> set columns then Inr (map (get_or (VStr []) s) columns) else Inl ValueError)"

definition progress_line :: "flt \<Rightarrow> pyval dict \<Rightarrow> string res" where
  "progress_line start s =
     bindE (sub s ''server_conns'') (\<lambda>sc.
     bindE (bindE (row_num s ''t'') (\<lambda>t. bindE (num_sub t (PFlo start)) num_trunc)) (\<lambda>secs.
     bindE (fmt_val True 0 (or_zero sc)) (\<lambda>conns.
     bindE (bindE (sub s ''cg_memory'') fmt_bytes) (\<lambda>mem.
     bindE (bindE (sub s ''cg_sock'') fmt_bytes) (\<lambda>sock.
     bindE (bindE (sub s ''cpu_pct'') (\<lambda>c. fmt_val False 1 (or_zero c))) (\<lambda>cpu.
     bindE (bindE (sub s ''dial_errors_15s'') (\<lambda>d. fmt_val True 0 (or_zero d))) (\<lambda>errs.
     bindE (bindE (sub s ''state'') str_of) (\<lambda>state.
       Inr (''['' @ pad_left 4 (CHR '' '') (show_int secs) @ ''s] conns '' @ pad_left 9 (CHR '' '') conns @
            ''  cgroup '' @ pad_left 12 (CHR '' '') mem @ ''  sock '' @ pad_left 11 (CHR '' '') sock @
            ''  cpu '' @ pad_left 5 (CHR '' '') cpu @ ''%  dial err/15s '' @ errs @
            ''  state '' @ state)))))))))"

definition grew :: "pynum option \<Rightarrow> pynum \<Rightarrow> bool res" where
  "grew b conns = (case b of None \<Rightarrow> Inr True
     | Some n \<Rightarrow> bindE (num_mul n (PFlo (mk (1005 / 1000)))) (\<lambda>limit. Inr (num_lt limit conns)))"

text \<open>\<open>reached_at or time.time()\<close>: 0.0 counts as not set.\<close>

definition first_reached :: "flt option \<Rightarrow> flt \<Rightarrow> flt" where
  "first_reached r now = (case r of None \<Rightarrow> now | Some x \<Rightarrow> if nonzero (PFlo x) then x else now)"

definition at_target :: "pyval dict \<Rightarrow> pynum \<Rightarrow> bool res" where
  "at_target s conns =
     bindE (sub s ''loadgen_target'') (\<lambda>target.
       if truthy target then bindE (num_of target) (\<lambda>t. Inr (num_le t conns)) else Inr False)"

definition elapsed :: "int \<Rightarrow> flt \<Rightarrow> flt \<Rightarrow> bool" where
  "elapsed limit now since = num_le (PInt limit) (PFlo (now - since))"

definition run_step :: "run_args \<Rightarrow> flt \<Rightarrow> clocks \<Rightarrow> pyval dict \<Rightarrow> run_state \<Rightarrow> (run_state \<times> string option) res" where
  "run_step args start ck s st =
     bindE (bindE (sub s ''server_conns'') (\<lambda>c. num_of (or_zero c))) (\<lambda>conns.
     bindE (grew (best st) conns) (\<lambda>g.
     let st1 = (if g then st\<lparr>best := Some conns, best_at := now_best ck\<rparr> else st) in
     bindE (bindE (sub s ''state'') str_of) (\<lambda>state.
     if \<not> starts_with ''running'' state
     then Inr (st1, Some (''server container stopped ('' @ state @ '')''))
     else bindE (at_target s conns) (\<lambda>reached.
       let since = first_reached (reached_at st1) (now_reach ck);
           st2 = (if reached then st1\<lparr>reached_at := Some since\<rparr> else st1) in
       if reached \<and> elapsed (hold args) (now_hold ck) since
       then bindE (bindE (sub s ''loadgen_target'') (fmt_val True 0)) (\<lambda>target.
              Inr (st2, Some (''target of '' @ target @ '' connections reached and held for '' @ show_int (hold args) @ ''s'')))
       else if elapsed (plateau args) (now_plateau ck) (best_at st2)
       then bindE (case best st2 of None \<Rightarrow> Inl TypeError | Some b \<Rightarrow> fmt_num True 0 b) (\<lambda>b.
              Inr (st2, Some (''no growth above '' @ b @ '' connections for '' @ show_int (plateau args) @ ''s'')))
       else if elapsed (max_time args) (now_max ck) start
       then Inr (st2, Some (''time limit of '' @ show_int (max_time args) @ ''s reached''))
       else Inr (st2, None)))))"

section \<open>The loop and the commands\<close>

definition run_iteration ::
  "run_args \<Rightarrow> flt \<Rightarrow> tick \<Rightarrow> sampler \<times> run_state \<times> recording \<Rightarrow>
     ((sampler \<times> run_state \<times> recording) \<times> string option) res" where
  "run_iteration args start tk c = (case (tk, c) of ((ob, ck), (sp, st, rec)) \<Rightarrow>
     bindE (sample ob sp) (\<lambda>(s, sp').
     bindE (writerow FIELDS s) (\<lambda>row.
     bindE (progress_line start s) (\<lambda>line.
     bindE (run_step args start ck s st) (\<lambda>(st', reason).
       Inr ((sp', st', rec\<lparr>rows := rows rec @ [s], csv := csv rec @ [row], printed := printed rec @ [line]\<rparr>), reason))))))"

fun run_loop ::
  "run_args \<Rightarrow> flt \<Rightarrow> tick list \<Rightarrow> sampler \<times> run_state \<times> recording \<Rightarrow> (recording \<times> string option) res" where
  "run_loop args start [] c = Inr (snd (snd c), None)"
| "run_loop args start (tk # ticks) c =
     bindE (run_iteration args start tk c) (\<lambda>(c', reason).
       if reason \<noteq> None then Inr (snd (snd c'), reason) else run_loop args start ticks c')"

definition empty_recording :: recording where
  "empty_recording = \<lparr>rows = [], csv = [], printed = []\<rparr>"

text \<open>
  \<open>cmd_run\<close>: \<open>idle\<close> is the content of \<open>idle.json\<close> (\<open>None\<close> when the file is missing), \<open>first\<close> the
  observation that primes the CPU counter, \<open>start\<close> the time the loop starts. While the loop runs
  there is no summary.
\<close>

definition cmd_run ::
  "run_args \<Rightarrow> pyval dict option \<Rightarrow> string \<Rightarrow> observation \<Rightarrow> flt \<Rightarrow> tick list \<Rightarrow> pyval option \<Rightarrow>
     (recording \<times> (string \<times> pyval dict \<times> string list) option) res" where
  "cmd_run args idle pid_out first start ticks errors_answer =
     bindE (of_option FileNotFoundError idle) (\<lambda>idle.
     bindE (Sampler_init (fs first) pid_out) (\<lambda>sp0.
     bindE (sample first sp0) (\<lambda>(s0, sp).
     bindE (run_loop args start ticks (sp, run_start start, empty_recording)) (\<lambda>(rec, reason).
       case reason of None \<Rightarrow> Inr (rec, None)
       | Some r \<Rightarrow>
           bindE (write_summary (variant args) idle (rows rec) r (prom_vector errors_answer)) (\<lambda>(summary, lines).
             Inr (rec, Some (r, summary, lines)))))))"

text \<open>\<open>cmd_idle\<close>: the dictionary for \<open>idle.json\<close> and the printed line.\<close>

definition cmd_idle :: "string \<Rightarrow> observation \<Rightarrow> observation \<Rightarrow> (pyval dict \<times> string) res" where
  "cmd_idle pid_out first second =
     bindE (Sampler_init (fs first) pid_out) (\<lambda>sp0.
     bindE (sample first sp0) (\<lambda>(s0, sp).
     bindE (sample second sp) (\<lambda>(s, sp').
     bindE (bindE (sub s ''cg_memory'') fmt_bytes) (\<lambda>mem.
     bindE (bindE (sub s ''process_rss'') fmt_bytes) (\<lambda>rss.
     bindE (bindE (sub s ''goroutines'') str_scalar) (\<lambda>gs.
     bindE (bindE (sub s ''open_fds'') str_scalar) (\<lambda>fds.
       Inr (s, ''idle: cgroup '' @ mem @ '', rss '' @ rss @ '', goroutines '' @ gs @ '', fds '' @ fds))))))))"

section \<open>Decisions on well-typed samples\<close>

text \<open>The connection count the loop works with: a float, or the integer 0.\<close>

definition conns_num :: "int \<Rightarrow> pynum" where
  "conns_num n = (if n = 0 then PInt 0 else PFlo (Fin (of_int n)))"

definition on_target :: "pyval dict \<Rightarrow> bool" where
  "on_target s \<longleftrightarrow> (case map_of s ''loadgen_target'' of
     Some (VNum t) \<Rightarrow> nonzero t \<and> num_le t (conns_num (conns_of s)) | _ \<Rightarrow> False)"

definition state_of :: "pyval dict \<Rightarrow> string" where
  "state_of s = (case map_of s ''state'' of Some (VStr t) \<Rightarrow> t | _ \<Rightarrow> [])"

lemma conns_range: "proper_row s \<Longrightarrow> 0 \<le> conns_of s \<and> conns_of s \<le> 2 ^ 53"
  using proper_conns [of s] by auto

lemma conns_value:
  "proper_row s \<Longrightarrow> bindE (sub s ''server_conns'') (\<lambda>c. num_of (or_zero c)) = Inr (conns_num (conns_of s))"
  using proper_conns [of s] by (auto simp: sub_def or_zero_def conns_num_def)

lemma state_value: "proper_row s \<Longrightarrow> bindE (sub s ''state'') str_of = Inr (state_of s)"
proof -
  assume s: "proper_row s"
  obtain v where v: "map_of s ''state'' = Some v"
    using proper_sub [OF s, of "''state''"] by (auto simp: FIELDS_def)
  then have "proper_value ''state'' v" using s by (simp add: proper_row_def)
  then show ?thesis using v by (auto simp: proper_value_def sub_def state_of_def)
qed

lemma target_num: "proper_row s \<Longrightarrow> \<exists>v. map_of s ''loadgen_target'' = Some v \<and> num_or_none v"
  using proper_num [of s "''loadgen_target''"] by (simp add: FIELDS_def)

lemma at_target_value: "proper_row s \<Longrightarrow> at_target s (conns_num (conns_of s)) = Inr (on_target s)"
  using target_num [of s] by (auto simp: at_target_def on_target_def sub_def num_or_none_def)

lemma target_text: "proper_row s \<Longrightarrow> on_target s \<Longrightarrow> returns (bindE (sub s ''loadgen_target'') (fmt_val True 0))"
proof -
  assume s: "proper_row s" "on_target s"
  then obtain t where "map_of s ''loadgen_target'' = Some (VNum t)" "small_num t"
    using target_num [OF s(1)] by (auto simp: on_target_def num_or_none_def)
  then show ?thesis using to_float_small [of t] by (auto simp: sub_def fmt_num_def)
qed

lemma share_of_nonneg: "0 \<le> s \<Longrightarrow> 0 \<le> n \<Longrightarrow> 0 \<le> share_of s n"
  by (simp add: share_of_def double.rd_nonneg)

lemma grow_limit:
  assumes n: "0 \<le> n" "n \<le> 2 ^ 53"
  shows "num_mul (conns_num n) (PFlo (mk (1005 / 1000))) = Inr (PFlo (Fin (share_of (1005 / 1000) n)))"
    and "of_int n \<le> share_of (1005 / 1000) n"
proof -
  have r: "1 \<le> rnd (1005 / 1000)" "rnd (1005 / 1000) \<le> 2"
    using rnd_mono [of 1 "1005 / 1000"] rnd_mono [of "1005 / 1000" 2] rnd_int [of 1] rnd_int [of 2] by simp_all
  have m: "mk (1005 / 1000) = Fin (rnd (1005 / 1000))" using magnitude_facts(2) by (intro mk_medium) simp
  have n': "(of_int n :: rat) \<le> 2 ^ 53" using n(2) by (metis of_int_le_iff of_int_numeral of_int_power)
  have "rnd (1005 / 1000) * of_int n \<le> 2 * of_int n" using r n by (intro mult_right_mono) simp_all
  moreover have "0 \<le> rnd (1005 / 1000) * of_int n" using r n by simp
  ultimately have "\<bar>rnd (1005 / 1000) * of_int n\<bar> \<le> 4 * magnitude" using magnitude_facts(2,4) n' by linarith
  then have "mk (rnd (1005 / 1000) * of_int n) = Fin (share_of (1005 / 1000) n)"
    unfolding share_of_def by (rule mk_medium)
  moreover have "rnd 0 = 0" by (rule double.rd_zero)
  ultimately show "num_mul (conns_num n) (PFlo (mk (1005 / 1000))) = Inr (PFlo (Fin (share_of (1005 / 1000) n)))"
    using magnitude_facts(2) by (auto simp: conns_num_def m on_floats_def mk_medium mult.commute)
  have "of_int n = rnd (of_int n)" using n by (simp add: rnd_int)
  also have "\<dots> \<le> share_of (1005 / 1000) n"
    unfolding share_of_def using r n by (intro rnd_mono) (simp add: mult_le_cancel_right1)
  finally show "of_int n \<le> share_of (1005 / 1000) n" .
qed

lemma num_lt_conns: "num_lt (PFlo (Fin x)) (conns_num n) \<longleftrightarrow> x < of_int n"
  by (auto simp: num_lt_def conns_num_def)

lemma grew_value:
  "0 \<le> m \<Longrightarrow> m \<le> 2 ^ 53 \<Longrightarrow>
     grew (Some (conns_num m)) (conns_num n) = Inr (share_of (1005 / 1000) m < of_int n)"
  unfolding grew_def option.case by (subst grow_limit(1)) (simp_all only: bindE.simps num_lt_conns)

lemma conns_text: "0 \<le> n \<Longrightarrow> n \<le> 2 ^ 53 \<Longrightarrow> fmt_num True 0 (conns_num n) = Inr (fmt_fixed True 0 (Fin (of_int n)))"
  using magnitude_facts(2) double.rd_zero by (auto simp: fmt_num_def conns_num_def mk_medium)


text \<open>
  One decision on a well-typed sample: the state after it, and why it stops.
\<close>

definition with_best :: "clocks \<Rightarrow> pyval dict \<Rightarrow> run_state \<Rightarrow> run_state" where
  "with_best ck s st = (case best st of
      Some b \<Rightarrow> if grew (Some b) (conns_num (conns_of s)) = Inr True
        then st\<lparr>best := Some (conns_num (conns_of s)), best_at := now_best ck\<rparr> else st
    | None \<Rightarrow> st\<lparr>best := Some (conns_num (conns_of s)), best_at := now_best ck\<rparr>)"

definition next_state :: "clocks \<Rightarrow> pyval dict \<Rightarrow> run_state \<Rightarrow> run_state" where
  "next_state ck s st =
     (let st1 = with_best ck s st
      in if starts_with ''running'' (state_of s) \<and> on_target s
         then st1\<lparr>reached_at := Some (first_reached (reached_at st1) (now_reach ck))\<rparr> else st1)"

definition count_state :: "run_state \<Rightarrow> bool" where
  "count_state st \<longleftrightarrow> (\<forall>b. best st = Some b \<longrightarrow> (\<exists>n. 0 \<le> n \<and> n \<le> 2 ^ 53 \<and> b = conns_num n))"

text \<open>The target as the reason names it.\<close>

definition target_shown :: "pyval dict \<Rightarrow> string" where
  "target_shown s = (case bindE (sub s ''loadgen_target'') (fmt_val True 0) of Inr t \<Rightarrow> t | Inl e \<Rightarrow> [])"

text \<open>
  The decision at a sample, given the best count and its time, and the time \<open>since\<close> which the target
  counts as reached.
\<close>

definition decision :: "run_args \<Rightarrow> flt \<Rightarrow> clocks \<Rightarrow> pyval dict \<Rightarrow> int \<Rightarrow> flt \<Rightarrow> flt \<Rightarrow> string option" where
  "decision args start ck s best_count best_time since =
     (if \<not> starts_with ''running'' (state_of s)
      then Some (''server container stopped ('' @ state_of s @ '')'')
      else if on_target s \<and> elapsed (hold args) (now_hold ck) since
      then Some (''target of '' @ target_shown s @ '' connections reached and held for '' @ show_int (hold args) @ ''s'')
      else if elapsed (plateau args) (now_plateau ck) best_time
      then Some (''no growth above '' @ fmt_fixed True 0 (Fin (of_int best_count)) @ '' connections for '' @ show_int (plateau args) @ ''s'')
      else if elapsed (max_time args) (now_max ck) start
      then Some (''time limit of '' @ show_int (max_time args) @ ''s reached'')
      else None)"

definition since_of :: "flt option \<Rightarrow> flt" where
  "since_of r = (case r of None \<Rightarrow> Fin 0 | Some x \<Rightarrow> x)"

lemma next_state_count:
  assumes "count_state st" "proper_row s"
  shows "count_state (next_state ck s st)"
  using assms conns_range [OF assms(2)] by (auto simp: count_state_def next_state_def with_best_def Let_def split: option.splits)

lemma grew_with_best:
  assumes "count_state st"
  obtains g where "grew (best st) (conns_num (conns_of s)) = Inr g"
    "(if g then st\<lparr>best := Some (conns_num (conns_of s)), best_at := now_best ck\<rparr> else st) = with_best ck s st"
proof (cases "best st")
  case None
  then show ?thesis by (intro that [of True]) (simp_all add: grew_def with_best_def)
next
  case (Some b)
  then obtain n where n: "0 \<le> n" "n \<le> 2 ^ 53" "b = conns_num n" using assms by (auto simp: count_state_def)
  show ?thesis
    by (rule that [of "share_of (1005 / 1000) n < of_int (conns_of s)"])
       (simp_all only: Some n(3) grew_value [OF n(1,2)] with_best_def option.case sum.inject eq_True)
qed

lemma next_best:
  assumes "count_state st" "proper_row s"
  obtains n where "best (next_state ck s st) = Some (conns_num n)" "0 \<le> n" "n \<le> 2 ^ 53"
proof -
  have "best (next_state ck s st) \<noteq> None" by (auto simp: next_state_def with_best_def Let_def split: option.splits)
  then show ?thesis using that next_state_count [OF assms, of ck] by (auto simp: count_state_def)
qed

lemma run_step_proper:
  assumes s: "proper_row s" and st: "count_state st"
  shows "\<exists>n. best (next_state ck s st) = Some (conns_num n) \<and>
    run_step args start ck s st = Inr (next_state ck s st,
      decision args start ck s n (best_at (next_state ck s st)) (since_of (reached_at (next_state ck s st))))"
proof -
  let ?c = "conns_num (conns_of s)"
  define st1 where "st1 = with_best ck s st"
  obtain g where g: "grew (best st) ?c = Inr g" "(if g then st\<lparr>best := Some ?c, best_at := now_best ck\<rparr> else st) = st1"
    unfolding st1_def by (rule grew_with_best [OF st])
  note vals = conns_value [OF s] state_value [OF s] at_target_value [OF s] g(1)
  obtain n where n: "best (next_state ck s st) = Some (conns_num n)" "0 \<le> n" "n \<le> 2 ^ 53" by (rule next_best [OF st s])
  show ?thesis
  proof (cases "starts_with ''running'' (state_of s)")
    case False
    then have e: "next_state ck s st = st1" by (simp add: next_state_def Let_def st1_def [symmetric])
    have "run_step args start ck s st = Inr (st1, Some (''server container stopped ('' @ state_of s @ '')''))"
      unfolding run_step_def vals bindE.simps g(2) Let_def using False by simp
    then show ?thesis using n False unfolding e by (intro exI [of _ n]) (simp add: decision_def)
  next
    case True
    define since where "since = first_reached (reached_at st1) (now_reach ck)"
    define st2 where "st2 = (if on_target s then st1\<lparr>reached_at := Some since\<rparr> else st1)"
    have e: "next_state ck s st = st2"
      using True by (simp add: next_state_def Let_def st1_def [symmetric] st2_def since_def)
    have shown: "(case best st2 of None \<Rightarrow> Inl TypeError | Some b \<Rightarrow> fmt_num True 0 b) = Inr (fmt_fixed True 0 (Fin (of_int n)))"
      using conns_text [OF n(2,3)] by (simp add: n(1) [unfolded e])
    have held: "on_target s \<Longrightarrow> since_of (reached_at st2) = since" by (simp add: st2_def since_of_def)
    have t: "bindE (sub s ''loadgen_target'') (fmt_val True 0) = Inr (target_shown s)" if "on_target s"
      using target_text [OF s that] by (auto simp: returns_def target_shown_def)
    note step = run_step_def vals bindE.simps g(2) Let_def since_def [symmetric] st2_def [symmetric] shown
    consider "on_target s" "elapsed (hold args) (now_hold ck) since"
      | "\<not> (on_target s \<and> elapsed (hold args) (now_hold ck) since)" by blast
    then show ?thesis
    proof cases
      case 1
      then show ?thesis using n(1) True held unfolding e step
        by (intro exI [of _ n]) (simp add: decision_def t del: fmt_val.simps)
    next
      case 2
      then have "\<not> (on_target s \<and> elapsed (hold args) (now_hold ck) (since_of (reached_at st2)))" using held by auto
      then have d: "decision args start ck s n (best_at st2) (since_of (reached_at st2)) =
         (if elapsed (plateau args) (now_plateau ck) (best_at st2)
          then Some (''no growth above '' @ fmt_fixed True 0 (Fin (of_int n)) @ '' connections for '' @ show_int (plateau args) @ ''s'')
          else if elapsed (max_time args) (now_max ck) start
          then Some (''time limit of '' @ show_int (max_time args) @ ''s reached'') else None)"
        using True by (simp only: decision_def if_not_P not_not if_False)
      have "run_step args start ck s st = Inr (st2, decision args start ck s n (best_at st2) (since_of (reached_at st2)))"
        unfolding d step if_not_P [OF 2] using True by simp
      then show ?thesis using n(1) unfolding e by blast
    qed
  qed
qed

text \<open>
  The decision without the loop's variables, from the samples and clock readings \<open>hist\<close> alone. The best sample
  is the last one more than half a percent above the best one before it. The target counts as reached since the
  first sample at its target, whatever the samples after it show (\<open>reached_at\<close> is never cleared; a clock
  reading of zero counts as none).
\<close>

type_synonym history = "(pyval dict \<times> clocks) list"

definition at_goal :: "pyval dict \<times> clocks \<Rightarrow> bool" where
  "at_goal h \<longleftrightarrow> starts_with ''running'' (state_of (fst h)) \<and> on_target (fst h)"

definition target_since :: "history \<Rightarrow> flt" where
  "target_since hist = (case filter (\<lambda>h. at_goal h \<and> now_reach (snd h) \<noteq> Fin 0) hist of
     [] \<Rightarrow> Fin 0 | h # hs \<Rightarrow> now_reach (snd h))"

fun best_sample :: "pyval dict \<times> clocks \<Rightarrow> history \<Rightarrow> pyval dict \<times> clocks" where
  "best_sample b [] = b"
| "best_sample b (h # hs) =
     best_sample (if share_of (1005 / 1000) (conns_of (fst b)) < of_int (conns_of (fst h)) then h else b) hs"

definition best_of :: "history \<Rightarrow> pyval dict \<times> clocks" where
  "best_of hist = best_sample (hd hist) (tl hist)"

definition why_stop :: "run_args \<Rightarrow> flt \<Rightarrow> history \<Rightarrow> string option" where
  "why_stop args start hist = decision args start (snd (last hist)) (fst (last hist))
     (conns_of (fst (best_of hist))) (now_best (snd (best_of hist))) (target_since hist)"

lemma best_sample_snoc: "best_sample b (hs @ [h]) =
   (if share_of (1005 / 1000) (conns_of (fst (best_sample b hs))) < of_int (conns_of (fst h)) then h else best_sample b hs)"
  by (induction b hs rule: best_sample.induct) simp_all

lemma best_of_single [simp]: "best_of [h] = h"
  by (simp add: best_of_def)

lemma best_of_snoc: "best_of (hist @ [h]) =
   (if hist = [] \<or> share_of (1005 / 1000) (conns_of (fst (best_of hist))) < of_int (conns_of (fst h)) then h else best_of hist)"
  by (cases hist) (simp_all add: best_of_def best_sample_snoc)

lemma best_of_in: "hist \<noteq> [] \<Longrightarrow> best_of hist \<in> set hist"
proof (induction hist rule: rev_induct)
  case (snoc h hist)
  then show ?case by (cases "hist = []") (auto simp: best_of_snoc)
qed simp

lemma share_of_mono: "m \<le> n \<Longrightarrow> 0 \<le> s \<Longrightarrow> share_of s m \<le> share_of s n"
  unfolding share_of_def by (intro rnd_mono mult_left_mono double.rd_nonneg) simp_all

text \<open>No sample is more than half a percent above the best one.\<close>

lemma best_of_bound:
  assumes "list_all (\<lambda>h. proper_row (fst h)) hist" "h \<in> set hist"
  shows "of_int (conns_of (fst h)) \<le> share_of (1005 / 1000) (conns_of (fst (best_of hist)))"
  using assms
proof (induction hist arbitrary: h rule: rev_induct)
  case (snoc x hist)
  let ?n = "\<lambda>h. conns_of (fst h)" and ?b = "best_of hist"
  have x: "0 \<le> ?n x" "?n x \<le> 2 ^ 53" using conns_range [of "fst x"] snoc.prems(1) by simp_all
  show ?case
  proof (cases "hist = [] \<or> share_of (1005 / 1000) (?n ?b) < of_int (?n x)")
    case True
    have "of_int (?n x) \<le> share_of (1005 / 1000) (?n x)" using grow_limit(2) [OF x] .
    moreover have "of_int (?n y) \<le> share_of (1005 / 1000) (?n x)" if y: "y \<in> set hist" for y
    proof -
      have "?b \<in> set hist" using y by (intro best_of_in) auto
      then have b: "0 \<le> ?n ?b" "?n ?b \<le> 2 ^ 53" using conns_range [of "fst ?b"] snoc.prems(1) by (simp_all add: list_all_iff)
      have less: "share_of (1005 / 1000) (?n ?b) < of_int (?n x)" using True y by auto
      then have "(of_int (?n ?b) :: rat) \<le> of_int (?n x)" using grow_limit(2) [OF b] by linarith
      then have "share_of (1005 / 1000) (?n ?b) \<le> share_of (1005 / 1000) (?n x)" by (intro share_of_mono) simp_all
      then show ?thesis using snoc.IH [OF _ y] snoc.prems(1) by simp
    qed
    moreover have "best_of (hist @ [x]) = x" unfolding best_of_snoc using True by simp
    ultimately show ?thesis using snoc.prems(2) by (cases "h \<in> set hist") simp_all
  next
    case False
    then show ?thesis using snoc.IH [of h] snoc.prems by (auto simp: best_of_snoc not_less)
  qed
qed simp

text \<open>What the loop's variables hold after the samples and clock readings \<open>hist\<close>.\<close>

definition run_inv :: "history \<Rightarrow> run_state \<Rightarrow> bool" where
  "run_inv hist st \<longleftrightarrow> list_all (\<lambda>h. proper_row (fst h)) hist \<and>
     (if hist = [] then best st = None
      else best st = Some (conns_num (conns_of (fst (best_of hist)))) \<and> best_at st = now_best (snd (best_of hist))) \<and>
     since_of (reached_at st) = target_since hist"

lemma run_inv_start: "run_inv [] (run_start start)"
  by (simp add: run_inv_def run_start_def since_of_def target_since_def)

lemma run_inv_count: "run_inv hist st \<Longrightarrow> count_state st"
proof -
  assume inv: "run_inv hist st"
  have "\<exists>n. 0 \<le> n \<and> n \<le> 2 ^ 53 \<and> b = conns_num n" if "best st = Some b" for b
  proof -
    have ne: "hist \<noteq> []" using inv that by (auto simp: run_inv_def)
    have "proper_row (fst (best_of hist))" using inv best_of_in [OF ne] by (auto simp: run_inv_def list_all_iff)
    then show ?thesis using conns_range inv ne that by (intro exI [of _ "conns_of (fst (best_of hist))"]) (simp add: run_inv_def)
  qed
  then show ?thesis by (simp add: count_state_def)
qed

lemma first_reached_since: "first_reached r now = (if since_of r \<noteq> Fin 0 then since_of r else now)"
proof -
  have "nonzero (PFlo x) \<longleftrightarrow> x \<noteq> Fin 0" for x by (cases x) auto
  then show ?thesis by (simp add: first_reached_def since_of_def split: option.splits)
qed

lemma target_since_snoc: "target_since (hist @ [h]) =
    (if at_goal h then if target_since hist \<noteq> Fin 0 then target_since hist else now_reach (snd h) else target_since hist)"
proof (cases "filter (\<lambda>h. at_goal h \<and> now_reach (snd h) \<noteq> Fin 0) hist")
  case (Cons x xs)
  then have "now_reach (snd x) \<noteq> Fin 0" by (auto simp: filter_eq_Cons_iff)
  then show ?thesis by (simp add: target_since_def Cons)
qed (auto simp: target_since_def)

lemma run_inv_next:
  assumes inv: "run_inv hist st" and s: "proper_row s"
  shows "run_inv (hist @ [(s, ck)]) (next_state ck s st)"
proof -
  let ?st = "next_state ck s st" and ?b = "best_of hist"
  have "list_all (\<lambda>h. proper_row (fst h)) (hist @ [(s, ck)])" using inv s by (simp add: run_inv_def)
  moreover have "best ?st = Some (conns_num (conns_of (fst (best_of (hist @ [(s, ck)]))))) \<and>
      best_at ?st = now_best (snd (best_of (hist @ [(s, ck)])))"
  proof (cases "hist = []")
    case True
    then show ?thesis using inv by (simp add: run_inv_def next_state_def with_best_def Let_def best_of_snoc)
  next
    case False
    then have b: "best st = Some (conns_num (conns_of (fst ?b)))" "best_at st = now_best (snd ?b)"
      using inv by (simp_all add: run_inv_def)
    have "proper_row (fst ?b)" using inv best_of_in [OF False] by (auto simp: run_inv_def list_all_iff)
    then have "grew (best st) (conns_num (conns_of s)) = Inr (share_of (1005 / 1000) (conns_of (fst ?b)) < of_int (conns_of s))"
      unfolding b(1) using conns_range by (intro grew_value) blast+
    then show ?thesis using False b by (simp add: next_state_def with_best_def Let_def best_of_snoc)
  qed
  moreover have "reached_at ?st = (if at_goal (s, ck) then Some (first_reached (reached_at st) (now_reach ck)) else reached_at st)"
    by (auto simp: next_state_def with_best_def at_goal_def Let_def split: option.splits)
  then have "since_of (reached_at ?st) = target_since (hist @ [(s, ck)])"
    using inv by (auto simp: run_inv_def target_since_snoc first_reached_since since_of_def)
  ultimately show ?thesis by (simp add: run_inv_def)
qed

lemma conns_num_inj: "conns_num m = conns_num n \<Longrightarrow> m = n"
  by (auto simp: conns_num_def split: if_splits)

lemma run_step_why:
  assumes inv: "run_inv hist st" and s: "proper_row s"
  shows "run_step args start ck s st = Inr (next_state ck s st, why_stop args start (hist @ [(s, ck)]))"
proof -
  let ?hist = "hist @ [(s, ck)]"
  obtain n where n: "best (next_state ck s st) = Some (conns_num n)"
    "run_step args start ck s st = Inr (next_state ck s st,
      decision args start ck s n (best_at (next_state ck s st)) (since_of (reached_at (next_state ck s st))))"
    using run_step_proper [OF s run_inv_count [OF inv]] by blast
  have i: "run_inv ?hist (next_state ck s st)" by (rule run_inv_next [OF inv s])
  then have "n = conns_of (fst (best_of ?hist))" using n(1) conns_num_inj by (simp add: run_inv_def)
  then show ?thesis using n(2) i by (simp add: why_stop_def run_inv_def)
qed

lemma run_iterationE:
  assumes "run_iteration args start (ob, ck) (sp, st, rec) = Inr ((sp', st', rec'), r)"
  obtains s row line where "sample ob sp = Inr (s, sp')" "writerow FIELDS s = Inr row"
    "run_step args start ck s st = Inr (st', r)"
    "rec' = rec\<lparr>rows := rows rec @ [s], csv := csv rec @ [row], printed := printed rec @ [line]\<rparr>"
  using assms by (auto simp: run_iteration_def bindE_Inr_iff)

lemma run_loop_rows:
  "run_loop args start ticks (sp, st, rec) = Inr (rec', r) \<Longrightarrow>
     \<exists>ss. rows rec' = rows rec @ ss \<and> length ss \<le> length ticks \<and>
       csv rec' = csv rec @ map (\<lambda>s. map (get_or (VStr []) s) FIELDS) ss \<and>
       (\<forall>s \<in> set ss. set (keys s) = set FIELDS \<and> distinct (keys s))"
proof (induction ticks arbitrary: sp st rec)
  case (Cons tk ticks)
  obtain ob ck where tk: "tk = (ob, ck)" by (cases tk)
  from Cons.prems obtain sp1 st1 rec1 r1 where
    it: "run_iteration args start (ob, ck) (sp, st, rec) = Inr ((sp1, st1, rec1), r1)"
    and rest: "if r1 \<noteq> None then (rec1, r1) = (rec', r) else run_loop args start ticks (sp1, st1, rec1) = Inr (rec', r)"
    by (auto simp: tk bindE_Inr_iff split: if_splits)
  obtain s row line where s: "sample ob sp = Inr (s, sp1)" "writerow FIELDS s = Inr row"
    "rec1 = rec\<lparr>rows := rows rec @ [s], csv := csv rec @ [row], printed := printed rec @ [line]\<rparr>"
    using it by (rule run_iterationE)
  have row: "row = map (get_or (VStr []) s) FIELDS" using s(2) by (auto simp: writerow_def split: if_splits)
  note keys = sample_keys [OF s(1)]
  show ?case
  proof (cases "r1 = None")
    case True
    then obtain ss where "rows rec' = rows rec1 @ ss" "length ss \<le> length ticks"
       "csv rec' = csv rec1 @ map (\<lambda>s. map (get_or (VStr []) s) FIELDS) ss"
       "\<forall>s \<in> set ss. set (keys s) = set FIELDS \<and> distinct (keys s)"
      using rest Cons.IH [of sp1 st1 rec1] by auto
    then show ?thesis using s(3) row keys by (intro exI [of _ "s # ss"]) simp
  next
    case False
    then show ?thesis using rest s(3) row keys by (intro exI [of _ "[s]"]) auto
  qed
qed simp

text \<open>The loop goes on as long as there is no reason to stop, and stops with the first one.\<close>

lemma run_loop_why:
  assumes "run_loop args start ticks (sp, st, rec) = Inr (rec', r)" "run_inv hist st" "list_all proper_row (rows rec')"
  shows "\<exists>hs. rows rec' = rows rec @ map fst hs \<and> length hs \<le> length ticks \<and> map snd hs = map snd (take (length hs) ticks) \<and>
    list_all (\<lambda>h. proper_row (fst h)) (hist @ hs) \<and> (hs = [] \<longleftrightarrow> ticks = []) \<and>
    (\<forall>n. 0 < n \<and> n < length hs \<longrightarrow> why_stop args start (hist @ take n hs) = None) \<and>
    r = (if hs = [] then None else why_stop args start (hist @ hs)) \<and> (r = None \<longrightarrow> length hs = length ticks)"
  using assms
proof (induction ticks arbitrary: sp st rec hist)
  case Nil
  then show ?case by (intro exI [of _ "[]"]) (simp add: run_inv_def)
next
  case (Cons tk ticks)
  obtain ob ck where tk: "tk = (ob, ck)" by (cases tk)
  from Cons.prems(1) obtain sp1 st1 rec1 r1 where
    it: "run_iteration args start (ob, ck) (sp, st, rec) = Inr ((sp1, st1, rec1), r1)"
    and rest: "if r1 \<noteq> None then (rec1, r1) = (rec', r) else run_loop args start ticks (sp1, st1, rec1) = Inr (rec', r)"
    by (auto simp: tk bindE_Inr_iff split: if_splits)
  obtain s row line where s: "sample ob sp = Inr (s, sp1)" "run_step args start ck s st = Inr (st1, r1)"
    "rec1 = rec\<lparr>rows := rows rec @ [s], csv := csv rec @ [row], printed := printed rec @ [line]\<rparr>"
    using it by (rule run_iterationE)
  have "s \<in> set (rows rec')"
    using rest s(3) run_loop_rows [of args start ticks sp1 st1 rec1] by (fastforce split: if_splits)
  then have p: "proper_row s" using Cons.prems(3) by (simp add: list_all_iff)
  have st1: "st1 = next_state ck s st" "r1 = why_stop args start (hist @ [(s, ck)])"
    using run_step_why [OF Cons.prems(2) p, of args start ck] s(2) by simp_all
  have inv: "run_inv (hist @ [(s, ck)]) st1" unfolding st1(1) by (rule run_inv_next [OF Cons.prems(2) p])
  show ?case
  proof (cases "r1 = None")
    case True
    then have "run_loop args start ticks (sp1, st1, rec1) = Inr (rec', r)" using rest by simp
    from Cons.IH [OF this inv Cons.prems(3)] obtain hs where hs:
      "rows rec' = rows rec1 @ map fst hs" "length hs \<le> length ticks" "map snd hs = map snd (take (length hs) ticks)"
      "list_all (\<lambda>h. proper_row (fst h)) ((hist @ [(s, ck)]) @ hs)" "hs = [] \<longleftrightarrow> ticks = []"
      "\<forall>n. 0 < n \<and> n < length hs \<longrightarrow> why_stop args start ((hist @ [(s, ck)]) @ take n hs) = None"
      "r = (if hs = [] then None else why_stop args start ((hist @ [(s, ck)]) @ hs))" "r = None \<longrightarrow> length hs = length ticks"
      by (elim exE conjE) (rule that)
    have none: "why_stop args start (hist @ take n ((s, ck) # hs)) = None" if "0 < n" "n < Suc (length hs)" for n
    proof (cases n)
      case (Suc m)
      then show ?thesis using that hs(6) True st1(2) by (cases "m = 0") simp_all
    qed (use that in simp)
    then show ?thesis using hs(1-5,7,8) True st1(2) s(3)
      by (intro exI [of _ "(s, ck) # hs"], cases "hs = []") (simp_all add: tk)
  next
    case False
    then have "rec' = rec1" "r = r1" using rest by simp_all
    then show ?thesis using inv s(3) st1(2) False
      by (intro exI [of _ "[(s, ck)]"]) (auto simp: tk run_inv_def)
  qed
qed

lemma shown_number: "num_or_none v \<Longrightarrow> returns (fmt_val g d (or_zero v))"
proof -
  assume v: "num_or_none v"
  have "returns (fmt_num g d n)" if "small_num n" for n
    using to_float_small [OF that] by (auto simp: fmt_num_def)
  moreover have "small_num (PInt 0)" using magnitude_facts(2) by (simp add: small_def)
  ultimately show ?thesis using v by (auto simp: num_or_none_def or_zero_def)
qed

lemma row_time: "proper_row s \<Longrightarrow> \<exists>x. row_num s ''t'' = Inr (PFlo (Fin x)) \<and> small x"
proof -
  assume s: "proper_row s"
  obtain v where v: "map_of s ''t'' = Some v" using proper_sub [OF s, of "''t''"] by (auto simp: FIELDS_def)
  then have "proper_value ''t'' v" using s by (simp add: proper_row_def)
  then show ?thesis using v by (auto simp: proper_value_def row_num_def sub_def)
qed

lemma progress_line_returns:
  assumes s: "proper_row s" and x: "small x"
  shows "returns (progress_line (Fin x) s)"
proof -
  obtain y where y: "row_num s ''t'' = Inr (PFlo (Fin y))" "small y" using row_time [OF s] by blast
  obtain d where d: "num_sub (PFlo (Fin y)) (PFlo (Fin x)) = Inr d"
    "(\<exists>n. d = PInt n) \<or> (\<exists>z. d = PFlo (Fin z))"
    using num_sub_small [of "PFlo (Fin y)" "PFlo (Fin x)"] x y(2) by auto
  have t: "returns (bindE (row_num s ''t'') (\<lambda>t. bindE (num_sub t (PFlo (Fin x))) num_trunc))"
    using y d by auto
  have f: "returns (bindE (sub s k) (\<lambda>v. fmt_val g n (or_zero v)))"
    if "k \<in> {''cpu_pct'', ''dial_errors_15s''}" for k g n
  proof -
    have "k \<in> set FIELDS" "k \<noteq> ''state''" "k \<noteq> ''t''" "k \<noteq> ''server_conns''"
      using that by (auto simp: FIELDS_def)
    from proper_num [OF s this] obtain v where "map_of s k = Some v" "num_or_none v" by blast
    then show ?thesis using shown_number by (simp add: sub_def)
  qed
  have b: "returns (bindE (sub s k) fmt_bytes)" if "k \<in> {''cg_memory'', ''cg_sock''}" for k
    by (rule num_keys(2) [OF s]) (use that in \<open>auto simp: FIELDS_def\<close>)
  obtain v c where v: "sub s ''server_conns'' = Inr v" "num_of (or_zero v) = Inr c" "count_num c"
    using conns_count [OF s] by blast
  have "returns (fmt_val True 0 (or_zero v))"
  proof -
    have "or_zero v = VNum (conns_num (conns_of s))"
      using proper_conns [OF s] v(1) by (auto simp: sub_Inr_iff or_zero_def conns_num_def)
    moreover have "returns (fmt_num True 0 (conns_num (conns_of s)))"
      using conns_text conns_range [OF s] by simp
    ultimately show ?thesis by simp
  qed
  then show ?thesis
    unfolding progress_line_def v(1) bindE.simps state_value [OF s]
    by - (assumption | rule t f b returns_Inr returns_bind | simp)+
qed

lemma run_loop_ends:
  assumes "samples (map fst ticks) sp = Inr (ss, sp')" "list_all proper_row ss" "small x" "count_state st"
  shows "\<exists>rec' r n. run_loop args (Fin x) ticks (sp, st, rec) = Inr (rec', r) \<and> n \<le> length ss \<and>
    rows rec' = rows rec @ take n ss \<and> (ticks \<noteq> [] \<longrightarrow> 0 < n) \<and>
    ((\<exists>tk \<in> set ticks. elapsed (max_time args) (now_max (snd tk)) (Fin x)) \<longrightarrow> r \<noteq> None)"
  using assms
proof (induction ticks arbitrary: sp ss st rec)
  case (Cons tk ticks)
  obtain ob ck where tk: "tk = (ob, ck)" by (cases tk)
  from Cons.prems(1) obtain s sp1 ss1 where s: "sample ob sp = Inr (s, sp1)"
    "samples (map fst ticks) sp1 = Inr (ss1, sp')" "ss = s # ss1"
    by (auto simp: tk bindE_Inr_iff)
  have p: "proper_row s" "list_all proper_row ss1" using Cons.prems(2) s(3) by simp_all
  obtain line where line: "progress_line (Fin x) s = Inr line"
    using progress_line_returns [OF p(1) Cons.prems(3)] by (auto simp: returns_def)
  obtain r where r: "run_step args (Fin x) ck s st = Inr (next_state ck s st, r)"
    "elapsed (max_time args) (now_max ck) (Fin x) \<longrightarrow> r \<noteq> None"
    using run_step_proper [OF p(1) Cons.prems(4), where args = args and start = "Fin x" and ck = ck] by (auto simp: decision_def)
  have row: "writerow FIELDS s = Inr (map (get_or (VStr []) s) FIELDS)"
    using sample_keys(1) [OF s(1)] by (simp add: writerow_def)
  let ?rec = "rec\<lparr>rows := rows rec @ [s], csv := csv rec @ [map (get_or (VStr []) s) FIELDS], printed := printed rec @ [line]\<rparr>"
  have it: "run_iteration args (Fin x) tk (sp, st, rec) = Inr ((sp1, next_state ck s st, ?rec), r)"
    by (simp add: run_iteration_def tk s row line r(1))
  show ?case
  proof (cases "r = None")
    case False
    then show ?thesis using it s(3) by (intro exI [of _ ?rec] exI [of _ r] exI [of _ 1]) simp
  next
    case True
    have c: "count_state (next_state ck s st)" by (rule next_state_count [OF Cons.prems(4) p(1)])
    obtain rec' r' n where "run_loop args (Fin x) ticks (sp1, next_state ck s st, ?rec) = Inr (rec', r')" "n \<le> length ss1"
      "rows rec' = rows ?rec @ take n ss1"
      "(\<exists>tk \<in> set ticks. elapsed (max_time args) (now_max (snd tk)) (Fin x)) \<longrightarrow> r' \<noteq> None"
      using Cons.IH [OF s(2) p(2) Cons.prems(3) c, of ?rec] by blast
    then show ?thesis using True it s(3) r(2) tk by (intro exI [of _ rec'] exI [of _ r'] exI [of _ "Suc n"]) simp
  qed
qed simp

section \<open>Properties\<close>

text \<open>
  C5: The recorder stops with the first reason there is, and the reason is a function of the samples and the
  clock readings taken with them: no sample before the last gave a reason, and the reason reported is that of
  the last one, the first that holds of: the container is not running; the count is at its target and the first
  sample that was at its target is at least \<open>hold\<close> seconds ago (the samples in between may be below it, see
  \<open>hold_survives_a_drop\<close>); the best sample is at least \<open>plateau\<close> seconds old; \<open>max\<close> seconds have passed
  since the start. No sample is more than half a percent above the best one. Without a reason the loop goes on.
\<close>

theorem stop_reason_exact:
  assumes run: "run_loop args start ticks (sp, run_start start, empty_recording) = Inr (rec, r)"
    and proper: "list_all proper_row (rows rec)"
  shows "let hist = zip (rows rec) (map snd ticks) in
    length hist = length (rows rec) \<and> (r = None \<longrightarrow> length hist = length ticks) \<and>
    (\<forall>n. 0 < n \<and> n < length hist \<longrightarrow> why_stop args start (take n hist) = None) \<and>
    r = (if hist = [] then None else why_stop args start hist) \<and>
    (\<forall>s \<in> set (rows rec). of_int (conns_of s) \<le> share_of (1005 / 1000) (conns_of (fst (best_of hist))))"
proof -
  obtain hs where hs: "rows rec = map fst hs" "length hs \<le> length ticks" "map snd hs = map snd (take (length hs) ticks)"
    "list_all (\<lambda>h. proper_row (fst h)) hs" "\<forall>n. 0 < n \<and> n < length hs \<longrightarrow> why_stop args start (take n hs) = None"
    "r = (if hs = [] then None else why_stop args start hs)" "r = None \<longrightarrow> length hs = length ticks"
    using run_loop_why [OF run run_inv_start proper] by (auto simp: empty_recording_def)
  have "zip (rows rec) (map snd ticks) = take (length hs) (zip (map fst hs) (map snd ticks))" using hs(1) by simp
  also have "\<dots> = zip (map fst hs) (map snd hs)" unfolding take_zip take_map hs(3) by simp
  finally have "zip (rows rec) (map snd ticks) = zip (map fst hs) (map snd hs)" .
  then have z: "zip (rows rec) (map snd ticks) = hs" by (simp add: zip_map_fst_snd)
  show ?thesis unfolding Let_def z using hs(1,5-7) best_of_bound [OF hs(4)] by auto
qed

text \<open>What the recorder observes of a server that holds \<open>conns\<close> connections at the time \<open>time\<close>.\<close>

definition vector_answer :: "int \<Rightarrow> pyval" where
  "vector_answer n = VDict [(''data'', VDict [(''result'',
     VList [VDict [(''metric'', VDict []), (''value'', VList [VNum (PInt 0), VStr (show_int n)])]])])]"

definition server_observation :: "int \<Rightarrow> int \<Rightarrow> int \<Rightarrow> string \<Rightarrow> observation" where
  "server_observation target time conns status = (example_observation time (1000 * time))\<lparr>
     metrics_page := Some (cgroup_file [''millionws_connections_active '' @ show_int conns]),
     prom_answer := (\<lambda>q. if q = ''sum(loadgen_connections_target)'' then Some (vector_answer target) else None),
     docker_out := status\<rparr>"

definition clocks_at :: "int \<Rightarrow> clocks" where
  "clocks_at time = (let t = mk (of_int time) in
     \<lparr>now_best = t, now_reach = t, now_hold = t, now_plateau = t, now_max = t\<rparr>)"

definition server_tick :: "int \<Rightarrow> int \<Rightarrow> int \<Rightarrow> string \<Rightarrow> tick" where
  "server_tick target time conns status = (server_observation target time conns status, clocks_at time)"

definition example_args :: run_args where
  "example_args = \<lparr>variant = ''default'', hold = 60, plateau = 90, max_time = 1800\<rparr>"


text \<open>A check on concrete samples that implies that they are well typed.\<close>

fun tidy_value :: "string \<Rightarrow> pyval \<Rightarrow> bool" where
  "tidy_value k VNone = (k \<noteq> ''state'' \<and> k \<noteq> ''t'')"
| "tidy_value k (VNum (PInt i)) = (k \<noteq> ''state'' \<and> k \<noteq> ''t'' \<and> k \<noteq> ''server_conns'' \<and> \<bar>i\<bar> \<le> 2 ^ 53)"
| "tidy_value k (VNum (PFlo (Fin x))) = (k \<noteq> ''state'' \<and> \<bar>x\<bar> \<le> 2 ^ 53 \<and>
     (k = ''server_conns'' \<longrightarrow> 0 \<le> x \<and> x = of_int \<lfloor>x\<rfloor>))"
| "tidy_value k (VStr s) = (k = ''state'')"
| "tidy_value k v = False"

definition tidy_row :: "pyval dict \<Rightarrow> bool" where
  "tidy_row r \<longleftrightarrow> list_all (\<lambda>k. k \<in> set FIELDS) (keys r) \<and> list_all (\<lambda>k. k \<in> set (keys r)) FIELDS \<and>
     list_all (\<lambda>(k, v). tidy_value k v) r"

lemma tidy_value_proper: "tidy_value k v \<Longrightarrow> proper_value k v"
proof -
  assume t: "tidy_value k v"
  have i: "small (of_int i)" if "\<bar>i\<bar> \<le> 2 ^ 53" for i
  proof -
    have "\<bar>of_int i :: rat\<bar> \<le> 2 ^ 53" using that by (metis of_int_abs of_int_le_iff of_int_numeral of_int_power)
    then show ?thesis using magnitude_facts(4) by (simp add: small_def)
  qed
  have f: "small x" if "\<bar>x\<bar> \<le> 2 ^ 53" for x using that magnitude_facts(4) by (simp add: small_def)
  have c: "count_or_none (VNum (PFlo (Fin x)))" if "0 \<le> x" "x = of_int \<lfloor>x\<rfloor>" "\<bar>x\<bar> \<le> 2 ^ 53" for x
  proof -
    have "of_int \<lfloor>x\<rfloor> \<le> (of_int (2 ^ 53) :: rat)" using that by simp
    then have "\<lfloor>x\<rfloor> \<le> 2 ^ 53" by (simp only: of_int_le_iff)
    then show ?thesis using that by (auto simp: count_or_none_def intro!: exI [of _ "\<lfloor>x\<rfloor>"])
  qed
  show ?thesis using t i f c
    by (cases "(k, v)" rule: tidy_value.cases) (auto simp: proper_value_def count_or_none_def num_or_none_def)
qed

lemma tidy_row_proper: "tidy_row r \<Longrightarrow> proper_row r"
  unfolding tidy_row_def proper_row_def
  by (auto simp: list_all_iff keys_def intro!: tidy_value_proper dest!: map_of_SomeD)

text \<open>
  A target that was not held is reported as held. Three samples with a target of 1000 and \<open>hold\<close> = 6 seconds:
  1000 connections, then 10, then 1000 again 6 seconds after the first. The variable \<open>reached_at\<close> is not
  cleared when the count falls below the target, so the run stops with "reached and held for 6s" although the
  sample in between held 10 connections.
\<close>

definition drop_ticks :: "tick list" where
  "drop_ticks = map (\<lambda>(time, n). server_tick 1000 time n ''running false 0'') [(1002, 1000), (1005, 10), (1008, 1000)]"

lemma hold_survives_a_drop:
  "bindE (run_loop (example_args\<lparr>hold := 6\<rparr>) (Fin 1000) drop_ticks (example_sampler, run_start (Fin 1000), empty_recording))
    (\<lambda>(rec, reason). Inr (list_all tidy_row (rows rec), map conns_of (rows rec), reason)) =
   Inr (True, [1000, 10, 1000], Some ''target of 1,000 connections reached and held for 6s'')"
  by code_simp

theorem stop_reason_exact_witness:
  "\<exists>hist. map (conns_of \<circ> fst) hist = [1000, 10, 1000] \<and>
    why_stop (example_args\<lparr>hold := 6\<rparr>) (Fin 1000) hist = Some ''target of 1,000 connections reached and held for 6s'' \<and>
    why_stop (example_args\<lparr>hold := 6\<rparr>) (Fin 1000) (take 2 hist) = None"
proof -
  obtain rec where run: "run_loop (example_args\<lparr>hold := 6\<rparr>) (Fin 1000) drop_ticks (example_sampler, run_start (Fin 1000), empty_recording) =
       Inr (rec, Some ''target of 1,000 connections reached and held for 6s'')"
    and rec: "list_all tidy_row (rows rec)" "map conns_of (rows rec) = [1000, 10, 1000]"
    using hold_survives_a_drop by (auto simp: bindE_Inr_iff)
  have "list_all proper_row (rows rec)" using rec(1) tidy_row_proper by (auto simp: list_all_iff)
  note facts = stop_reason_exact [OF run this, unfolded Let_def]
  let ?hist = "zip (rows rec) (map snd drop_ticks)"
  have len: "length (rows rec) = 3" using arg_cong [OF rec(2), of length] by simp
  then have "map (conns_of \<circ> fst) ?hist = [1000, 10, 1000]"
    using facts rec(2) by (simp add: map_fst_zip_take flip: map_map)
  moreover have "why_stop (example_args\<lparr>hold := 6\<rparr>) (Fin 1000) (take 2 ?hist) = None"
  proof -
    have "0 < (2 :: nat) \<and> 2 < length ?hist" using len by (simp add: drop_ticks_def)
    then show ?thesis using facts by blast
  qed
  moreover have "?hist \<noteq> []" using len by (auto simp: drop_ticks_def)
  ultimately show ?thesis using facts by (intro exI [of _ ?hist]) auto
qed

text \<open>
  C3: the recorder ends and reports. For well-typed samples, an idle sample and finite error counts,
  a run in which one clock reading has passed the time limit is over: \<open>cmd_run\<close> raises nothing,
  has at least one sample, has written each sample as one CSV row with the values in the order of
  the columns, and returns a stop reason, the summary dictionary and the summary page.
\<close>

theorem cmd_run_reports:
  assumes idle: "proper_row idle"
    and sp0: "Sampler_init (fs first) pid_out = Inr sp0"
    and obs: "samples (first # map fst ticks) sp0 = Inr (s0 # ss, sp')" "list_all proper_row ss"
    and start: "small x"
    and limit: "tk \<in> set ticks" "elapsed (max_time args) (now_max (snd tk)) (Fin x)"
    and errors: "\<And>k v. (k, v) \<in> set (prom_vector answer) \<Longrightarrow> finite_flt v"
  shows "\<exists>rec reason summary lines.
    cmd_run args (Some idle) pid_out first (Fin x) ticks answer = Inr (rec, Some (reason, summary, lines)) \<and>
    rows rec \<noteq> [] \<and> csv rec = map (\<lambda>s. map (get_or (VStr []) s) FIELDS) (rows rec)"
proof -
  obtain sp where sp: "sample first sp0 = Inr (s0, sp)" "samples (map fst ticks) sp = Inr (ss, sp')"
    using obs(1) by (auto simp: bindE_Inr_iff)
  have "count_state (run_start (Fin x))" by (simp add: count_state_def run_start_def)
  from run_loop_ends [OF sp(2) obs(2) start this, of args empty_recording] limit
  obtain rec r n where run: "run_loop args (Fin x) ticks (sp, run_start (Fin x), empty_recording) = Inr (rec, Some r)"
    and n: "rows rec = take n ss" "0 < n" "n \<le> length ss"
    by (auto simp: empty_recording_def)
  then have ne: "rows rec \<noteq> []" by auto
  have proper: "list_all proper_row (rows rec)"
    using obs(2) unfolding n(1) by (auto simp: list_all_iff dest: in_set_takeD)
  have csv: "csv rec = map (\<lambda>s. map (get_or (VStr []) s) FIELDS) (rows rec)"
    using run_loop_rows [OF run] by (auto simp: empty_recording_def)
  have "returns (write_summary (variant args) idle (rows rec) r (prom_vector answer))"
    by (rule write_summary_total [OF proper ne idle]) (rule errors)
  then obtain summary lines where "write_summary (variant args) idle (rows rec) r (prom_vector answer) = Inr (summary, lines)"
    by (auto simp: returns_def)
  then show ?thesis using ne csv by (auto simp: cmd_run_def sp0 sp(1) run)
qed

definition container_observation :: "int \<Rightarrow> int \<Rightarrow> observation" where
  "container_observation time conns = (server_observation 1000 time conns ''running false 0'')\<lparr>
     fs := (fs (server_observation 1000 time conns ''running false 0''))(''/proc/42/cgroup'' \<mapsto> cgroup_file [''0::/s''])\<rparr>"

theorem cmd_run_reports_witness:
  "\<exists>rec reason summary lines.
    cmd_run example_args (Some (example_row 0 0)) ''42'' (container_observation 998 0) (Fin 1000)
      [(container_observation 1002 500, clocks_at 1002), (container_observation 2800 900, clocks_at 2800)] None =
      Inr (rec, Some (reason, summary, lines))"
proof -
  let ?first = "container_observation 998 0"
  let ?ticks = "[(container_observation 1002 500, clocks_at 1002), (container_observation 2800 900, clocks_at 2800)]"
  have "bindE (Sampler_init (fs ?first) ''42'') (\<lambda>sp0. bindE (samples (?first # map fst ?ticks) sp0)
      (\<lambda>(ss, sp). Inr (list_all tidy_row (tl ss)))) = Inr True"
    by code_simp
  then obtain sp0 ss sp where sp0: "Sampler_init (fs ?first) ''42'' = Inr sp0"
    and ss: "samples (?first # map fst ?ticks) sp0 = Inr (ss, sp)" "list_all tidy_row (tl ss)"
    by (auto simp: bindE_Inr_iff)
  obtain s0 ss' where ss': "ss = s0 # ss'" using ss(1) by (auto simp: bindE_Inr_iff)
  have idle: "proper_row (example_row 0 0)" by (rule example_row_proper) simp_all
  have proper: "list_all proper_row ss'" using ss(2) ss' tidy_row_proper by (auto simp: list_all_iff)
  have small: "small 1000" using magnitude_facts(4) by (simp add: small_def)
  have limit: "elapsed (max_time example_args) (now_max (snd (container_observation 2800 900, clocks_at 2800))) (Fin 1000)"
    by code_simp
  show ?thesis
    using cmd_run_reports [OF idle sp0 ss(1) [unfolded ss'] proper small _ limit, of None]
    by (auto simp: prom_vector_def answer_data_def)
qed

end
