(* ===== verification/Compare.thy ===== *)
theory Compare
  imports Summary "HOL-Library.Multiset"
begin

text \<open>
  The comparison table, \<open>bench/local/compare.py\<close>: summaries of several runs are grouped by variant in
  the order the variants first appear, each group becomes one line with medians and ranges. The file
  system is an argument: the JSON value of a \<open>summary.json\<close>, \<open>Inl\<close> when it does not parse,
  \<open>None\<close> when there is no such file.
\<close>

section \<open>Grouping\<close>

type_synonym json_files = "string \<Rightarrow> pyval res option"

definition path_join :: "string \<Rightarrow> string \<Rightarrow> string" where
  "path_join d name = (if d = [] \<or> last d = CHR ''/'' then d @ name else d @ ''/'' @ name)"

text \<open>Equality of dictionary keys: numbers and booleans by value. A list or a dictionary cannot be a key.\<close>

fun same_key :: "pyval \<Rightarrow> pyval \<Rightarrow> bool" where
  "same_key VNone VNone = True"
| "same_key (VStr s) (VStr t) = (s = t)"
| "same_key a b = (case (num_of a, num_of b) of (Inr x, Inr y) \<Rightarrow> num_le x y \<and> num_le y x | _ \<Rightarrow> False)"

fun hashable :: "pyval \<Rightarrow> bool" where
  "hashable (VList xs) = False"
| "hashable (VDict d) = False"
| "hashable v = True"

type_synonym groups = "(pyval \<times> pyval list) list"

text \<open>\<open>groups.setdefault(key, []).append(s)\<close>.\<close>

fun add_run :: "pyval \<Rightarrow> pyval \<Rightarrow> groups \<Rightarrow> groups" where
  "add_run key s [] = [(key, [s])]"
| "add_run key s ((k, runs) # gs) =
     (if same_key k key then (k, runs @ [s]) # gs else (k, runs) # add_run key s gs)"

fun load_into :: "json_files \<Rightarrow> groups \<Rightarrow> string list \<Rightarrow> groups res" where
  "load_into files gs [] = Inr gs"
| "load_into files gs (d # ds) =
     (case files (path_join d ''summary.json'') of
        None \<Rightarrow> load_into files gs ds
      | Some content \<Rightarrow>
          bindE content (\<lambda>s.
          bindE (item_key ''variant'' s) (\<lambda>key.
            if hashable key then load_into files (add_run key s gs) ds else Inl TypeError)))"

definition load :: "json_files \<Rightarrow> string list \<Rightarrow> groups res" where
  "load files dirs = load_into files [] dirs"

section \<open>The median and its text\<close>

text \<open>
  \<open>sorted\<close> on numbers, by the comparison \<open>x < y\<close> only: equal numbers keep their order. The values
  come from summaries, which hold no NaN.
\<close>

fun insert_by :: "('a \<Rightarrow> 'a \<Rightarrow> bool) \<Rightarrow> 'a \<Rightarrow> 'a list \<Rightarrow> 'a list" where
  "insert_by lt x [] = [x]"
| "insert_by lt x (y # ys) = (if lt x y then x # y # ys else y # insert_by lt x ys)"

definition sort_by :: "('a \<Rightarrow> 'a \<Rightarrow> bool) \<Rightarrow> 'a list \<Rightarrow> 'a list" where
  "sort_by lt xs = fold (insert_by lt) xs []"

definition sort_nums :: "pynum list \<Rightarrow> pynum list" where
  "sort_nums xs = sort_by num_lt xs"

text \<open>\<open>statistics.median\<close>: the middle element, or half the sum of the two in the middle.\<close>

definition median :: "pynum list \<Rightarrow> pynum res" where
  "median data =
     (let xs = sort_nums data; n = length xs; i = n div 2 in
      if n = 0 then Inl ValueError
      else if odd n then Inr (xs ! i)
      else bindE (num_add (xs ! (i - 1)) (xs ! i)) (\<lambda>s.
           bindE (num_div s (PInt 2)) (\<lambda>q. Inr (PFlo q))))"

type_synonym formatter = "pynum \<Rightarrow> string res"

definition stat :: "pyval list \<Rightarrow> formatter \<Rightarrow> string res" where
  "stat values fmt =
     bindE (mapE num_of (filter (\<lambda>v. \<not> is_none v) values)) (\<lambda>vs.
       case vs of [] \<Rightarrow> Inr ''n/a''
       | v # ws \<Rightarrow>
           bindE (bindE (median vs) fmt) (\<lambda>mid.
             let lo = num_min v ws; hi = num_max v ws in
             if length vs = 1 \<or> (num_le lo hi \<and> num_le hi lo) then Inr mid
             else bindE (fmt lo) (\<lambda>a. bindE (fmt hi) (\<lambda>b.
                    Inr (mid @ '' ('' @ a @ '' to '' @ b @ '')'')))))"

definition count_fmt :: formatter where
  "count_fmt = fmt_num True 0"

definition kib_fmt :: formatter where
  "kib_fmt v = bindE (num_div v (PInt 1024)) (\<lambda>q. Inr (fmt_fixed False 2 q))"

definition pct_fmt :: formatter where
  "pct_fmt v = bindE (fmt_num False 0 v) (\<lambda>s. Inr (s @ ''%''))"

section \<open>Labels and the table\<close>

text \<open>\<open>v.get(key)\<close> of a value that must be a dictionary, \<open>None\<close> when the key is missing.\<close>

fun value_get :: "string \<Rightarrow> pyval \<Rightarrow> pyval res" where
  "value_get k (VDict d) = Inr (get_or VNone d k)"
| "value_get k v = Inl AttributeError"

definition stop_label :: "pyval \<Rightarrow> string res" where
  "stop_label run =
     bindE (value_get ''oom_killed'' run) (\<lambda>oom.
       if truthy oom then Inr ''OOM kill''
       else bindE (item_key ''stop_reason'' run) (\<lambda>reason.
         case reason of
           VStr s \<Rightarrow> Inr (if starts_with ''no growth'' s then ''stopped growing, server still up'' else s)
         | _ \<Rightarrow> Inl AttributeError))"

definition column :: "(pyval \<Rightarrow> pyval res) \<Rightarrow> formatter \<Rightarrow> pyval list \<Rightarrow> string res" where
  "column get fmt rows = bindE (mapE get rows) (\<lambda>vs. stat vs fmt)"

definition table_line :: "pyval \<times> pyval list \<Rightarrow> string res" where
  "table_line g = (case g of (variant, runs) \<Rightarrow>
     bindE (mapE (item_key ''bytes_per_connection'') runs) (\<lambda>b.
     bindE (mapE stop_label runs) (\<lambda>stops.
     bindE (str_scalar variant) (\<lambda>name.
     bindE (column (item_key ''peak_connections'') count_fmt runs) (\<lambda>peak.
     bindE (column (item_key ''cgroup_total'') kib_fmt b) (\<lambda>total.
     bindE (column (value_get ''kernel_other'') kib_fmt b) (\<lambda>kernel.
     bindE (column (item_key ''cgroup_anon'') kib_fmt b) (\<lambda>anon.
     bindE (column (item_key ''cpu_pct_near_peak_avg'') pct_fmt runs) (\<lambda>cpu.
     bindE (column (\<lambda>r. bindE (item_key ''at_peak'' r) (item_key ''echo_p99_ms'')) count_fmt runs) (\<lambda>p99.
       Inr (''| '' @ join '' | '' [''`'' @ name @ ''`'', show_int (int (length runs)), peak, total, kernel,
            anon, cpu, p99, join ''; '' (sort (remdups stops))] @ '' |'')))))))))))"

definition compare_main :: "json_files \<Rightarrow> string list \<Rightarrow> string list res" where
  "compare_main files dirs =
     bindE (load files dirs) (\<lambda>groups.
     bindE (mapE table_line groups) (\<lambda>lines.
       Inr ([''| Variant | Runs | Peak connections | KiB per connection | Kernel KiB | Go (anon) KiB | CPU near peak | Echo p99 ms | Stopped by |'',
             ''| --- | --- | --- | --- | --- | --- | --- | --- | --- |''] @ lines)))"

section \<open>Sorting by a comparison\<close>

lemma mset_insert_by [simp]: "mset (insert_by lt x ys) = add_mset x (mset ys)"
  by (induction ys) auto

lemma mset_sort_by [simp]: "mset (sort_by lt xs) = mset xs"
proof -
  have "mset (fold (insert_by lt) xs ys) = mset xs + mset ys" for ys
    by (induction xs arbitrary: ys) auto
  then show ?thesis by (simp add: sort_by_def)
qed

lemma set_sort_by [simp]: "set (sort_by lt xs) = set xs"
  by (metis mset_sort_by set_mset_mset)

lemma length_sort_by [simp]: "length (sort_by lt xs) = length xs"
  by (metis mset_sort_by size_mset)

lemma sort_by_empty [simp]: "sort_by lt xs = [] \<longleftrightarrow> xs = []"
  by (metis length_0_conv length_sort_by)

lemma set_insert_by [simp]: "set (insert_by lt x ys) = insert x (set ys)"
  by (metis mset_insert_by set_mset_add_mset_insert set_mset_mset)

text \<open>
  What the median needs of the comparison \<open>sorted\<close> uses: on the values that occur it is a strict
  weak order.
\<close>

locale comparison =
  fixes lt :: "'a \<Rightarrow> 'a \<Rightarrow> bool" and ok :: "'a \<Rightarrow> bool"
  assumes asym: "ok x \<Longrightarrow> ok y \<Longrightarrow> lt x y \<Longrightarrow> \<not> lt y x"
    and weak_trans: "ok x \<Longrightarrow> ok y \<Longrightarrow> ok z \<Longrightarrow> \<not> lt y x \<Longrightarrow> \<not> lt z y \<Longrightarrow> \<not> lt z x"
begin

lemma insert_sorted:
  "ok x \<Longrightarrow> list_all ok ys \<Longrightarrow> sorted_wrt (\<lambda>a b. \<not> lt b a) ys \<Longrightarrow> sorted_wrt (\<lambda>a b. \<not> lt b a) (insert_by lt x ys)"
proof (induction ys)
  case (Cons y ys)
  show ?case
  proof (cases "lt x y")
    case True
    have "\<not> lt z x" if "z \<in> set (y # ys)" for z
    proof (cases "z = y")
      case False
      then have "\<not> lt z y" "ok z" using Cons.prems that by (auto simp: list_all_iff)
      then show ?thesis using weak_trans [of x y z] asym [of x y] True Cons.prems by auto
    qed (use asym [of x y] True Cons.prems in auto)
    then show ?thesis using True Cons.prems by simp
  next
    case False
    then show ?thesis using Cons by auto
  qed
qed simp

lemma sort_sorted:
  assumes "list_all ok xs"
  shows "sorted_wrt (\<lambda>a b. \<not> lt b a) (sort_by lt xs)"
proof -
  have "sorted_wrt (\<lambda>a b. \<not> lt b a) (fold (insert_by lt) xs ys)"
    if "list_all ok xs" "list_all ok ys" "sorted_wrt (\<lambda>a b. \<not> lt b a) ys" for ys
    using that
  proof (induction xs arbitrary: ys)
    case (Cons x xs)
    have "list_all ok (insert_by lt x ys)" using Cons.prems by (auto simp: list_all_iff)
    then show ?case using Cons.IH [of "insert_by lt x ys"] insert_sorted [of x ys] Cons.prems by simp
  qed simp
  then show ?thesis using assms by (simp add: sort_by_def)
qed

text \<open>The element at position \<open>i\<close> has \<open>i + 1\<close> elements not above it and \<open>n - i\<close> not below it.\<close>

lemma rank:
  assumes xs: "list_all ok xs" and i: "i < length xs"
  shows "i + 1 \<le> length (filter (\<lambda>x. \<not> lt (sort_by lt xs ! i) x) xs)"
    and "length xs - i \<le> length (filter (\<lambda>x. \<not> lt x (sort_by lt xs ! i)) xs)"
proof -
  let ?s = "sort_by lt xs"
  have ord: "\<not> lt (?s ! k) (?s ! j)" if "j \<le> k" "k < length xs" for j k
  proof (cases "j = k")
    case True
    have "ok (?s ! k)" using xs that nth_mem [of k ?s] by (simp add: list_all_iff)
    then show ?thesis using asym True by blast
  next
    case False
    then show ?thesis using sort_sorted [OF xs] that by (simp add: sorted_wrt_iff_nth_less)
  qed
  have len: "length (filter P xs) = length (filter P ?s)" for P
    by (metis mset_filter mset_sort_by size_mset)
  have split: "length (filter P ?s) = length (filter P (take k ?s)) + length (filter P (drop k ?s))" for P k
    by (metis append_take_drop_id filter_append length_append)
  have "filter (\<lambda>x. \<not> lt (?s ! i) x) (take (i + 1) ?s) = take (i + 1) ?s"
    unfolding filter_id_conv using i ord by (auto simp: in_set_conv_nth less_Suc_eq_le)
  then show "i + 1 \<le> length (filter (\<lambda>x. \<not> lt (?s ! i) x) xs)"
    unfolding len split [where k = "i + 1"] using i by simp
  have "filter (\<lambda>x. \<not> lt x (?s ! i)) (drop i ?s) = drop i ?s"
    unfolding filter_id_conv using i ord by (auto simp: in_set_conv_nth)
  then show "length xs - i \<le> length (filter (\<lambda>x. \<not> lt x (?s ! i)) xs)"
    unfolding len split [where k = i] by simp
qed

end

interpretation nums: comparison num_lt "\<lambda>x. exact x \<noteq> NaN"
proof
  fix x y z :: pynum
  assume ok: "exact x \<noteq> NaN" "exact y \<noteq> NaN" "exact z \<noteq> NaN"
  show "\<not> num_lt z x" if "\<not> num_lt y x" "\<not> num_lt z y"
    using that ok exact_le_trans [of x y z] by (simp add: num_not_lt)
next
  fix x y :: pynum
  show "\<not> num_lt y x" if "num_lt x y" using that by (simp add: num_lt_def less_flt_def)
qed


section \<open>The median\<close>

lemma length_filter_mono: "(\<And>x. P x \<Longrightarrow> Q x) \<Longrightarrow> length (filter P xs) \<le> length (filter Q xs)"
  by (induction xs) (auto intro: le_SucI)

text \<open>A number that is a double of a size whose sums do not overflow.\<close>

definition plain_num :: "pynum \<Rightarrow> bool" where
  "plain_num n \<longleftrightarrow> (\<exists>q. exact n = Fin q \<and> rnd q = q \<and> \<bar>q\<bar> \<le> magnitude)"

lemma plain_to_float: "exact n = Fin q \<Longrightarrow> rnd q = q \<Longrightarrow> \<bar>q\<bar> \<le> magnitude \<Longrightarrow> to_float n = Inr (Fin q)"
  using magnitude_facts(2) by (cases n) (auto simp: mk_medium)

lemma midpoint:
  assumes a: "exact a = Fin p" "rnd p = p" "\<bar>p\<bar> \<le> magnitude"
    and b: "exact b = Fin q" "rnd q = q" "\<bar>q\<bar> \<le> magnitude" and le: "p \<le> q"
  shows "\<exists>m. bindE (num_add a b) (\<lambda>s. num_div s (PInt 2)) = Inr (Fin m) \<and> p \<le> m \<and> m \<le> q"
proof -
  have pq: "\<bar>p + q\<bar> \<le> 2 * magnitude" using a b by linarith
  have half: "rnd p \<le> rnd (z / 2)" "rnd (z / 2) \<le> rnd q" if "2 * p \<le> z" "z \<le> 2 * q" for z
    using that by (auto intro!: rnd_mono)
  show ?thesis
  proof (cases "\<exists>i j. a = PInt i \<and> b = PInt j")
    case True
    then obtain i j where ij: "a = PInt i" "b = PInt j" by blast
    then have i: "of_int i = p" "of_int j = q" using a b by simp_all
    have "mk ((p + q) / 2) = Fin (rnd ((p + q) / 2))" using pq magnitude_facts(2) by (intro mk_medium) simp
    moreover have "of_int (i + j) = p + q" using i by simp
    ultimately have "bindE (num_add a b) (\<lambda>s. num_div s (PInt 2)) = Inr (Fin (rnd ((p + q) / 2)))"
      by (simp add: ij del: of_int_add)
    then show ?thesis using half [of "p + q"] le a(2) b(2) by simp
  next
    case False
    have "rnd (2 * p) \<le> rnd (p + q)" "rnd (p + q) \<le> rnd (2 * q)" using le by (auto intro!: rnd_mono)
    then have s: "2 * p \<le> rnd (p + q)" "rnd (p + q) \<le> 2 * q" using a b by (simp_all add: rnd_twice)
    then have s2: "\<bar>rnd (p + q)\<bar> \<le> 2 * magnitude" using a(3) b(3) by linarith
    have "mk (p + q) = Fin (rnd (p + q))" using pq magnitude_facts(2) by (intro mk_medium) simp
    then have add: "num_add a b = Inr (PFlo (Fin (rnd (p + q))))"
      using False plain_to_float [OF a] plain_to_float [OF b] by (cases a; cases b) (auto simp: on_floats_def)
    have "fdiv (Fin (rnd (p + q))) (Fin 2) = Fin (rnd (rnd (p + q) / 2))"
      using s2 magnitude_facts(2) by (intro fdiv_Fin) simp_all
    moreover have "to_float (PInt 2) = Inr (Fin 2)"
      using magnitude_facts(2) rnd_int [of 2] by (simp add: mk_medium)
    ultimately have "num_div (PFlo (Fin (rnd (p + q)))) (PInt 2) = Inr (Fin (rnd (rnd (p + q) / 2)))" by simp
    then show ?thesis using add half [OF s] a b by simp
  qed
qed

section \<open>Groups\<close>

definition variant_of :: "pyval \<Rightarrow> string" where
  "variant_of s = (case item_key ''variant'' s of Inr (VStr v) \<Rightarrow> v | _ \<Rightarrow> [])"

definition named_run :: "pyval \<Rightarrow> bool" where
  "named_run s \<longleftrightarrow> item_key ''variant'' s = Inr (VStr (variant_of s))"

text \<open>The summaries that exist, in the order of the command line.\<close>

definition found :: "json_files \<Rightarrow> string list \<Rightarrow> pyval res list" where
  "found files dirs = List.map_filter (\<lambda>d. files (path_join d ''summary.json'')) dirs"

text \<open>
  The specification of grouping: the different variants in the order they first appear, each with its
  runs in order.
\<close>

definition grouped :: "pyval list \<Rightarrow> groups" where
  "grouped ss = map (\<lambda>v. (VStr v, filter (\<lambda>s. variant_of s = v) ss)) (rev (remdups (rev (map variant_of ss))))"

lemma add_run_named:
  "distinct us \<Longrightarrow> add_run (VStr v) s (map (\<lambda>u. (VStr u, f u)) us) =
     (if v \<in> set us then map (\<lambda>u. (VStr u, if u = v then f u @ [s] else f u)) us
      else map (\<lambda>u. (VStr u, f u)) us @ [(VStr v, [s])])"
  by (induction us) auto

lemma grouped_snoc:
  "named_run s \<Longrightarrow> add_run (VStr (variant_of s)) s (grouped ss) = grouped (ss @ [s])"
proof -
  let ?v = "variant_of s" and ?us = "rev (remdups (rev (map variant_of ss)))"
  have "?v \<notin> set ?us \<Longrightarrow> filter (\<lambda>x. variant_of x = ?v) ss = []" by (auto simp: filter_empty_conv image_iff)
  then show ?thesis
    unfolding grouped_def by (subst add_run_named) (auto simp: image_iff)
qed

text \<open>Every \<open>summary.json\<close> among the directories parses and names its variant.\<close>

definition named_files :: "json_files \<Rightarrow> string list \<Rightarrow> bool" where
  "named_files files dirs \<longleftrightarrow>
     list_all (\<lambda>d. case files (path_join d ''summary.json'') of
       None \<Rightarrow> True | Some (Inl e) \<Rightarrow> False | Some (Inr s) \<Rightarrow> named_run s) dirs"

lemma load_into_grouped:
  assumes "named_files files ds"
  shows "\<exists>ss. found files ds = map Inr ss \<and> list_all named_run ss \<and>
    load_into files (grouped rs) ds = Inr (grouped (rs @ ss))"
  using assms
proof (induction ds arbitrary: rs)
  case Nil
  then show ?case by (simp add: found_def map_filter_simps)
next
  case (Cons d ds)
  show ?case
  proof (cases "files (path_join d ''summary.json'')")
    case None
    then show ?thesis using Cons by (simp add: found_def map_filter_simps named_files_def)
  next
    case (Some c)
    then obtain s where s: "c = Inr s" "named_run s"
      using Cons.prems by (cases c) (auto simp: named_files_def)
    obtain ss where "found files ds = map Inr ss" "list_all named_run ss"
      "load_into files (grouped (rs @ [s])) ds = Inr (grouped ((rs @ [s]) @ ss))"
      using Cons.IH [of "rs @ [s]"] Cons.prems by (auto simp: named_files_def)
    then show ?thesis using Some s
      using s(2) [unfolded named_run_def]
      by (intro exI [of _ "s # ss"]) (simp add: found_def map_filter_simps grouped_snoc)
  qed
qed

lemma grouped_Nil: "grouped [] = []"
  by (simp add: grouped_def)

section \<open>Summaries of the recorder\<close>

text \<open>What the table needs of a summary, and that the recorder writes such summaries.\<close>

fun fits :: "pynum \<Rightarrow> bool" where
  "fits (PInt i) = (\<bar>of_int i\<bar> \<le> 9 * magnitude)"
| "fits (PFlo x) = True"

definition cell_value :: "pyval \<Rightarrow> bool" where
  "cell_value v \<longleftrightarrow> v = VNone \<or> (\<exists>n. v = VNum n \<and> fits n)"

definition tidy_summary :: "pyval \<Rightarrow> bool" where
  "tidy_summary s \<longleftrightarrow> (\<exists>d pk b.
     s = VDict d \<and> named_run s \<and> (\<exists>r. map_of d ''stop_reason'' = Some (VStr r)) \<and>
     (\<exists>v. map_of d ''peak_connections'' = Some v \<and> cell_value v) \<and>
     (\<exists>v. map_of d ''cpu_pct_near_peak_avg'' = Some v \<and> cell_value v) \<and>
     map_of d ''bytes_per_connection'' = Some (VDict b) \<and> keys b = map fst BYTES \<and>
     (\<forall>k v. map_of b k = Some v \<longrightarrow> cell_value v) \<and>
     map_of d ''at_peak'' = Some (VDict pk) \<and> (\<exists>v. map_of pk ''echo_p99_ms'' = Some v \<and> cell_value v))"

lemma big: "18 * magnitude \<le> 2 ^ 1023"
proof -
  have "18 * magnitude \<le> 2 ^ 1005" by (simp add: magnitude_def)
  also have "\<dots> \<le> 2 ^ 1023" by (rule power_increasing) simp_all
  finally show ?thesis .
qed

lemma small_fits: "small_num n \<Longrightarrow> fits n"
  using magnitude_facts(2) by (cases n) (auto simp: small_def)

lemma recorder_summary_tidy:
  assumes rows: "list_all proper_row rows" "rows \<noteq> []" and idle: "proper_row idle"
    and s: "summary_dict var idle rows reason errors = Inr s"
  shows "tidy_summary (VDict s) \<and> variant_of (VDict s) = var"
  using s
proof (rule summary_dictE)
  fix lv peak sc conns pc target pk b err f st sv mp dur cpu
  assume lv: "live_rows rows = Inr lv" and p: "peak_row rows lv = Inr peak"
    and c: "sub peak ''server_conns'' = Inr sc" "num_of (or_zero sc) = Inr conns" "num_trunc conns = Inr pc"
    and pk: "mapE (\<lambda>k. bindE (sub peak k) (\<lambda>v. Inr (k, v))) (filter (\<lambda>k. k \<noteq> ''t'' \<and> k \<noteq> ''state'') FIELDS) = Inr pk"
    and b: "bytes_per_connection peak idle conns = Inr b"
    and sd: "s = [(''variant'', VStr var), (''stop_reason'', VStr reason),
            (''duration_s'', VNum (PInt dur)), (''peak_connections'', VNum (PInt pc)),
            (''loadgen_target'', target), (''at_peak'', VDict pk),
            (''idle'', VDict (map (\<lambda>k. (k, get_or VNone idle k)) IDLE_KEYS)),
            (''bytes_per_connection'', VDict b),
            (''cpu_pct_near_peak_avg'', cpu_average cpu),
            (''final_state'', VStr f),
            (''oom_killed'', VBool (contains '' true '' ('' '' @ f @ '' ''))),
            (''cgroup_memory_peak'', mp),
            (''dial_errors_by_reason'', VDict (map (\<lambda>(k, n). (k, VNum (PInt n))) err))]"
  have "peak \<in> set rows" using peak_proper [OF rows] p lv live_rows_proper [OF rows(1)] by auto
  then have peak: "proper_row peak" using rows(1) by (simp add: list_all_iff)
  then have cn: "count_num conns" using conns_count [OF peak] c(1,2) by auto
  have pc: "fits (PInt pc)"
  proof -
    have "\<bar>pc\<bar> \<le> 2 ^ 53" using cn c(3) by (auto simp: count_num_def)
    then have "\<bar>of_int pc :: rat\<bar> \<le> 2 ^ 53" by (metis of_int_abs of_int_le_iff of_int_numeral of_int_power)
    then show ?thesis using magnitude_facts(2,4) by simp
  qed
  have bytes: "keys b = map fst BYTES" "\<And>k v. map_of b k = Some v \<Longrightarrow> cell_value v"
  proof -
    obtain b' where b': "bytes_per_connection peak idle conns = Inr b'" "keys b' = map fst BYTES"
      "\<forall>k v. map_of b' k = Some v \<longrightarrow> byte_value v" using bytes_total [OF peak idle cn] by blast
    have "byte_value v \<Longrightarrow> cell_value v" for v by (auto simp: byte_value_def cell_value_def)
    then show "keys b = map fst BYTES" "\<And>k v. map_of b k = Some v \<Longrightarrow> cell_value v" using b b' by auto
  qed
  have "\<exists>v. map_of peak ''echo_p99_ms'' = Some v \<and> num_or_none v"
    by (rule proper_num [OF peak]) (simp_all add: FIELDS_def)
  then obtain v where v: "map_of peak ''echo_p99_ms'' = Some v" "cell_value v"
    using small_fits by (auto simp: num_or_none_def cell_value_def)
  have "map_of pk ''echo_p99_ms'' = map_of peak ''echo_p99_ms''"
    by (rule copied_keys [OF pk]) (simp add: FIELDS_def)
  with v have p99: "map_of pk ''echo_p99_ms'' = Some v" by simp
  have "cell_value (cpu_average cpu)" by (simp add: cpu_average_def cell_value_def)
  moreover have "variant_of (VDict s) = var" by (simp add: variant_of_def sd sub_def)
  moreover have "named_run (VDict s)" by (simp add: named_run_def variant_of_def sd sub_def)
  ultimately show ?thesis using pc bytes p99 v(2)
    by (auto simp: tidy_summary_def sd cell_value_def)
qed

lemma median_fits: "vs \<noteq> [] \<Longrightarrow> list_all fits vs \<Longrightarrow> \<exists>m. median vs = Inr m \<and> fits m"
proof -
  assume ne: "vs \<noteq> []" and vs: "list_all fits vs"
  have mem: "fits (sort_nums vs ! k)" if "k < length vs" for k
  proof -
    have "sort_nums vs ! k \<in> set vs" using that nth_mem [of k "sort_nums vs"] by (simp add: sort_nums_def)
    then show ?thesis using vs by (simp add: list_all_iff)
  qed
  show ?thesis
  proof (cases "odd (length vs)")
    case True
    then show ?thesis using ne mem [of "length vs div 2"] by (simp add: median_def Let_def sort_nums_def)
  next
    case False
    have flt: "\<exists>x. to_float n = Inr x" if "fits n" for n
    proof (cases n)
      case (PInt i)
      then have "\<bar>of_int i :: rat\<bar> \<le> 9 * magnitude" using that by simp
      also have "\<dots> \<le> 2 ^ 1023" using big by simp
      finally show ?thesis using PInt mk_bounded by simp
    qed simp
    have "\<exists>q. bindE (num_add a b) (\<lambda>s. num_div s (PInt 2)) = Inr q" if fa: "fits a" and fb: "fits b" for a b
    proof (cases "\<exists>i j. a = PInt i \<and> b = PInt j")
      case True
      then obtain i j where ij: "a = PInt i" "b = PInt j" by blast
      then have "\<bar>of_int (i + j) :: rat\<bar> \<le> 18 * magnitude" using that by simp
      then have "\<bar>of_int (i + j) / 2 :: rat\<bar> \<le> 2 ^ 1023" using big by simp
      then show ?thesis using ij mk_bounded by simp
    next
      case False
      obtain x y where "to_float a = Inr x" "to_float b = Inr y" using flt [OF fa] flt [OF fb] by blast
      then have "num_add a b = Inr (PFlo (x + y))"
        using False by (cases a; cases b) (auto simp: on_floats_def)
      moreover have "to_float (PInt 2) = Inr (Fin 2)" using magnitude_facts(2) rnd_int [of 2] by (simp add: mk_medium)
      ultimately show ?thesis by simp
    qed
    moreover have "length vs div 2 - 1 < length vs" "length vs div 2 < length vs"
      using ne by (auto simp: less_imp_diff_less)
    ultimately obtain q where "bindE (num_add (sort_nums vs ! (length vs div 2 - 1)) (sort_nums vs ! (length vs div 2)))
        (\<lambda>s. num_div s (PInt 2)) = Inr q" using mem by blast
    then show ?thesis using False ne by (auto simp: median_def Let_def sort_nums_def bindE_Inr_iff)
  qed
qed


lemma num_min_fits: "list_all fits (v # vs) \<Longrightarrow> fits (num_min v vs) \<and> fits (num_max v vs)"
  using num_min_in [of v vs] num_max_in [of v vs] by (auto simp: list_all_iff)

lemma stat_returns:
  assumes vs: "list_all cell_value vs" and fmt: "\<And>n. fits n \<Longrightarrow> returns (fmt n)"
  shows "returns (stat vs fmt)"
proof -
  have "\<exists>n. num_of v = Inr n \<and> fits n" if "v \<in> set (filter (\<lambda>v. \<not> is_none v) vs)" for v
    using that vs by (auto simp: list_all_iff cell_value_def is_none_def)
  then obtain g where g: "num_of v = Inr (g v) \<and> fits (g v)" if "v \<in> set (filter (\<lambda>v. \<not> is_none v) vs)" for v
    by metis
  let ?ns = "map g (filter (\<lambda>v. \<not> is_none v) vs)"
  have ns: "mapE num_of (filter (\<lambda>v. \<not> is_none v) vs) = Inr ?ns" using g by (intro mapE_total) blast
  have fits: "list_all fits ?ns" using g by (auto simp: list_all_iff)
  show ?thesis
  proof (cases "?ns")
    case Nil
    then show ?thesis by (simp add: stat_def ns del: map_is_Nil_conv)
  next
    case (Cons n ms)
    obtain m where "median (n # ms) = Inr m" "fits m" using median_fits [of "n # ms"] fits Cons by auto
    moreover have "fits (num_min n ms)" "fits (num_max n ms)" using num_min_fits [of n ms] fits Cons by auto
    ultimately have "median (n # ms) = Inr m" "returns (fmt m)" "returns (fmt (num_min n ms))" "returns (fmt (num_max n ms))"
      using fmt by blast+
    then show ?thesis by (auto simp: stat_def ns Cons Let_def intro!: returns_intro)
  qed
qed

lemma fits_float: "fits n \<Longrightarrow> returns (to_float n)"
proof -
  assume n: "fits n"
  show ?thesis
  proof (cases n)
    case (PInt i)
    then have "\<bar>of_int i :: rat\<bar> \<le> 2 ^ 1023" using n big magnitude_facts(2) by simp
    then show ?thesis using PInt mk_bounded by (simp add: returns_def)
  qed simp
qed

lemma formats_return [returns_intro]:
  assumes n: "fits n"
  shows "returns (count_fmt n)" "returns (pct_fmt n)" "returns (kib_fmt n)"
proof -
  show "returns (count_fmt n)" "returns (pct_fmt n)"
    using fits_float [OF n] by (auto simp: count_fmt_def pct_fmt_def fmt_num_def intro!: returns_intro)
  have "to_float (PInt 1024) = Inr (Fin 1024)"
    using magnitude_facts(4) rnd_int [of 1024] by (simp add: mk_medium)
  moreover have "\<exists>r. mk (of_int i / 1024) = Fin r" if "\<bar>of_int i\<bar> \<le> 9 * magnitude" for i
  proof -
    have "\<bar>of_int i / 1024 :: rat\<bar> \<le> 2 ^ 1023" using that big magnitude_facts(2) by simp
    then show ?thesis using mk_bounded by blast
  qed
  ultimately have "returns (num_div n (PInt 1024))"
    using n by (cases n) (fastforce simp: returns_def)+
  then show "returns (kib_fmt n)" by (auto simp: kib_fmt_def intro!: returns_intro)
qed

lemma column_returns:
  assumes "\<And>r. r \<in> set rows \<Longrightarrow> \<exists>v. get r = Inr v \<and> cell_value v" "\<And>n. fits n \<Longrightarrow> returns (fmt n)"
  shows "returns (column get fmt rows)"
proof -
  obtain g where g: "get r = Inr (g r) \<and> cell_value (g r)" if "r \<in> set rows" for r using assms(1) by metis
  have "mapE get rows = Inr (map g rows)" using g by (intro mapE_total) blast
  moreover have "returns (stat (map g rows) fmt)" using g assms(2) by (intro stat_returns) (auto simp: list_all_iff)
  ultimately show ?thesis by (simp add: column_def)
qed

lemma stop_label_returns: "tidy_summary r \<Longrightarrow> returns (stop_label r)"
  by (auto simp: tidy_summary_def stop_label_def sub_def intro!: returns_intro)

lemma table_line_returns:
  assumes runs: "list_all tidy_summary runs"
  shows "returns (table_line (VStr var, runs))"
proof -
  have "\<exists>b. item_key ''bytes_per_connection'' r = Inr (VDict b) \<and> keys b = map fst BYTES \<and>
      (\<forall>k v. map_of b k = Some v \<longrightarrow> cell_value v)" if "r \<in> set runs" for r
    using runs that by (fastforce simp: list_all_iff tidy_summary_def sub_def)
  then obtain g where g: "item_key ''bytes_per_connection'' r = Inr (VDict (g r)) \<and> keys (g r) = map fst BYTES \<and>
      (\<forall>k v. map_of (g r) k = Some v \<longrightarrow> cell_value v)" if "r \<in> set runs" for r by metis
  have b: "mapE (item_key ''bytes_per_connection'') runs = Inr (map (\<lambda>r. VDict (g r)) runs)"
    using g by (intro mapE_total) blast
  have cell: "\<exists>v. map_of (g r) k = Some v \<and> cell_value v" if "r \<in> set runs" "k \<in> fst ` set BYTES" for r k
    using g [OF that(1)] that(2) keys_map_of [of "g r" k] by (cases "map_of (g r) k") auto
  have cols: "returns (column (item_key k) kib_fmt (map (\<lambda>r. VDict (g r)) runs))"
    "returns (column (value_get k) kib_fmt (map (\<lambda>r. VDict (g r)) runs))" if "k \<in> fst ` set BYTES" for k
    using cell that by (fastforce intro!: column_returns formats_return simp: sub_def get_or_def)+
  have stops: "returns (mapE stop_label runs)"
    using runs stop_label_returns by (intro returns_mapE) (simp add: list_all_iff)
  have scalar: "returns (column (item_key k) fmt runs)"
    if "k \<in> {''peak_connections'', ''cpu_pct_near_peak_avg''}" "\<And>n. fits n \<Longrightarrow> returns (fmt n)" for k fmt
    using runs that by (intro column_returns) (fastforce simp: list_all_iff tidy_summary_def sub_def)+
  have p99: "returns (column (\<lambda>r. bindE (item_key ''at_peak'' r) (item_key ''echo_p99_ms'')) count_fmt runs)"
    using runs by (intro column_returns formats_return) (fastforce simp: list_all_iff tidy_summary_def sub_def)+
  have k: "''cgroup_total'' \<in> fst ` set BYTES" "''kernel_other'' \<in> fst ` set BYTES" "''cgroup_anon'' \<in> fst ` set BYTES"
    by (simp_all add: BYTES_def)
  show ?thesis
    unfolding table_line_def prod.case b bindE.simps str_scalar.simps
    by (rule stops cols(1) [OF k(1)] cols(1) [OF k(3)] cols(2) [OF k(2)] scalar p99 returns_Inr returns_bind
        | simp add: formats_return)+
qed

lemma compare_main_returns:
  assumes "named_files files dirs"
    and "\<And>s. Inr s \<in> set (found files dirs) \<Longrightarrow> tidy_summary s"
  shows "\<exists>ss lines. found files dirs = map Inr ss \<and> compare_main files dirs = Inr lines \<and>
    length lines = 2 + length (remdups (map variant_of ss))"
proof -
  obtain ss where ss: "found files dirs = map Inr ss" "load files dirs = Inr (grouped ss)"
    using load_into_grouped [OF assms(1), of "[]"] by (auto simp: load_def grouped_Nil)
  have "list_all tidy_summary ss" using assms(2) ss(1) by (auto simp: list_all_iff)
  then have "returns (mapE table_line (grouped ss))"
    by (intro returns_mapE) (auto simp: grouped_def list_all_iff intro!: table_line_returns)
  then obtain ls where ls: "mapE table_line (grouped ss) = Inr ls" by (auto simp: returns_def)
  then have "length ls = length (grouped ss)" by (auto simp: mapE_Inr_iff list_all2_lengthD)
  also have "\<dots> = length (remdups (map variant_of ss))"
    by (simp add: grouped_def length_remdups_card_conv)
  finally show ?thesis using ss ls by (simp add: compare_main_def)
qed

section \<open>Properties\<close>

text \<open>The ranks in the sorted list, as counts of values on each side.\<close>

lemma sort_nums_mem: "k < length vs \<Longrightarrow> sort_nums vs ! k \<in> set vs"
  using nth_mem [of k "sort_nums vs"] by (simp add: sort_nums_def)

lemma sort_nums_rank:
  assumes "list_all plain_num vs" "k < length vs"
  shows "Suc k \<le> length (filter (\<lambda>v. num_le v (sort_nums vs ! k)) vs)"
    "length vs - k \<le> length (filter (num_le (sort_nums vs ! k)) vs)"
proof -
  let ?x = "sort_nums vs ! k"
  have ok: "list_all (\<lambda>x. exact x \<noteq> NaN) vs" using assms(1) by (auto simp: list_all_iff plain_num_def)
  have "\<not> num_lt ?x v \<longleftrightarrow> num_le v ?x" "\<not> num_lt v ?x \<longleftrightarrow> num_le ?x v" if "v \<in> set vs" for v
    using ok that sort_nums_mem [OF assms(2)] num_not_lt by (auto simp: list_all_iff)
  then have "filter (\<lambda>v. \<not> num_lt ?x v) vs = filter (\<lambda>v. num_le v ?x) vs" "filter (\<lambda>v. \<not> num_lt v ?x) vs = filter (num_le ?x) vs"
    by (auto intro!: filter_cong)
  with nums.rank [OF ok assms(2), folded sort_nums_def]
  show "Suc k \<le> length (filter (\<lambda>v. num_le v ?x) vs)" "length vs - k \<le> length (filter (num_le ?x) vs)" by simp_all
qed

text \<open>For an even number of values the median lies between the two middle ones.\<close>

lemma median_even:
  assumes vs: "vs \<noteq> []" "list_all plain_num vs" and n: "length vs = 2 * (length vs div 2)" "0 < length vs div 2"
  defines "lo \<equiv> sort_nums vs ! (length vs div 2 - 1)" and "hi \<equiv> sort_nums vs ! (length vs div 2)"
  shows "\<exists>m. median vs = Inr m \<and> (\<forall>v. num_le v lo \<longrightarrow> num_le v m) \<and> (\<forall>v. num_le hi v \<longrightarrow> num_le m v)"
proof -
  have ok: "list_all (\<lambda>x. exact x \<noteq> NaN) vs" using vs(2) by (auto simp: list_all_iff plain_num_def)
  have ij: "length vs div 2 - 1 < length vs" "length vs div 2 < length vs" using n by linarith+
  obtain p where p: "exact lo = Fin p" "rnd p = p" "\<bar>p\<bar> \<le> magnitude"
    using sort_nums_mem [OF ij(1)] vs(2) by (auto simp: list_all_iff plain_num_def lo_def)
  obtain q where q: "exact hi = Fin q" "rnd q = q" "\<bar>q\<bar> \<le> magnitude"
    using sort_nums_mem [OF ij(2)] vs(2) by (auto simp: list_all_iff plain_num_def hi_def)
  have "\<not> num_lt hi lo" unfolding lo_def hi_def
    using nums.sort_sorted [OF ok] ij n(2) by (simp add: sort_nums_def sorted_wrt_iff_nth_less)
  then have "num_le lo hi" by (subst (asm) num_not_lt) (simp_all only: p q flt.distinct not_False_eq_True)
  then have "p \<le> q" unfolding num_le_def p(1) q(1) by simp
  then obtain m where m: "bindE (num_add lo hi) (\<lambda>s. num_div s (PInt 2)) = Inr (Fin m)" "p \<le> m" "m \<le> q"
    using midpoint [OF p q] by blast
  have "even (length vs)" using n(1) by presburger
  then have "median vs = Inr (PFlo (Fin m))"
    using vs(1) m(1) by (auto simp: median_def sort_nums_def Let_def bindE_Inr_iff lo_def hi_def)
  moreover have "num_le v (PFlo (Fin m))" if "num_le v lo" for v
    by (rule exact_le_trans [OF that]) (simp only: num_le_def p(1) exact.simps less_eq_flt.simps m(2))
  moreover have "num_le (PFlo (Fin m)) v" if "num_le hi v" for v
    by (rule exact_le_trans [OF _ that]) (simp only: num_le_def q(1) exact.simps less_eq_flt.simps m(3))
  ultimately show ?thesis by blast
qed

text \<open>At least half of the values lie on each side of the median, also when the two middle ones are averaged.\<close>

lemma median_halves:
  assumes vs: "vs \<noteq> []" "list_all plain_num vs"
  shows "\<exists>m. median vs = Inr m \<and>
    length vs \<le> 2 * length (filter (\<lambda>v. num_le v m) vs) \<and> length vs \<le> 2 * length (filter (num_le m) vs)"
proof -
  let ?s = "sort_nums vs" and ?i = "length vs div 2"
  have i: "?i < length vs" using vs(1) by (simp add: Suc_leI)
  note r1 = sort_nums_rank [OF vs(2) i]
  show ?thesis
  proof (cases "odd (length vs)")
    case True
    then have "median vs = Inr (?s ! ?i)" using vs(1) by (simp add: median_def sort_nums_def Let_def)
    moreover have "length vs = 2 * ?i + 1" using True by simp
    ultimately show ?thesis using r1 by auto
  next
    case False
    have n: "length vs = 2 * ?i" using False by simp
    moreover have "0 < length vs" using vs(1) by simp
    ultimately have n0: "0 < ?i" by linarith
    then have j: "?i - 1 < length vs" using n by linarith
    note r0 = sort_nums_rank [OF vs(2) j]
    obtain m where m: "median vs = Inr m" "\<And>v. num_le v (?s ! (?i - 1)) \<Longrightarrow> num_le v m" "\<And>v. num_le (?s ! ?i) v \<Longrightarrow> num_le m v"
      using median_even [OF vs n n0] by blast
    have "length (filter (\<lambda>v. num_le v (?s ! (?i - 1))) vs) \<le> length (filter (\<lambda>v. num_le v m) vs)"
      "length (filter (num_le (?s ! ?i)) vs) \<le> length (filter (num_le m) vs)"
      using m(2,3) by (auto intro!: length_filter_mono)
    then show ?thesis using m(1) n n0 r0(1) r1(2) by (intro exI [of _ m]) linarith
  qed
qed

text \<open>The values of a column that are there, and what \<open>stat\<close> can be given: numbers and missing values.\<close>

definition present :: "pyval list \<Rightarrow> pynum list" where
  "present vals = List.map_filter (\<lambda>v. case v of VNum n \<Rightarrow> Some n | _ \<Rightarrow> None) vals"

definition plain_cell :: "pyval \<Rightarrow> bool" where
  "plain_cell v \<longleftrightarrow> v = VNone \<or> (\<exists>n. v = VNum n \<and> plain_num n)"

lemma present_nums:
  "list_all plain_cell vals \<Longrightarrow>
     mapE num_of (filter (\<lambda>v. \<not> is_none v) vals) = Inr (present vals) \<and> list_all plain_num (present vals)"
  by (induction vals) (auto simp: present_def map_filter_simps plain_cell_def is_none_def)

text \<open>
  C11: A cell of the table reports the values that are there and only those: \<open>n/a\<close> when all are missing;
  otherwise a median, with at least half of the values not above it and at least half not below it, followed,
  when the values differ, by the smallest and the largest of them. Whatever the formatter, nothing else is
  formatted and only the formatter can raise.
\<close>

theorem stat_reports:
  assumes "list_all plain_cell vals"
  shows "if present vals = [] then stat vals fmt = Inr ''n/a'' else
    \<exists>m lo hi. length (present vals) \<le> 2 * length (filter (\<lambda>v. num_le v m) (present vals)) \<and>
      length (present vals) \<le> 2 * length (filter (num_le m) (present vals)) \<and>
      lo \<in> set (present vals) \<and> hi \<in> set (present vals) \<and>
      (\<forall>v \<in> set (present vals). num_le lo v \<and> num_le v hi) \<and>
      stat vals fmt = bindE (fmt m) (\<lambda>mid. if num_le hi lo then Inr mid
        else bindE (fmt lo) (\<lambda>a. bindE (fmt hi) (\<lambda>b. Inr (mid @ '' ('' @ a @ '' to '' @ b @ '')''))))"
proof (cases "present vals")
  case Nil
  then show ?thesis using present_nums [OF assms] by (simp add: stat_def)
next
  case (Cons v ws)
  note ns = present_nums [OF assms, unfolded Cons]
  let ?lo = "num_min v ws" and ?hi = "num_max v ws"
  have nan: "\<forall>y \<in> set (v # ws). exact y \<noteq> NaN" using ns by (auto simp: list_all_iff plain_num_def)
  obtain m where m: "median (v # ws) = Inr m" "length (v # ws) \<le> 2 * length (filter (\<lambda>x. num_le x m) (v # ws))"
    "length (v # ws) \<le> 2 * length (filter (num_le m) (v # ws))"
    using median_halves [of "v # ws"] ns by blast
  have b: "\<forall>x \<in> set (v # ws). num_le ?lo x \<and> num_le x ?hi" using nan num_min_le num_max_ge by blast
  have "num_le ?lo ?hi" using b num_max_in [of v ws] by blast
  moreover have "ws = [] \<Longrightarrow> num_le ?hi ?lo" using nan num_le_refl by simp
  ultimately have cond: "length (v # ws) = 1 \<or> (num_le ?lo ?hi \<and> num_le ?hi ?lo) \<longleftrightarrow> num_le ?hi ?lo" by auto
  have "stat vals fmt = bindE (fmt m) (\<lambda>mid. if num_le ?hi ?lo then Inr mid
      else bindE (fmt ?lo) (\<lambda>a. bindE (fmt ?hi) (\<lambda>b. Inr (mid @ '' ('' @ a @ '' to '' @ b @ '')''))))"
    unfolding stat_def conjunct1 [OF ns] bindE.simps list.case m(1) Let_def cond ..
  then show ?thesis
    unfolding Cons using m(2,3) b num_min_in [of v ws] num_max_in [of v ws]
    by (simp only: list.distinct if_False) blast
qed

definition example_cells :: "pyval list" where
  "example_cells = [VNum (PInt 3), VNone, VNum (PInt 1), VNum (PInt 2), VNum (PInt 10)]"

lemma plain_int: "\<bar>i\<bar> \<le> 2 ^ 53 \<Longrightarrow> plain_num (PInt i)"
proof -
  assume i: "\<bar>i\<bar> \<le> 2 ^ 53"
  then have "\<bar>of_int i :: rat\<bar> \<le> 2 ^ 53" by (metis of_int_abs of_int_le_iff of_int_numeral of_int_power)
  then show ?thesis using magnitude_facts(4) rnd_int [OF i] by (simp add: plain_num_def)
qed

theorem stat_reports_witness:
  "stat example_cells count_fmt = Inr ''2 (1 to 10)'' \<and>
    (\<exists>m lo hi. 4 \<le> 2 * length (filter (\<lambda>v. num_le v m) (present example_cells)) \<and>
      lo \<in> set (present example_cells) \<and> (\<forall>v \<in> set (present example_cells). num_le lo v \<and> num_le v hi))"
proof -
  have c: "list_all plain_cell example_cells" by (simp add: example_cells_def plain_cell_def plain_int)
  have p: "present example_cells = [PInt 3, PInt 1, PInt 2, PInt 10]"
    by (simp add: example_cells_def present_def map_filter_simps)
  have s: "stat example_cells count_fmt = Inr ''2 (1 to 10)''" by code_simp
  have ne: "present example_cells \<noteq> []" "length (present example_cells) = 4" by (simp_all add: p)
  obtain m lo hi where "length (present example_cells) \<le> 2 * length (filter (\<lambda>v. num_le v m) (present example_cells))"
    "lo \<in> set (present example_cells)" "\<forall>v \<in> set (present example_cells). num_le lo v \<and> num_le v hi"
    using stat_reports [OF c, of count_fmt] unfolding if_not_P [OF ne(1)] by blast
  then show ?thesis using s unfolding ne(2) by blast
qed

text \<open>
  C28: loading groups the runs by variant exactly as documented: every \<open>summary.json\<close> that exists is
  in the group of its variant and in no other, the variants stand in the order they first appear on
  the command line, and within a group the runs keep their order; directories without one are skipped.
\<close>

theorem load_groups:
  assumes "named_files files dirs"
  shows "\<exists>ss. found files dirs = map Inr ss \<and> load files dirs = Inr (grouped ss) \<and>
    distinct (map fst (grouped ss)) \<and> (\<forall>s \<in> set ss. \<exists>rs. (VStr (variant_of s), rs) \<in> set (grouped ss) \<and> s \<in> set rs)"
proof -
  obtain ss where ss: "found files dirs = map Inr ss" "load_into files (grouped []) dirs = Inr (grouped ([] @ ss))"
    using load_into_grouped [OF assms] by blast
  have "distinct (map fst (grouped ss))" by (simp add: grouped_def o_def distinct_map inj_on_def)
  moreover have "\<exists>rs. (VStr (variant_of s), rs) \<in> set (grouped ss) \<and> s \<in> set rs" if "s \<in> set ss" for s
    using that
    by (intro exI [of _ "filter (\<lambda>r. variant_of r = variant_of s) ss"]) (auto simp: grouped_def)
  ultimately show ?thesis using ss by (auto simp: load_def grouped_Nil)
qed

definition example_files :: json_files where
  "example_files = map_of [
     (''a/summary.json'', Inr (VDict [(''variant'', VStr ''small'')])),
     (''b/summary.json'', Inr (VDict [(''variant'', VStr ''default'')])),
     (''d/summary.json'', Inr (VDict [(''variant'', VStr ''small''), (''run'', VNum (PInt 2))]))]"

theorem load_groups_witness:
  "\<exists>ss. load example_files [''a'', ''b'', ''c'', ''d''] = Inr (grouped ss) \<and> length ss = 3 \<and>
    map fst (grouped ss) = [VStr ''small'', VStr ''default'']"
proof -
  have "named_files example_files [''a'', ''b'', ''c'', ''d'']" by code_simp
  from load_groups [OF this] obtain ss where ss: "found example_files [''a'', ''b'', ''c'', ''d''] = map Inr ss"
    "load example_files [''a'', ''b'', ''c'', ''d''] = Inr (grouped ss)"
    by blast
  have "found example_files [''a'', ''b'', ''c'', ''d''] = map Inr [VDict [(''variant'', VStr ''small'')],
      VDict [(''variant'', VStr ''default'')], VDict [(''variant'', VStr ''small''), (''run'', VNum (PInt 2))]]"
    by code_simp
  then have e: "ss = [VDict [(''variant'', VStr ''small'')], VDict [(''variant'', VStr ''default'')],
      VDict [(''variant'', VStr ''small''), (''run'', VNum (PInt 2))]]"
    using ss(1) by (metis inj_map_eq_map inj_Inr)
  have "map fst (grouped ss) = [VStr ''small'', VStr ''default'']" unfolding e by code_simp
  then show ?thesis using ss(2) e by auto
qed

end
