(* ===== verification/Csv.thy ===== *)
theory Csv
  imports PyNum
begin

text \<open>
  Python's \<open>csv.DictReader\<close> as the scripts under \<open>scripts/evidence\<close> use it. A file is its lines
  without their ends; the traces hold no quotation marks, so a line is cut at its commas.
\<close>

section \<open>Rows\<close>

type_synonym csv_cells = "string option dict"

text \<open>\<open>csv.reader\<close> makes an empty line an empty row, which \<open>DictReader\<close> skips.\<close>

definition csv_row :: "string \<Rightarrow> string list" where
  "csv_row line = (if line = [] then [] else split_on (CHR '','') line)"

text \<open>
  \<open>dict(zip(fieldnames, row))\<close>; a field without a cell is \<open>None\<close>. Cells beyond the fields are kept
  under the key \<open>None\<close>, which no script reads.
\<close>

definition dict_row :: "string list \<Rightarrow> string list \<Rightarrow> csv_cells" where
  "dict_row header row =
     fold (\<lambda>k. put k None) (drop (length row) header) (fold (\<lambda>(k, c). put k (Some c)) (zip header row) [])"

fun dict_reader :: "string list \<Rightarrow> csv_cells list" where
  "dict_reader [] = []"
| "dict_reader (first # lines) = map (dict_row (csv_row first)) (filter (\<lambda>r. r \<noteq> []) (map csv_row lines))"

text \<open>\<open>int(row[k])\<close>.\<close>

definition int_cell :: "string \<Rightarrow> csv_cells \<Rightarrow> int res" where
  "int_cell k row = bindE (sub row k) (\<lambda>c. case c of
     None \<Rightarrow> Inl TypeError | Some s \<Rightarrow> of_option ValueError (py_int_of s))"

section \<open>What a row holds\<close>

lemma map_of_fold_Some:
  "distinct (map fst kcs) \<Longrightarrow> map_of (fold (\<lambda>(k, c). put k (Some c)) kcs d) k =
    (case map_of kcs k of None \<Rightarrow> map_of d k | Some c \<Rightarrow> Some (Some c))"
proof (induction kcs arbitrary: d)
  case (Cons kc kcs)
  obtain a c where kc: "kc = (a, c)" by (cases kc)
  have "map_of kcs a = None" using Cons.prems by (simp add: kc map_of_eq_None_iff)
  then show ?case using Cons by (cases "k = a") (simp_all add: kc split: option.split)
qed simp

lemma map_of_fold_None:
  "map_of (fold (\<lambda>k. put k None) ks d) k = (if k \<in> set ks then Some None else map_of d k)"
  by (induction ks arbitrary: d) auto

lemma dict_row_cell:
  assumes "distinct header" "i < length header"
  shows "sub (dict_row header row) (header ! i) = Inr (if i < length row then Some (row ! i) else None)"
proof -
  have d: "distinct (map fst (zip header row))" using assms(1) by (simp add: map_fst_zip_take)
  show ?thesis
  proof (cases "i < length row")
    case True
    have "header ! i \<notin> set (drop (length row) header)"
      using assms True by (auto simp: in_set_conv_nth nth_eq_iff_index_eq)
    moreover have "(header ! i, row ! i) \<in> set (zip header row)"
      using assms True by (auto simp: in_set_zip)
    then have "map_of (zip header row) (header ! i) = Some (row ! i)"
      using map_of_eq_Some_iff [OF d] by simp
    ultimately show ?thesis using True d by (simp add: dict_row_def sub_def map_of_fold_None map_of_fold_Some)
  next
    case False
    then have "header ! i \<in> set (drop (length row) header)"
      using assms by (auto simp: in_set_conv_nth intro!: exI [of _ "i - length row"])
    then show ?thesis using False by (simp add: dict_row_def sub_def map_of_fold_None)
  qed
qed

text \<open>A line printed from cells without commas is read back as those cells.\<close>

lemma csv_row_join:
  assumes "cells \<noteq> []" "\<And>c. c \<in> set cells \<Longrightarrow> CHR '','' \<notin> set c \<and> c \<noteq> []"
  shows "csv_row (join '','' cells) = cells"
proof -
  have "join '','' cells \<noteq> []" using assms by (induction "'',''" cells rule: join.induct) auto
  then show ?thesis using split_on_join [of cells "CHR '',''"] assms by (auto simp: csv_row_def)
qed

lemma int_cell_shown:
  assumes "distinct header" "i < length header" "i < length row" "row ! i = show_int n" "header ! i = k"
  shows "int_cell k (dict_row header row) = Inr n"
  using dict_row_cell [OF assms(1,2), of row] assms(3-5) by (simp add: int_cell_def py_int_show_int)

lemma int_cell_missing:
  assumes "distinct header" "i < length header" "length row \<le> i" "header ! i = k"
  shows "int_cell k (dict_row header row) = Inl TypeError"
  using dict_row_cell [OF assms(1,2), of row] assms(3,4) by (simp add: int_cell_def)

end
