(* ===== verification/Repr.thy ===== *)
theory Repr
  imports PyNum
begin

text \<open>
  \<open>repr\<close> of a float reads back as the same float. Seventeen significant digits determine a double, so
  the search of \<open>shortest\<close> ends with a decimal that rounds to the number it started from, and each of
  the layouts of \<open>repr_pos\<close> denotes that decimal.
\<close>

section \<open>A decimal close enough rounds to the double\<close>

lemma rhe_near: "\<bar>y - of_int n\<bar> < 1 / 2 \<Longrightarrow> rhe y = n"
proof -
  assume "\<bar>y - of_int n\<bar> < 1 / 2"
  moreover have "\<bar>of_int (rhe y) - y\<bar> \<le> 1 / 2" by (rule rhe_bounds)
  ultimately have "\<bar>of_int (rhe y) - of_int n :: rat\<bar> < 1" by linarith
  then have "\<bar>of_int (rhe y - n) :: rat\<bar> < of_int 1" by simp
  then have "\<bar>rhe y - n\<bar> < 1" unfolding of_int_less_iff of_int_abs [symmetric] .
  then show ?thesis by simp
qed

lemma rnd_near:
  assumes "0 < y" "x = of_int n * 2 powi grid y" "\<bar>y - x\<bar> < 2 powi grid y / 2"
  shows "rnd y = x"
proof -
  let ?u = "2 powi grid y :: rat"
  have u: "0 < ?u" by simp
  have "\<bar>y / ?u - of_int n\<bar> * ?u = \<bar>y - x\<bar>"
    unfolding assms(2) using u by (simp add: abs_mult_pos left_diff_distrib)
  then have "\<bar>y / ?u - of_int n\<bar> < 1 / 2" using assms(3) u by (simp add: field_simps)
  then show ?thesis using rnd_rhe [of y] rhe_near assms(1,2) by simp
qed

lemma double_units:
  assumes "rnd x = x" "0 < x"
  obtains m where "x = of_int m * 2 powi grid x" "0 < m" "m < 2 ^ 53"
proof -
  let ?m = "rhe (x / 2 powi grid x)"
  have x: "x = of_int ?m * 2 powi grid x" using rnd_rhe [of x] assms by simp
  have "0 < (2::rat) powi grid x" by simp
  moreover have "0 < of_int ?m * (2::rat) powi grid x" using x assms(2) by simp
  ultimately have "(0::rat) < of_int ?m" by (rule zero_less_mult_pos2 [rotated])
  then have "0 < ?m" by (simp only: of_int_0_less_iff)
  moreover have "of_int ?m * (2::rat) powi grid x < of_int (2 ^ 53) * 2 powi grid x"
    using less_grid [OF assms(2)] x by simp
  then have "?m < 2 ^ 53" unfolding mult_less_cancel_right_pos [OF \<open>0 < (2::rat) powi grid x\<close>] of_int_less_iff .
  ultimately show ?thesis using that x by blast
qed

lemma rnd_close:
  assumes x: "rnd x = x" "0 < x" and close: "\<bar>y - x\<bar> * 2 ^ 54 < x"
  shows "rnd y = x"
proof -
  obtain m where m: "x = of_int m * 2 powi grid x" "0 < m" "m < 2 ^ 53" using double_units [OF x] .
  let ?u = "2 powi grid x :: rat"
  have u: "0 < ?u" by simp
  have "x < 2 ^ 53 * ?u" using less_grid [OF x(2)] by simp
  then have half: "\<bar>y - x\<bar> < ?u / 2" using close by simp
  have "\<bar>y - x\<bar> * 2 \<le> \<bar>y - x\<bar> * 2 ^ 54" by (rule mult_left_mono) simp_all
  then have "\<bar>y - x\<bar> * 2 < x" using close by (rule le_less_trans)
  then have x2: "x < 2 * y" by (cases "y < x") auto
  then have y: "0 < y" using x(2) by linarith
  consider "grid y = grid x" | "grid y < grid x" | "grid x < grid y" by linarith
  then show ?thesis
  proof cases
    case 1
    then show ?thesis using m(1) half y by (intro rnd_near [of y x m]) simp_all
  next
    case 2
    let ?p = "2 powi (grid x + 52) :: rat"
    have gx: "grid x = ilog2 x - 52" and "ilog2 y < ilog2 x" using 2 x(2) y by (auto simp: grid_def)
    have px: "?p \<le> x" using ilog2_bounds(1) [OF x(2)] by (simp add: gx)
    have "y < 2 powi (ilog2 y + 1)" using ilog2_bounds(2) [OF y] .
    also have "\<dots> \<le> ?p" using \<open>ilog2 y < ilog2 x\<close> by (simp add: gx powi2_le_iff)
    finally have yp: "y < ?p" .
    have pu: "?p = of_int (2 ^ 52) * ?u" by (simp add: power_int_add)
    have "x < ?p + ?u" using half yp u by linarith
    then have "of_int m * ?u < of_int (2 ^ 52 + 1) * ?u" using m(1) pu by (simp add: distrib_right)
    then have "m < 2 ^ 52 + 1" unfolding mult_less_cancel_right_pos [OF u] of_int_less_iff .
    moreover have "of_int (2 ^ 52) * ?u \<le> of_int m * ?u" using px m(1) pu by simp
    then have "2 ^ 52 \<le> m" unfolding mult_le_cancel_right_pos [OF u] of_int_le_iff .
    ultimately have m52: "m = 2 ^ 52" by simp
    then have xp: "x = ?p" using m(1) pu by simp
    have "?p / 2 < y" using x2 xp by linarith
    then have "2 powi (grid x + 51) < y" using powi2_add1 [of "grid x + 51"] by (simp add: add.commute)
    then have "grid x + 51 \<le> ilog2 y" using y by (simp add: ilog2_ge_iff)
    moreover have "ilog2 y - 52 \<le> grid y" using y by (simp add: grid_def)
    ultimately have h: "grid y = grid x - 1" using 2 by linarith
    then have uh: "?u = 2 * 2 powi grid y" using powi2_add1 [of "grid x - 1"] by simp
    have "x = 2 ^ 52 * ?u" using m(1) m52 by simp
    then have "\<bar>y - x\<bar> < 2 powi grid y / 2" using close uh by simp
    then show ?thesis using m(1) m52 uh y by (intro rnd_near [of y x "2 ^ 53"]) simp_all
  next
    case 3
    have "of_int m * ?u + ?u = of_int (m + 1) * ?u" by (simp add: distrib_right)
    also have "\<dots> \<le> of_int (2 ^ 53) * ?u" using m(3) u unfolding mult_le_cancel_right_pos [OF u] of_int_le_iff by simp
    also have "\<dots> = 2 powi (grid x + 53)" by (simp add: power_int_add)
    also have "\<dots> \<le> 2 powi (grid y + 52)" using 3 by (simp add: powi2_le_iff)
    also have "\<dots> \<le> y"
    proof -
      have "grid y = ilog2 y - 52" using 3 y by (auto simp: grid_def)
      then show ?thesis using ilog2_bounds(1) [OF y] by simp
    qed
    finally have "?u \<le> y - x" using m(1) by simp
    then show ?thesis using half u by linarith
  qed
qed

section \<open>Seventeen digits\<close>

lemma pow10_powi: "pow10 e = 10 powi e"
  by (simp add: pow10_def power_int_def power_one_over inverse_eq_divide)

lemma pow10_pos [simp]: "0 < pow10 e"
  by (simp add: pow10_powi)

lemma pow10_nonneg [simp]: "0 \<le> pow10 e"
  by (simp add: less_imp_le)

lemma pow10_ne [simp]: "pow10 e \<noteq> 0"
  using pow10_pos [of e] by linarith

lemma pow10_add: "pow10 (a + b) = pow10 a * pow10 b"
  by (simp add: pow10_powi power_int_add)

lemma pow10_nat: "pow10 (int n) = 10 ^ n"
  by (simp add: pow10_def)

lemma exp10_low: "0 < x \<Longrightarrow> 1 \<le> x * 10 ^ fuel \<Longrightarrow> pow10 (exp10_from fuel e x) \<le> x * pow10 e"
proof (induction fuel e x rule: exp10_from.induct)
  case (1 e x)
  then show ?case by simp
next
  case (2 fuel e x)
  have down: "x * 10 * pow10 (e - 1) = x * pow10 e" and up: "x / 10 * pow10 (e + 1) = x * pow10 e"
    using pow10_add [of "e - 1" 1] pow10_add [of e 1] pow10_nat [of 1] by simp_all
  consider "x < 1" | "10 \<le> x" | "1 \<le> x" "x < 10" by linarith
  then show ?case
  proof cases
    case 1
    then have "pow10 (exp10_from fuel (e - 1) (x * 10)) \<le> x * 10 * pow10 (e - 1)" using 2 by (intro 2(1)) simp_all
    then show ?thesis using 1 by (simp only: down exp10_from.simps if_True)
  next
    case 2
    have "1 * 1 \<le> x / 10 * 10 ^ fuel" using 2 by (intro mult_mono) simp_all
    then have "pow10 (exp10_from fuel (e + 1) (x / 10)) \<le> x / 10 * pow10 (e + 1)"
      using 2 \<open>0 < x\<close> by (intro "2.IH"(2)) simp_all
    then show ?thesis using 2 by (simp only: up exp10_from.simps) simp
  qed simp
qed

lemma double_least:
  assumes "rnd x = x" "0 < x"
  shows "1 \<le> x * 10 ^ 400"
proof -
  obtain m where m: "x = of_int m * 2 powi grid x" "0 < m" "m < 2 ^ 53" using double_units [OF assms] .
  have g: "(2::rat) powi (- 1074) \<le> 2 powi grid x" unfolding powi2_le_iff by (simp add: grid_def)
  also have "\<dots> = 1 * 2 powi grid x" by simp
  also have "\<dots> \<le> of_int m * 2 powi grid x" using m(2) by (intro mult_right_mono) simp_all
  also have "\<dots> = x" by (rule m(1) [symmetric])
  finally have "1 / 2 ^ 1074 \<le> x" by (simp add: power_int_minus_left power_one_over)
  then have "1 / 2 ^ 1074 * 10 ^ 400 \<le> x * 10 ^ 400" by (intro mult_right_mono) simp_all
  moreover have "(1::rat) \<le> 1 / 2 ^ 1074 * 10 ^ 400" by simp
  ultimately show ?thesis by (rule order.trans [rotated])
qed

lemma is_double_mk: "is_double (Fin x) \<Longrightarrow> rnd y = x \<Longrightarrow> mk y = Fin x"
  using mk_Fin [of y] by simp

lemma seventeen_digits:
  assumes x: "is_double (Fin x)" "0 < x" and e: "pow10 e \<le> x"
  shows "mk (of_int (rhe (x / pow10 (e - 16))) * pow10 (e - 16)) = Fin x"
proof (rule is_double_mk [OF x(1)])
  let ?u = "pow10 (e - 16)"
  have u: "0 < ?u" by simp
  have "pow10 e = ?u * 10 ^ 16" using pow10_add [of "e - 16" 16] pow10_nat [of 16] by simp
  then have xu: "?u * 10 ^ 16 \<le> x" using e by simp
  let ?n = "rhe (x / ?u)"
  have "of_int ?n * ?u - x = (of_int ?n - x / ?u) * ?u" using u by (simp add: left_diff_distrib)
  then have "\<bar>of_int ?n * ?u - x\<bar> = \<bar>of_int ?n - x / ?u\<bar> * ?u" using u by (simp only: abs_mult abs_of_pos)
  also have "\<dots> \<le> 1 / 2 * ?u" using rhe_bounds u by (intro mult_right_mono) simp_all
  finally have "\<bar>of_int ?n * ?u - x\<bar> * 2 ^ 54 \<le> 1 / 2 * ?u * 2 ^ 54" by (rule mult_right_mono) simp
  also have "\<dots> < ?u * 10 ^ 16" using u by simp
  also note xu
  finally show "rnd (of_int ?n * ?u) = x" by (rule rnd_close [OF conjunct1 x(2), rotated]) (rule x(1) [unfolded is_double.simps])
qed

lemma shortest_reads:
  assumes x: "is_double (Fin x)" "0 < x" and e: "pow10 e \<le> x"
  shows "fuel + p = 17 \<Longrightarrow> shortest fuel p e x = (n, q) \<Longrightarrow> mk (of_int n * pow10 (e - int q + 1)) = Fin x"
proof (induction fuel arbitrary: p)
  case 0
  then show ?case using seventeen_digits [OF assms] by auto
next
  case (Suc fuel)
  show ?case
  proof (cases "digits_of p e x")
    case None
    then show ?thesis using Suc.IH [of "Suc p"] Suc.prems by simp
  next
    case (Some k)
    then have "mk (of_int k * pow10 (e - int p + 1)) = Fin x"
      by (auto simp: digits_of_def Let_def find_Some_iff split: if_splits)
    then show ?thesis using Suc.prems Some by simp
  qed
qed

section \<open>Digits\<close>

lemma dec_val_append: "dec_val (s @ t) = dec_val s * 10 ^ length t + dec_val t"
proof (induction t rule: rev_induct)
  case (snoc c t)
  have "dec_val (s @ t @ [c]) = 10 * dec_val (s @ t) + digit_val c" by (simp flip: append_assoc)
  then show ?case using snoc by (simp add: algebra_simps)
qed simp

lemma dec_val_zero [simp]: "dec_val (CHR ''0'' # s) = dec_val s"
  using dec_val_append [of "''0''" s] by (simp add: dec_val_def digit_val_def)

lemma zeros_digits [simp]: "is_digit (CHR ''0'')" "list_all is_digit (replicate z (CHR ''0''))"
  by code_simp (auto simp: list_all_iff is_digit_def)

lemma dec_val_zeros [simp]: "dec_val (replicate z (CHR ''0'')) = 0"
  by (induction z) simp_all

lemma drop_zeros_append: "\<exists>z. s = drop_zeros s @ replicate z (CHR ''0'')"
proof -
  have "takeWhile (\<lambda>c. c = CHR ''0'') (rev s) = replicate (length (takeWhile (\<lambda>c. c = CHR ''0'') (rev s))) (CHR ''0'')"
    by (rule replicate_length_same [symmetric]) (auto dest: set_takeWhileD)
  then have "rev s = replicate (length (takeWhile (\<lambda>c. c = CHR ''0'') (rev s))) (CHR ''0'') @ dropWhile (\<lambda>c. c = CHR ''0'') (rev s)"
    by (metis takeWhile_dropWhile_id)
  then have "s = drop_zeros s @ replicate (length (takeWhile (\<lambda>c. c = CHR ''0'') (rev s))) (CHR ''0'')"
    unfolding drop_zeros_def by (metis rev_append rev_replicate rev_rev_ident)
  then show ?thesis ..
qed

lemma show_dec_lead: "0 < n \<Longrightarrow> hd (show_dec n) \<noteq> CHR ''0''"
proof (induction n rule: show_dec.induct)
  case (1 n)
  show ?case
  proof (cases "n < 10")
    case True
    have "digit_val (digit_char n) \<noteq> digit_val (CHR ''0'')" using 1(2) True by (simp add: digit_val_def digit_cases)
    then show ?thesis using True by (auto simp: show_dec.simps [of n])
  next
    case False
    then have "hd (show_dec (n div 10)) \<noteq> CHR ''0''" using 1 by simp
    then show ?thesis using False by (simp add: show_dec.simps [of n])
  qed
qed

section \<open>The layouts\<close>

text \<open>The text of the digits \<open>ds\<close>, the first of which has the weight \<open>10 ^ e\<close>.\<close>

definition layout :: "string \<Rightarrow> int \<Rightarrow> string" where
  "layout ds e =
     (let k = int (length ds)
      in if e < - 4 \<or> 16 \<le> e
         then take 1 ds @ (if k = 1 then [] else CHR ''.'' # drop 1 ds) @ ''e'' @
              (if e < 0 then ''-'' else ''+'') @ pad_left 2 (CHR ''0'') (show_dec \<bar>e\<bar>)
         else if e < 0 then ''0.'' @ replicate (nat (- e - 1)) (CHR ''0'') @ ds
         else if k \<le> e + 1 then ds @ replicate (nat (e + 1 - k)) (CHR ''0'') @ ''.0''
         else take (nat (e + 1)) ds @ CHR ''.'' # drop (nat (e + 1)) ds)"

lemma positive_digits:
  assumes "is_double (Fin x)" "0 < x" "mk (of_int n * u) = Fin x" "0 < u"
  shows "0 < n"
proof (rule ccontr)
  assume "\<not> 0 < n"
  then have "of_int n * u \<le> 0" using assms(4) by (simp add: mult_le_0_iff)
  then have "rnd (of_int n * u) \<le> 0" using rnd_mono by force
  moreover have "rnd (of_int n * u) = x" using assms(3) by (simp add: mk_eq split: if_splits)
  ultimately show False using assms(2) by simp
qed

lemma repr_layout:
  assumes x: "is_double (Fin x)" "0 < x"
  obtains ds e where "repr_pos x = layout ds e" "list_all is_digit ds" "ds \<noteq> []" "hd ds \<noteq> CHR ''0''"
    "mk (of_int (dec_val ds) * pow10 (e - int (length ds) + 1)) = Fin x"
proof -
  define e where "e = exp10_from 400 0 x"
  obtain n p where np: "shortest 16 1 e x = (n, p)" by (cases "shortest 16 1 e x")
  have "pow10 e \<le> x * pow10 0" unfolding e_def using x double_least [of x] by (intro exp10_low) simp_all
  then have n: "mk (of_int n * pow10 (e - int p + 1)) = Fin x"
    using shortest_reads [OF x _ _ np] by (simp add: pow10_def)
  have n0: "0 < n" using positive_digits [OF x n] by simp
  obtain z where z: "show_dec n = drop_zeros (show_dec n) @ replicate z (CHR ''0'')" using drop_zeros_append by blast
  let ?ds = "drop_zeros (show_dec n)"
  have v: "n = dec_val ?ds * 10 ^ z"
    using dec_val_append [of ?ds "replicate z (CHR ''0'')"] dec_val_show_dec [of n] n0 z by simp
  have ne: "?ds \<noteq> []" using v n0 by auto
  have digits: "list_all is_digit ?ds" using list_all_show_dec [of n] n0 z by (metis less_imp_le list_all_append)
  have lead: "hd ?ds \<noteq> CHR ''0''" using show_dec_lead [OF n0] ne z by (metis hd_append2)
  let ?e = "e + int (length (show_dec n)) - int p"
  have len: "length (show_dec n) = length ?ds + z" using arg_cong [OF z, of length] by simp
  have "of_int n * pow10 (e - int p + 1) = of_int (dec_val ?ds) * pow10 (?e - int (length ?ds) + 1)"
    using pow10_add [of "int z" "e - int p + 1"] unfolding len pow10_nat by (subst v) (simp add: algebra_simps)
  moreover have "repr_pos x = layout ?ds ?e"
    using np ne by (auto simp: repr_pos_def e_def [symmetric] layout_def Let_def split: list.splits)
  ultimately show ?thesis using that [of ?ds ?e] digits ne lead n by simp
qed

definition exp_text :: "string \<Rightarrow> int \<Rightarrow> bool" where
  "exp_text ex k \<longleftrightarrow> ex = [] \<and> k = 0 \<or>
     (\<exists>neg ds. ex = CHR ''e'' # (if neg then CHR ''-'' else CHR ''+'') # ds \<and> ds \<noteq> [] \<and> list_all is_digit ds \<and>
        k = signed neg (dec_val ds))"

text \<open>Digits, perhaps with a point and more digits, perhaps with an exponent, as one decimal number.\<close>

definition denotes :: "string \<Rightarrow> string \<Rightarrow> string \<Rightarrow> string \<Rightarrow> rat \<Rightarrow> bool" where
  "denotes s ip fp ex v \<longleftrightarrow>
     s = ip @ (if fp = [] then [] else CHR ''.'' # fp) @ ex \<and>
     list_all is_digit ip \<and> ip \<noteq> [] \<and> (ip = ''0'' \<or> hd ip \<noteq> CHR ''0'') \<and> list_all is_digit fp \<and>
     (\<exists>k. exp_text ex k \<and> v = of_int (dec_val (ip @ fp)) * pow10 (k - int (length fp)))"

lemma layout_denotes:
  assumes ds: "list_all is_digit ds" "ds \<noteq> []" "hd ds \<noteq> CHR ''0''"
  shows "\<exists>ip fp ex. denotes (layout ds e) ip fp ex (of_int (dec_val ds) * pow10 (e - int (length ds) + 1)) \<and>
    (fp \<noteq> [] \<or> ex \<noteq> [])"
proof -
  let ?v = "of_int (dec_val ds) * pow10 (e - int (length ds) + 1)"
  consider (sci) "e < - 4 \<or> 16 \<le> e" | (small) "- 4 \<le> e" "e < 0"
    | (whole) "0 \<le> e" "e < 16" "int (length ds) \<le> e + 1" | (point) "0 \<le> e" "e < 16" "e + 1 < int (length ds)"
    by linarith
  then show ?thesis
  proof cases
    case sci
    let ?d = "pad_left 2 (CHR ''0'') (show_dec \<bar>e\<bar>)"
    let ?ex = "CHR ''e'' # (if e < 0 then CHR ''-'' else CHR ''+'') # ?d"
    have d: "?d \<noteq> []" "list_all is_digit ?d" "dec_val ?d = \<bar>e\<bar>"
      using show_dec_digits [of "\<bar>e\<bar>"] by (auto simp: pad_left_def dec_val_append list_all_iff)
    have "exp_text ?ex e"
      unfolding exp_text_def by (intro disjI2 exI [of _ "e < 0"] exI [of _ ?d]) (simp add: d)
    moreover obtain c cs where c: "ds = c # cs" using ds(2) by (cases ds) auto
    ultimately have "denotes (layout ds e) [c] cs ?ex ?v"
      unfolding denotes_def using sci ds by (intro conjI exI [of _ e]) (auto simp: layout_def Let_def c)
    then show ?thesis by blast
  next
    case small
    let ?fp = "replicate (nat (- e - 1)) (CHR ''0'') @ ds"
    have "dec_val (''0'' @ ?fp) = dec_val ds" by (simp add: dec_val_append)
    moreover have "0 - int (length ?fp) = e - int (length ds) + 1" using small by simp
    ultimately have "denotes (layout ds e) ''0'' ?fp [] ?v"
      unfolding denotes_def using small ds
      by (intro conjI exI [of _ 0]) (simp_all add: layout_def Let_def exp_text_def del: length_append)
    then show ?thesis using ds(2) by blast
  next
    case whole
    let ?ip = "ds @ replicate (nat (e + 1 - int (length ds))) (CHR ''0'')"
    have v: "dec_val (?ip @ ''0'') = dec_val ds * 10 ^ nat (e + 1 - int (length ds)) * 10"
      by (simp add: dec_val_append)
    have "of_int (dec_val (?ip @ ''0'')) * pow10 (0 - 1) = ?v"
      unfolding v using whole pow10_add [of 1 "- 1"] pow10_nat [of 1] pow10_nat [of "nat (e + 1 - int (length ds))"]
      by (simp add: pow10_def algebra_simps)
    then have "denotes (layout ds e) ?ip ''0'' [] ?v"
      unfolding denotes_def using whole ds
      by (intro conjI exI [of _ 0]) (simp_all add: layout_def Let_def exp_text_def)
    then show ?thesis by blast
  next
    case point
    let ?i = "nat (e + 1)"
    have i: "0 < ?i" "?i < length ds" "int ?i = e + 1" using point by simp_all
    have "take ?i ds \<noteq> []" "hd (take ?i ds) = hd ds" "drop ?i ds \<noteq> []" using i ds(2) by (cases ds; simp)+
    moreover have "list_all is_digit (take ?i ds)" "list_all is_digit (drop ?i ds)"
      using ds(1) by (auto simp: list_all_iff dest: in_set_takeD in_set_dropD)
    moreover have "0 - int (length (drop ?i ds)) = e - int (length ds) + 1" using i by simp
    ultimately have "denotes (layout ds e) (take ?i ds) (drop ?i ds) [] ?v"
      unfolding denotes_def using point ds
      by (intro conjI exI [of _ 0]) (simp_all add: layout_def Let_def exp_text_def diff_add_eq)
    moreover have "drop ?i ds \<noteq> []" using i by simp
    ultimately show ?thesis by blast
  qed
qed

section \<open>Reading the text\<close>

lemma exp_text_read: "exp_text ex k \<Longrightarrow> exponent_of ex = Some k"
proof -
  have e: "lower (CHR ''e'') = CHR ''e''" by code_simp
  assume "exp_text ex k"
  then consider "ex = []" "k = 0"
    | neg ds where "ex = CHR ''e'' # (if neg then CHR ''-'' else CHR ''+'') # ds" "ds \<noteq> []" "list_all is_digit ds"
        "k = signed neg (dec_val ds)"
    by (auto simp: exp_text_def)
  then show ?thesis
    by cases (simp_all add: exponent_of_def e us_ok_digits filter_digits)
qed

lemma exp_text_stops: "exp_text ex k \<Longrightarrow> ex \<noteq> [] \<Longrightarrow> \<not> digit_or_us (hd ex) \<and> hd ex \<noteq> CHR ''.''"
proof -
  have "\<not> digit_or_us (CHR ''e'')" by code_simp
  then show "exp_text ex k \<Longrightarrow> ex \<noteq> [] \<Longrightarrow> ?thesis" by (auto simp: exp_text_def)
qed

lemma span_digits:
  assumes "list_all is_digit s" "t = [] \<or> \<not> digit_or_us (hd t)"
  shows "takeWhile digit_or_us (s @ t) = s" "dropWhile digit_or_us (s @ t) = t"
proof -
  have s: "\<And>c. c \<in> set s \<Longrightarrow> digit_or_us c" using assms(1) by (simp add: list_all_iff digit_or_us_def)
  have "takeWhile digit_or_us t = []" "dropWhile digit_or_us t = t" using assms(2) by (cases t; simp)+
  then show "takeWhile digit_or_us (s @ t) = s" "dropWhile digit_or_us (s @ t) = t"
    using s by (simp_all add: takeWhile_append dropWhile_append)
qed

lemma decimal_of_denotes:
  assumes "denotes s ip fp ex v"
  shows "decimal_of s = Some v"
proof -
  obtain k where d: "s = ip @ (if fp = [] then [] else CHR ''.'' # fp) @ ex" "list_all is_digit ip" "ip \<noteq> []"
      "list_all is_digit fp" "exp_text ex k" "v = of_int (dec_val (ip @ fp)) * pow10 (k - int (length fp))"
    using assms by (auto simp: denotes_def)
  let ?r = "(if fp = [] then [] else CHR ''.'' # fp) @ ex"
  have dot: "\<not> digit_or_us (CHR ''.'')" by code_simp
  note stop = exp_text_stops [OF d(5)]
  have r: "?r = [] \<or> \<not> digit_or_us (hd ?r)" using stop dot by auto
  have ip: "takeWhile digit_or_us s = ip" "dropWhile digit_or_us s = ?r" unfolding d(1) using span_digits [OF d(2) r] by simp_all
  have fp: "takeWhile digit_or_us (fp @ ex) = fp" "dropWhile digit_or_us (fp @ ex) = ex"
    using span_digits [OF d(4)] stop by blast+
  have digits: "filter is_digit (ip @ fp) = ip @ fp" "filter is_digit fp = fp"
    using d(2,4) by (simp_all add: filter_digits)
  have val: "(if 0 \<le> j then of_int (n * 10 ^ nat j) else of_int n / of_int (10 ^ nat (- j))) = of_int n * pow10 j"
    for n j by (simp add: pow10_def)
  have parts: "(if ?r \<noteq> [] \<and> hd ?r = CHR ''.'' then takeWhile digit_or_us (tl ?r) else []) = fp"
    "(if ?r \<noteq> [] \<and> hd ?r = CHR ''.'' then dropWhile digit_or_us (tl ?r) else ?r) = ex"
    using stop fp by (cases "fp = []"; auto)+
  have "us_ok False ip" "fp = [] \<or> us_ok False fp" using d(2-4) by (auto simp: us_ok_digits)
  then show ?thesis
    unfolding decimal_of_def Let_def ip parts digits exp_text_read [OF d(5)] option.case val d(6) using d(3) by simp
qed

text \<open>The text of a positive double is a decimal number that rounds to it.\<close>

lemma repr_pos_denotes:
  assumes "is_double (Fin x)" "0 < x"
  obtains ip fp ex v where "denotes (repr_pos x) ip fp ex v" "fp \<noteq> [] \<or> ex \<noteq> []" "mk v = Fin x"
proof -
  obtain ds e where d: "repr_pos x = layout ds e" "list_all is_digit ds" "ds \<noteq> []" "hd ds \<noteq> CHR ''0''"
      "mk (of_int (dec_val ds) * pow10 (e - int (length ds) + 1)) = Fin x"
    using repr_layout [OF assms] .
  show ?thesis using layout_denotes [OF d(2-4), of e] that d(5) unfolding d(1) by blast
qed

lemma mk_minus: "mk v = Fin a \<Longrightarrow> mk (- v) = Fin (- a)"
proof -
  define m :: rat where "m = 2 ^ 1024"
  show "mk v = Fin a \<Longrightarrow> ?thesis" unfolding mk_eq rnd_minus m_def [symmetric] by (auto split: if_splits)
qed

lemma denotes_chars: "denotes s ip fp ex v \<Longrightarrow> c \<in> set s \<Longrightarrow> is_digit c \<or> c \<in> set ''.e+-''"
  by (auto simp: denotes_def exp_text_def list_all_iff split: if_splits)

lemma denotes_start: "denotes s ip fp ex v \<Longrightarrow> s \<noteq> [] \<and> is_digit (hd s)"
  by (cases ip) (auto simp: denotes_def)

lemma denotes_clean: "denotes s ip fp ex v \<Longrightarrow> c \<in> set s \<Longrightarrow> \<not> py_space c"
proof -
  have "list_all (\<lambda>c. \<not> py_space c) ''.e+-''" by code_simp
  then show "denotes s ip fp ex v \<Longrightarrow> c \<in> set s \<Longrightarrow> ?thesis"
    using digit_not(1) denotes_chars by (fastforce simp: list_all_iff)
qed

lemma lower_digit: "is_digit c \<Longrightarrow> lower c = c"
  by (auto simp: is_digit_def lower_def Let_def)

lemma float_of_denotes:
  assumes "denotes s ip fp ex v"
  shows "py_float_of s = Some (mk v)" "py_float_of (CHR ''-'' # s) = Some (mk (- v))"
proof -
  have minus: "\<not> py_space (CHR ''-'')" by code_simp
  have clean: "strip py_space s = s" "strip py_space (CHR ''-'' # s) = CHR ''-'' # s"
    using denotes_clean [OF assms] minus by (auto intro!: strip_clean)
  obtain c cs where s: "s = c # cs" "is_digit c" using denotes_start [OF assms] by (cases s) auto
  have "\<not> is_digit (CHR ''i'')" "\<not> is_digit (CHR ''n'')" by code_simp+
  then have w: "map lower s \<noteq> ''inf''" "map lower s \<noteq> ''infinity''" "map lower s \<noteq> ''nan''"
    using s by (auto simp: lower_digit)
  have sgn: "sign_split s = (False, s)" using s by (simp add: digit_not)
  show "py_float_of s = Some (mk v)" "py_float_of (CHR ''-'' # s) = Some (mk (- v))"
    using w decimal_of_denotes [OF assms] by (simp_all add: py_float_of_def clean sgn Let_def)
qed

lemma repr_reads_back: "is_double x \<Longrightarrow> py_float_of (py_repr x) = Some x"
proof -
  assume x: "is_double x"
  have named: "py_float_of ''inf'' = Some PInf" "py_float_of ''-inf'' = Some NInf" "py_float_of ''nan'' = Some NaN"
    "py_float_of ''0.0'' = Some (Fin 0)" by code_simp+
  show ?thesis
  proof (cases x)
    case (Fin r)
    have dbl: "is_double (Fin r)" "is_double (Fin (- r))" using x is_double_uminus [of x] unfolding Fin by (simp_all only: uminus_flt.simps)
    consider "r = 0" | "0 < r" | "0 < - r" by linarith
    then show ?thesis
    proof cases
      case 2
      obtain ip fp ex v where "denotes (repr_pos r) ip fp ex v" "fp \<noteq> [] \<or> ex \<noteq> []" "mk v = Fin r"
        using repr_pos_denotes [OF dbl(1) 2] .
      then show ?thesis using 2 Fin float_of_denotes(1) by simp
    next
      case 3
      obtain ip fp ex v where v: "denotes (repr_pos (- r)) ip fp ex v" "fp \<noteq> [] \<or> ex \<noteq> []" "mk v = Fin (- r)"
        using repr_pos_denotes [OF dbl(2) 3] .
      have "mk (- v) = Fin r" using mk_minus [OF v(3)] by simp
      then show ?thesis using 3 Fin float_of_denotes(2) [OF v(1)] by simp
    qed (simp add: Fin named)
  qed (simp_all add: named)
qed

end
