(* ===== verification/Json.thy ===== *)
theory Json
  imports Repr
begin

text \<open>
  Python's \<open>json\<close> as the scripts use it: \<open>json.dump\<close> with and without an indentation, and
  \<open>json.load\<close>. Writing a value and reading the text gives the value back: the files that one script
  writes and another reads carry every number exactly.

  A character is one byte, so an escape for a code point above 255 has no character here and the text
  counts as malformed. Python's limit on the depth of nesting is left out.
\<close>

section \<open>Writing\<close>

definition hex_digit :: "int \<Rightarrow> char" where
  "hex_digit d = (if d < 10 then char_of (48 + d) else char_of (87 + d))"

text \<open>\<open>ensure_ascii\<close> is on: everything but printable ASCII is escaped.\<close>

definition json_escape :: "char \<Rightarrow> string" where
  "json_escape c =
     (let n = of_char c :: int in
      if n = 34 \<or> n = 92 then [CHR 0x5C, c]
      else if n = 10 then [CHR 0x5C, CHR ''n'']
      else if n = 13 then [CHR 0x5C, CHR ''r'']
      else if n = 9 then [CHR 0x5C, CHR ''t'']
      else if n = 12 then [CHR 0x5C, CHR ''f'']
      else if n = 8 then [CHR 0x5C, CHR ''b'']
      else if 32 \<le> n \<and> n \<le> 126 then [c]
      else CHR 0x5C # ''u00'' @ [hex_digit (n div 16), hex_digit (n mod 16)])"

definition json_string :: "string \<Rightarrow> string" where
  "json_string s = CHR 0x22 # concat (map json_escape s) @ [CHR 0x22]"

fun json_number :: "pynum \<Rightarrow> string" where
  "json_number (PInt i) = show_int i"
| "json_number (PFlo (Fin x)) = py_repr (Fin x)"
| "json_number (PFlo PInf) = ''Infinity''"
| "json_number (PFlo NInf) = ''-Infinity''"
| "json_number (PFlo NaN) = ''NaN''"

text \<open>The line break before an item at a depth, and what stands between two items.\<close>

definition json_break :: "nat option \<Rightarrow> nat \<Rightarrow> string" where
  "json_break indent depth = (case indent of None \<Rightarrow> [] | Some w \<Rightarrow> CHR 0x0A # replicate (w * depth) (CHR '' ''))"

definition json_sep :: "nat option \<Rightarrow> nat \<Rightarrow> string" where
  "json_sep indent depth = (case indent of None \<Rightarrow> '', '' | Some w \<Rightarrow> '','' @ json_break indent depth)"

fun json_value :: "nat option \<Rightarrow> nat \<Rightarrow> pyval \<Rightarrow> string"
  and json_items :: "nat option \<Rightarrow> nat \<Rightarrow> pyval list \<Rightarrow> string"
  and json_members :: "nat option \<Rightarrow> nat \<Rightarrow> (string \<times> pyval) list \<Rightarrow> string" where
  "json_value ind l VNone = ''null''"
| "json_value ind l (VBool b) = (if b then ''true'' else ''false'')"
| "json_value ind l (VNum n) = json_number n"
| "json_value ind l (VStr s) = json_string s"
| "json_value ind l (VList xs) = (if xs = [] then ''[]'' else
     CHR ''['' # json_break ind (Suc l) @ json_items ind (Suc l) xs @ json_break ind l @ '']'')"
| "json_value ind l (VDict d) = (if d = [] then ''{}'' else
     CHR ''{'' # json_break ind (Suc l) @ json_members ind (Suc l) d @ json_break ind l @ ''}'')"
| "json_items ind l [] = []"
| "json_items ind l (v # vs) = json_value ind l v @ (if vs = [] then [] else json_sep ind l @ json_items ind l vs)"
| "json_members ind l [] = []"
| "json_members ind l ((k, v) # d) =
     json_string k @ '': '' @ json_value ind l v @ (if d = [] then [] else json_sep ind l @ json_members ind l d)"

definition json_dumps :: "nat option \<Rightarrow> pyval \<Rightarrow> string" where
  "json_dumps indent v = json_value indent 0 v"

section \<open>Reading\<close>

definition json_space :: "char \<Rightarrow> bool" where
  "json_space c = (let n = of_char c :: int in n = 32 \<or> n = 9 \<or> n = 10 \<or> n = 13)"

abbreviation skip :: "string \<Rightarrow> string" where
  "skip \<equiv> dropWhile json_space"

definition hex_val :: "char \<Rightarrow> int option" where
  "hex_val c = (let n = of_char c :: int in
     if 48 \<le> n \<and> n \<le> 57 then Some (n - 48) else if 65 \<le> n \<and> n \<le> 70 then Some (n - 55)
     else if 97 \<le> n \<and> n \<le> 102 then Some (n - 87) else None)"

definition hex4 :: "string \<Rightarrow> int option" where
  "hex4 s = (case map hex_val s of
     [Some a, Some b, Some c, Some d] \<Rightarrow> Some (((a * 16 + b) * 16 + c) * 16 + d) | _ \<Rightarrow> None)"

definition plain_escape :: "char \<Rightarrow> char option" where
  "plain_escape c = map_of [(CHR 0x22, CHR 0x22), (CHR 0x5C, CHR 0x5C), (CHR ''/'', CHR ''/''), (CHR ''b'', CHR 0x08),
     (CHR ''f'', CHR 0x0C), (CHR ''n'', CHR 0x0A), (CHR ''r'', CHR 0x0D), (CHR ''t'', CHR 0x09)] c"

text \<open>The rest of a string after its opening quote; a control character is refused.\<close>

fun scan_string :: "string \<Rightarrow> (string \<times> string) option" where
  "scan_string [] = None"
| "scan_string (c # cs) =
     (if c = CHR 0x22 then Some ([], cs)
      else if c = CHR 0x5C then
        (case cs of [] \<Rightarrow> None
         | e # r \<Rightarrow>
             if e = CHR ''u'' then
               (case hex4 (take 4 r) of None \<Rightarrow> None
                | Some n \<Rightarrow> if n < 256 then map_option (apfst (Cons (char_of n))) (scan_string (drop 4 r)) else None)
             else (case plain_escape e of None \<Rightarrow> None
                   | Some d \<Rightarrow> map_option (apfst (Cons d)) (scan_string r)))
      else if of_char c < (32::int) then None
      else map_option (apfst (Cons c)) (scan_string cs))"

text \<open>A number: the longest match of \<open>-?(0|[1-9][0-9]*)(.[0-9]+)?([eE][-+]?[0-9]+)?\<close>.\<close>

definition match_exp :: "string \<Rightarrow> string" where
  "match_exp s = (if s \<noteq> [] \<and> lower (hd s) = CHR ''e'' then
     (let r = tl s; sg = (if r \<noteq> [] \<and> (hd r = CHR ''-'' \<or> hd r = CHR ''+'') then [hd r] else []);
          ds = takeWhile is_digit (drop (length sg) r)
      in if ds = [] then [] else hd s # sg @ ds) else [])"

definition scan_number :: "string \<Rightarrow> (pynum \<times> string) option" where
  "scan_number s =
     (let neg = (s \<noteq> [] \<and> hd s = CHR ''-'');
          r = (if neg then tl s else s);
          ip = (if r \<noteq> [] \<and> hd r = CHR ''0'' then ''0'' else takeWhile is_digit r);
          r1 = drop (length ip) r;
          fp = (if r1 \<noteq> [] \<and> hd r1 = CHR ''.'' then takeWhile is_digit (tl r1) else []);
          r2 = (if fp = [] then r1 else drop (Suc (length fp)) r1);
          ex = match_exp r2;
          r3 = drop (length ex) r2
      in if ip = [] then None
         else if fp = [] \<and> ex = [] then Some (PInt (signed neg (dec_val ip)), r3)
         else map_option (\<lambda>x. (PFlo x, r3))
           (py_float_of ((if neg then ''-'' else []) @ ip @ (if fp = [] then [] else CHR ''.'' # fp) @ ex)))"

text \<open>The words of the grammar, tried after a number as the scanner does.\<close>

definition scan_word :: "string \<Rightarrow> (pyval \<times> string) option" where
  "scan_word s =
     (if starts_with ''NaN'' s then Some (VNum (PFlo NaN), drop 3 s)
      else if starts_with ''Infinity'' s then Some (VNum (PFlo PInf), drop 8 s)
      else if starts_with ''-Infinity'' s then Some (VNum (PFlo NInf), drop 9 s)
      else None)"

text \<open>
  The scanner by recursive descent, with fuel for its depth. A repeated key keeps its place and takes the
  last value.
\<close>

fun scan_value :: "nat \<Rightarrow> string \<Rightarrow> (pyval \<times> string) option"
  and scan_items :: "nat \<Rightarrow> string \<Rightarrow> (pyval list \<times> string) option"
  and scan_members :: "nat \<Rightarrow> string \<Rightarrow> ((string \<times> pyval) list \<times> string) option" where
  "scan_value 0 s = None"
| "scan_value (Suc n) s =
     (case s of [] \<Rightarrow> None
      | c # cs \<Rightarrow>
          if c = CHR 0x22 then map_option (apfst VStr) (scan_string cs)
          else if c = CHR ''{'' then
            (case skip cs of [] \<Rightarrow> None
             | d # ds \<Rightarrow> if d = CHR ''}'' then Some (VDict [], ds)
                 else map_option (apfst (\<lambda>m. VDict (update_all [] m))) (scan_members n (d # ds)))
          else if c = CHR ''['' then
            (case skip cs of [] \<Rightarrow> None
             | d # ds \<Rightarrow> if d = CHR '']'' then Some (VList [], ds)
                 else map_option (apfst VList) (scan_items n (d # ds)))
          else if starts_with ''null'' s then Some (VNone, drop 4 s)
          else if starts_with ''true'' s then Some (VBool True, drop 4 s)
          else if starts_with ''false'' s then Some (VBool False, drop 5 s)
          else (case scan_number s of Some (x, r) \<Rightarrow> Some (VNum x, r) | None \<Rightarrow> scan_word s))"
| "scan_items 0 s = None"
| "scan_items (Suc n) s =
     (case scan_value n s of None \<Rightarrow> None
      | Some (v, r) \<Rightarrow>
          (case skip r of [] \<Rightarrow> None
           | c # cs \<Rightarrow> if c = CHR '']'' then Some ([v], cs)
               else if c = CHR '','' then map_option (apfst (Cons v)) (scan_items n (skip cs))
               else None))"
| "scan_members 0 s = None"
| "scan_members (Suc n) s =
     (if s = [] \<or> hd s \<noteq> CHR 0x22 then None
      else case scan_string (tl s) of None \<Rightarrow> None
      | Some (k, r) \<Rightarrow>
          (if skip r = [] \<or> hd (skip r) \<noteq> CHR '':'' then None
           else case scan_value n (skip (tl (skip r))) of None \<Rightarrow> None
           | Some (v, r2) \<Rightarrow>
               (case skip r2 of [] \<Rightarrow> None
                | c # cs \<Rightarrow> if c = CHR ''}'' then Some ([(k, v)], cs)
                    else if c = CHR '','' then map_option (apfst (Cons (k, v))) (scan_members n (skip cs))
                    else None)))"

text \<open>\<open>json.loads\<close>: nothing but white space may follow the value. A malformed text is a \<open>ValueError\<close>.\<close>

definition json_loads :: "string \<Rightarrow> pyval res" where
  "json_loads s =
     (case scan_value (2 * length s + 1) (skip s) of
        None \<Rightarrow> Inl ValueError
      | Some (v, r) \<Rightarrow> if skip r = [] then Inr v else Inl ValueError)"

section \<open>Strings\<close>

lemma byte_cases: "\<exists>n. 0 \<le> n \<and> n < 256 \<and> of_char c = (n::int) \<and> c = char_of n"
proof -
  have "of_char c mod 256 = (of_char c :: int)" by (rule of_char_mod_256)
  then have "0 \<le> (of_char c :: int)" "(of_char c :: int) < 256" by (metis pos_mod_sign pos_mod_bound zero_less_numeral)+
  moreover have "c = char_of (of_char c :: int)" by (rule char_of_char [symmetric])
  ultimately show ?thesis by blast
qed

lemma scan_special: "plain_escape e = Some c \<Longrightarrow> e \<noteq> CHR ''u'' \<Longrightarrow> scan_string (CHR 0x5C # e # t) = map_option (apfst (Cons c)) (scan_string t)"
  by simp

lemma scan_plain: "c \<noteq> CHR 0x22 \<Longrightarrow> c \<noteq> CHR 0x5C \<Longrightarrow> (32::int) \<le> of_char c \<Longrightarrow>
    scan_string (c # t) = map_option (apfst (Cons c)) (scan_string t)"
  by simp

lemma scan_hex: "hex4 [a, b, c, d] = Some n \<Longrightarrow> n < 256 \<Longrightarrow>
    scan_string (CHR 0x5C # CHR ''u'' # a # b # c # d # t) = map_option (apfst (Cons (char_of n))) (scan_string t)"
  by simp

text \<open>The three forms of an escape, on every byte.\<close>

definition escape_ok :: "int \<Rightarrow> bool" where
  "escape_ok n \<longleftrightarrow> (let c = char_of n; s = json_escape c in
     case s of
       [a] \<Rightarrow> a = c \<and> c \<noteq> CHR 0x22 \<and> c \<noteq> CHR 0x5C \<and> (32::int) \<le> of_char c
     | [b, e] \<Rightarrow> b = CHR 0x5C \<and> plain_escape e = Some c \<and> e \<noteq> CHR ''u''
     | [b, u, h1, h2, h3, h4] \<Rightarrow> b = CHR 0x5C \<and> u = CHR ''u'' \<and> hex4 [h1, h2, h3, h4] = Some n
     | _ \<Rightarrow> False)"

lemma escapes_ok: "0 \<le> n \<Longrightarrow> n < 256 \<Longrightarrow> escape_ok n"
proof -
  have "list_all escape_ok [0..255]" by code_simp
  then show "0 \<le> n \<Longrightarrow> n < 256 \<Longrightarrow> ?thesis" by (simp add: list_all_iff)
qed

lemma scan_escape: "scan_string (json_escape c @ t) = map_option (apfst (Cons c)) (scan_string t)"
proof -
  obtain n where n: "0 \<le> n" "n < 256" "of_char c = (n::int)" "c = char_of n" using byte_cases by blast
  have "escape_ok n" using n by (intro escapes_ok)
  then consider "json_escape c = [c]" "c \<noteq> CHR 0x22" "c \<noteq> CHR 0x5C" "(32::int) \<le> of_char c"
    | e where "json_escape c = [CHR 0x5C, e]" "plain_escape e = Some c" "e \<noteq> CHR ''u''"
    | h1 h2 h3 h4 where "json_escape c = [CHR 0x5C, CHR ''u'', h1, h2, h3, h4]" "hex4 [h1, h2, h3, h4] = Some n"
    unfolding escape_ok_def Let_def n(4) [symmetric] by (auto split: list.splits)
  then show ?thesis
  proof cases
    case 1
    show ?thesis unfolding 1(1) append_Cons append_Nil by (rule scan_plain [OF 1(2-4)])
  next
    case 2
    show ?thesis unfolding 2(1) append_Cons append_Nil by (rule scan_special [OF 2(2-3)])
  next
    case 3
    have "scan_string (json_escape c @ t) = map_option (apfst (Cons (char_of n))) (scan_string t)"
      unfolding 3(1) append_Cons append_Nil by (rule scan_hex [OF 3(2) n(2)])
    then show ?thesis by (simp only: n(4) [symmetric])
  qed
qed

lemma scan_json_string: "scan_string (concat (map json_escape s) @ CHR 0x22 # t) = Some (s, t)"
  by (induction s) (simp_all add: scan_escape del: scan_string.simps(2), simp)

section \<open>Numbers\<close>

text \<open>What follows a value in a document: the end, or a character that continues no number.\<close>

definition value_ends :: "string \<Rightarrow> bool" where
  "value_ends r \<longleftrightarrow> r = [] \<or> hd r \<in> set ('',]}'' @ [CHR 0x0A])"

lemma value_ends_stops:
  assumes "value_ends r" "r \<noteq> []"
  shows "\<not> is_digit (hd r)" "hd r \<noteq> CHR ''.''" "lower (hd r) \<noteq> CHR ''e''"
proof -
  have "list_all (\<lambda>c. \<not> is_digit c \<and> c \<noteq> CHR ''.'' \<and> lower c \<noteq> CHR ''e'') ('',]}'' @ [CHR 0x0A])" by code_simp
  then show "\<not> is_digit (hd r)" "hd r \<noteq> CHR ''.''" "lower (hd r) \<noteq> CHR ''e''"
    using assms by (auto simp: value_ends_def list_all_iff)
qed

lemma take_digits: "list_all is_digit s \<Longrightarrow> t = [] \<or> \<not> is_digit (hd t) \<Longrightarrow> takeWhile is_digit (s @ t) = s"
  by (cases t) (auto simp: list_all_iff takeWhile_append)

lemma match_exp_text:
  assumes "exp_text ex k" "value_ends r"
  shows "match_exp (ex @ r) = ex"
proof (cases "ex = []")
  case True
  then show ?thesis using value_ends_stops [OF assms(2)] by (cases r) (auto simp: match_exp_def)
next
  case False
  then obtain neg ds where ex: "ex = CHR ''e'' # (if neg then CHR ''-'' else CHR ''+'') # ds" "ds \<noteq> []" "list_all is_digit ds"
    using assms(1) by (auto simp: exp_text_def)
  have "takeWhile is_digit (ds @ r) = ds"
    using ex(3) value_ends_stops(1) [OF assms(2)] by (intro take_digits) blast+
  moreover have "lower (CHR ''e'') = CHR ''e''" by code_simp
  ultimately show ?thesis using ex(1,2) by (cases neg) (simp_all add: match_exp_def)
qed

lemma exp_text_head: "exp_text ex k \<Longrightarrow> ex \<noteq> [] \<Longrightarrow> \<not> is_digit (hd ex) \<and> hd ex \<noteq> CHR ''.''"
  using exp_text_stops [of ex k] by (auto simp: digit_or_us_def)

text \<open>The scanner takes exactly the text of a number.\<close>

lemma scan_denoted:
  assumes d: "denotes s ip fp ex v" and r: "value_ends r"
  shows "scan_number ((if neg then ''-'' else []) @ s @ r) =
    (if fp = [] \<and> ex = [] then Some (PInt (signed neg (dec_val ip)), r)
     else Some (PFlo (mk (if neg then - v else v)), r))"
proof -
  obtain k where d': "s = ip @ (if fp = [] then [] else CHR ''.'' # fp) @ ex" "list_all is_digit ip" "ip \<noteq> []"
      "ip = ''0'' \<or> hd ip \<noteq> CHR ''0''" "list_all is_digit fp" "exp_text ex k"
    using d by (auto simp: denotes_def)
  let ?t = "(if fp = [] then [] else CHR ''.'' # fp) @ ex @ r"
  have dot: "\<not> is_digit (CHR ''.'')" by code_simp
  have tail: "ex @ r = [] \<or> \<not> is_digit (hd (ex @ r)) \<and> hd (ex @ r) \<noteq> CHR ''.''"
    using exp_text_head [OF d'(6)] value_ends_stops [OF r] by (cases "ex = []") auto
  have t: "?t = [] \<or> \<not> is_digit (hd ?t)" using tail dot by auto
  have minus: "hd (s @ r) \<noteq> CHR ''-''" "s \<noteq> []" using denotes_start [OF d] digit_not(3) by auto
  have ip: "(if s @ r \<noteq> [] \<and> hd (s @ r) = CHR ''0'' then ''0'' else takeWhile is_digit (s @ r)) = ip"
    using take_digits [OF d'(2) t] d'(3,4) unfolding d'(1) by (auto simp: hd_append)
  have r1: "drop (length ip) (s @ r) = ?t" unfolding d'(1) by simp
  have fp: "(if ?t \<noteq> [] \<and> hd ?t = CHR ''.'' then takeWhile is_digit (tl ?t) else []) = fp"
    using take_digits [OF d'(5), of "ex @ r"] tail by (cases "fp = []") auto
  have r2: "(if fp = [] then ?t else drop (Suc (length fp)) ?t) = ex @ r" by simp
  note ex = match_exp_text [OF d'(6) r]
  have flo: "py_float_of ((if neg then ''-'' else []) @ ip @ (if fp = [] then [] else CHR ''.'' # fp) @ ex) = Some (mk (if neg then - v else v))"
    using float_of_denotes [OF d] unfolding d'(1) by simp
  have neg: "((if neg then ''-'' else []) @ s @ r \<noteq> [] \<and> hd ((if neg then ''-'' else []) @ s @ r) = CHR ''-'') = neg"
    "(if neg then tl ((if neg then ''-'' else []) @ s @ r) else (if neg then ''-'' else []) @ s @ r) = s @ r"
    using minus by auto
  show ?thesis
    unfolding scan_number_def Let_def neg ip r1 fp r2 ex flo using d'(3) by simp
qed

lemma denotes_int: "denotes (show_dec \<bar>i\<bar>) (show_dec \<bar>i\<bar>) [] [] (of_int \<bar>i\<bar>)"
proof -
  have "show_dec \<bar>i\<bar> = ''0'' \<or> hd (show_dec \<bar>i\<bar>) \<noteq> CHR ''0''"
    using show_dec_lead [of "\<bar>i\<bar>"] by (cases "i = 0") (auto simp: show_dec.simps [of 0] digit_char_def)
  then show ?thesis by (simp add: denotes_def exp_text_def pow10_def)
qed

lemma scan_int: "value_ends r \<Longrightarrow> scan_number (show_int i @ r) = Some (PInt i, r)"
proof -
  assume r: "value_ends r"
  have "show_int i = (if i < 0 then ''-'' else []) @ show_dec \<bar>i\<bar>" by (simp add: show_int_def abs_if)
  then show ?thesis using scan_denoted [OF denotes_int r, of "i < 0" i] by simp
qed

lemma scan_float: "is_double (Fin x) \<Longrightarrow> value_ends r \<Longrightarrow> scan_number (py_repr (Fin x) @ r) = Some (PFlo (Fin x), r)"
proof -
  assume x: "is_double (Fin x)" and r: "value_ends r"
  have m: "is_double (Fin (- x))" using is_double_uminus [OF x] by (simp only: uminus_flt.simps)
  consider "x = 0" | "0 < x" | "0 < - x" by linarith
  then show ?thesis
  proof cases
    case 1
    have "denotes ''0.0'' ''0'' ''0'' [] 0" by (simp add: denotes_def exp_text_def)
    from scan_denoted [OF this r, of False] show ?thesis using 1 mk_int [of 0] by simp
  next
    case 2
    obtain ip fp ex v where "denotes (repr_pos x) ip fp ex v" "fp \<noteq> [] \<or> ex \<noteq> []" "mk v = Fin x"
      using repr_pos_denotes [OF x 2] .
    then show ?thesis using 2 scan_denoted [OF _ r, of _ ip fp ex v False] by auto
  next
    case 3
    obtain ip fp ex v where v: "denotes (repr_pos (- x)) ip fp ex v" "fp \<noteq> [] \<or> ex \<noteq> []" "mk v = Fin (- x)"
      using repr_pos_denotes [OF m 3] .
    have "mk (- v) = Fin x" using mk_minus [OF v(3)] by simp
    then show ?thesis using 3 v(2) scan_denoted [OF v(1) r, of True] by auto
  qed
qed

text \<open>How a number starts: it is not taken for a string, a container or a word with a small letter.\<close>

definition number_start :: "char \<Rightarrow> bool" where
  "number_start c \<longleftrightarrow> is_digit c \<or> c = CHR ''-'' \<or> c = CHR ''N'' \<or> c = CHR ''I''"

lemma number_starts:
  assumes "number_start c"
  shows "c \<notin> set (''{[ntf]'' @ [CHR 0x22])" "\<not> json_space c"
proof -
  have "list_all (\<lambda>c. \<not> number_start c) (''{[ntf]'' @ [CHR 0x22])" by code_simp
  then show "c \<notin> set (''{[ntf]'' @ [CHR 0x22])" using assms by (auto simp: list_all_iff)
  show "\<not> json_space c" using assms by (auto simp: number_start_def is_digit_def json_space_def Let_def)
qed

fun num_ok :: "pynum \<Rightarrow> bool" where
  "num_ok (PInt i) = True"
| "num_ok (PFlo x) = is_double x"

lemma num_ok_start:
  assumes "num_ok n"
  shows "\<exists>c cs. json_number n = c # cs \<and> number_start c"
proof -
  have int: "\<exists>c cs. show_int i = c # cs \<and> number_start c" for i
    using show_dec_digits [of "\<bar>i\<bar>"] by (cases "show_dec \<bar>i\<bar>") (auto simp: show_int_def number_start_def abs_if split: if_splits)
  have pos: "\<exists>c cs. repr_pos y = c # cs \<and> number_start c" if y: "is_double (Fin y)" "0 < y" for y
  proof -
    obtain ip fp ex v where "denotes (repr_pos y) ip fp ex v" "fp \<noteq> [] \<or> ex \<noteq> []" "mk v = Fin y"
      using repr_pos_denotes [OF y] .
    then show ?thesis using denotes_start by (cases "repr_pos y") (fastforce simp: number_start_def)+
  qed
  have flo: "\<exists>c cs. py_repr (Fin r) = c # cs \<and> number_start c" if r: "is_double (Fin r)" for r
    using pos [OF r] by (cases "r < 0"; cases "r = 0") (auto simp: number_start_def is_digit_def)
  show ?thesis
  proof (cases n)
    case (PFlo x)
    then show ?thesis using flo assms by (cases x) (auto simp: number_start_def)
  qed (simp only: json_number.simps int)
qed

lemma scan_value_number:
  "number_start c \<Longrightarrow> scan_value (Suc n) (c # cs) =
     (case scan_number (c # cs) of Some (x, r) \<Rightarrow> Some (VNum x, r) | None \<Rightarrow> scan_word (c # cs))"
  using number_starts(1) [of c] by (auto simp: starts_with_def)

lemma scan_json_number: "num_ok n \<Longrightarrow> value_ends r \<Longrightarrow> scan_value (Suc k) (json_number n @ r) = Some (VNum n, r)"
proof -
  assume n: "num_ok n" and r: "value_ends r"
  obtain c cs where c: "json_number n = c # cs" "number_start c" using num_ok_start [OF n] by blast
  have d: "\<not> is_digit (CHR ''N'')" "\<not> is_digit (CHR ''I'')" by code_simp+
  then have word: "scan_number (''NaN'' @ r) = None" "scan_number (''Infinity'' @ r) = None" "scan_number (''-Infinity'' @ r) = None"
    by (simp_all add: scan_number_def)
  have words: "scan_word (''NaN'' @ r) = Some (VNum (PFlo NaN), r)" "scan_word (''Infinity'' @ r) = Some (VNum (PFlo PInf), r)"
    "scan_word (''-Infinity'' @ r) = Some (VNum (PFlo NInf), r)"
    by (simp_all add: scan_word_def starts_with_def)
  have "(case scan_number (json_number n @ r) of Some (x, r) \<Rightarrow> Some (VNum x, r) | None \<Rightarrow> scan_word (json_number n @ r)) = Some (VNum n, r)"
  proof (cases n)
    case (PFlo x)
    then show ?thesis
      using scan_float [OF _ r] n word words by (cases x) (simp_all del: append.simps is_double.simps py_repr.simps)
  qed (simp add: scan_int [OF r])
  moreover have "scan_value (Suc k) (json_number n @ r) =
      (case scan_number (json_number n @ r) of Some (x, r) \<Rightarrow> Some (VNum x, r) | None \<Rightarrow> scan_word (json_number n @ r))"
    unfolding c(1) append_Cons by (rule scan_value_number [OF c(2)])
  ultimately show ?thesis by simp
qed

section \<open>Writing and reading back\<close>

text \<open>The values that a text can carry: every float a double, and no key twice in one object.\<close>

fun json_ok :: "pyval \<Rightarrow> bool" where
  "json_ok (VNum n) = num_ok n"
| "json_ok (VList xs) = list_all json_ok xs"
| "json_ok (VDict d) = (distinct (keys d) \<and> list_all (\<lambda>(k, v). json_ok v) d)"
| "json_ok v = True"

lemma break_ends: "value_ends (json_break ind l @ c # r) = (ind \<noteq> None \<or> value_ends (c # r))"
  by (cases ind) (auto simp: json_break_def value_ends_def)

lemma break_skip [simp]: "skip (json_break ind l @ t) = skip t"
proof -
  have sp: "json_space (CHR 0x0A)" "json_space (CHR '' '')" by code_simp+
  have "skip (replicate n (CHR '' '') @ t) = skip t" for n by (induction n) (simp_all add: sp)
  then show ?thesis by (simp add: json_break_def sp split: option.splits)
qed

lemma sep_text: "\<exists>u. json_sep ind l @ t = CHR '','' # u \<and> skip u = skip t"
proof -
  have "json_space (CHR '' '')" by code_simp
  then show ?thesis by (cases ind) (simp_all add: json_sep_def)
qed

lemma sep_length: "a + (2 * length (json_sep ind l) + b) < m \<Longrightarrow> Suc b < m"
  by (cases ind) (simp_all add: json_sep_def)

text \<open>How the text of a value starts.\<close>

lemma value_start:
  assumes "json_ok v"
  shows "\<exists>c cs. json_value ind l v = c # cs \<and> \<not> json_space c \<and> c \<notin> set '']}''"
proof -
  have "list_all (\<lambda>c. \<not> json_space c) (''nft[{'' @ [CHR 0x22])" by code_simp
  moreover have "list_all (\<lambda>c. \<not> number_start c) '']}''" by code_simp
  ultimately show ?thesis
    using assms num_ok_start number_starts(2) by (cases v) (fastforce simp: json_string_def)+
qed

lemma value_skip: "json_ok v \<Longrightarrow> skip (json_value ind l v @ t) = json_value ind l v @ t"
  using value_start [of v ind l] by auto

lemma update_all_distinct: "distinct (keys d @ keys m) \<Longrightarrow> update_all d m = d @ m"
proof (induction m arbitrary: d)
  case (Cons kv m)
  obtain k v where kv: "kv = (k, v)" by (cases kv)
  have "put k v d = d @ [(k, v)]" if "k \<notin> set (keys d)" for k v and d :: "'a dict"
    using that by (induction d) (auto simp: put_def keys_def)
  moreover have "distinct (keys (d @ [(k, v)]) @ keys m)" using Cons.prems by (auto simp: kv keys_def)
  ultimately show ?case using Cons.IH [of "d @ [(k, v)]"] Cons.prems by (simp add: kv)
qed simp

lemma scan_object:
  "skip cs = CHR 0x22 # t \<Longrightarrow> scan_members n (CHR 0x22 # t) = Some (d, r) \<Longrightarrow> distinct (keys d) \<Longrightarrow>
     scan_value (Suc n) (CHR ''{'' # cs) = Some (VDict d, r)"
  using update_all_distinct [of "[]" d] by simp

lemma scan_array:
  "skip cs = c # t \<Longrightarrow> c \<noteq> CHR '']'' \<Longrightarrow> scan_items n (c # t) = Some (xs, r) \<Longrightarrow>
     scan_value (Suc n) (CHR ''['' # cs) = Some (VList xs, r)"
  by simp

text \<open>One step of the scanner over a list and over an object.\<close>

lemma scan_items_last:
  "scan_value n s = Some (v, e) \<Longrightarrow> skip e = CHR '']'' # r \<Longrightarrow> scan_items (Suc n) s = Some ([v], r)"
  by simp

lemma scan_items_more:
  "scan_value n s = Some (v, CHR '','' # u) \<Longrightarrow> scan_items n (skip u) = Some (vs, r) \<Longrightarrow> scan_items (Suc n) s = Some (v # vs, r)"
proof -
  have "\<not> json_space (CHR '','')" by code_simp
  then show "scan_value n s = Some (v, CHR '','' # u) \<Longrightarrow> scan_items n (skip u) = Some (vs, r) \<Longrightarrow> ?thesis" by simp
qed

lemma member_text: "json_string k @ '': '' @ t = CHR 0x22 # concat (map json_escape k) @ CHR 0x22 # '': '' @ t"
  by (simp add: json_string_def)

lemma scan_member_key:
  assumes "skip t = t"
  shows "scan_members (Suc n) (json_string k @ '': '' @ t) =
    (case scan_value n t of None \<Rightarrow> None
     | Some (v, r2) \<Rightarrow>
         (case skip r2 of [] \<Rightarrow> None
          | c # cs \<Rightarrow> if c = CHR ''}'' then Some ([(k, v)], cs)
              else if c = CHR '','' then map_option (apfst (Cons (k, v))) (scan_members n (skip cs))
              else None))"
proof -
  have "\<not> json_space (CHR '':'')" "json_space (CHR '' '')" by code_simp+
  then have "skip ('': '' @ t) = '': '' @ t" "skip (tl ('': '' @ t)) = t" using assms by simp_all
  then show ?thesis unfolding member_text scan_members.simps list.sel scan_json_string option.case prod.case by simp
qed

lemma scan_members_last:
  assumes "skip t = t" "scan_value n t = Some (v, e)" "skip e = CHR ''}'' # r"
  shows "scan_members (Suc n) (json_string k @ '': '' @ t) = Some ([(k, v)], r)"
  unfolding scan_member_key [OF assms(1)] using assms(2,3) by simp

lemma scan_members_more:
  assumes "skip t = t" "scan_value n t = Some (v, CHR '','' # u)" "scan_members n (skip u) = Some (d, r)"
  shows "scan_members (Suc n) (json_string k @ '': '' @ t) = Some ((k, v) # d, r)"
proof -
  have "\<not> json_space (CHR '','')" by code_simp
  then show ?thesis unfolding scan_member_key [OF assms(1)] using assms(2,3) by simp
qed

lemma items_start: "list_all json_ok vs \<Longrightarrow> vs \<noteq> [] \<Longrightarrow>
    \<exists>c cs. json_items ind l vs @ t = c # cs \<and> \<not> json_space c \<and> c \<noteq> CHR '']''"
  using value_start [of "hd vs" ind l] by (cases vs) auto

lemma members_start: "d \<noteq> [] \<Longrightarrow> \<exists>cs. json_members ind l d @ t = CHR 0x22 # cs"
  by (cases d) (auto simp: json_string_def)

lemma ends_after_break: "value_ends (json_break ind l @ CHR '']'' # r)" "value_ends (json_break ind l @ CHR ''}'' # r)"
  "value_ends (CHR '','' # r)"
  by (simp_all add: break_ends) (simp_all add: value_ends_def)

lemma closing_space [simp]: "\<not> json_space (CHR '']'')" "\<not> json_space (CHR ''}'')"
  by code_simp+

lemma scan_text:
  "json_ok v \<Longrightarrow> value_ends r \<Longrightarrow> 2 * length (json_value ind l v @ r) < n \<Longrightarrow> scan_value n (json_value ind l v @ r) = Some (v, r)"
  and scan_items_text: "list_all json_ok vs \<Longrightarrow> vs \<noteq> [] \<Longrightarrow> value_ends e \<Longrightarrow> skip e = CHR '']'' # r \<Longrightarrow>
    2 * length (json_items ind l vs @ e) + 1 < n \<Longrightarrow> scan_items n (json_items ind l vs @ e) = Some (vs, r)"
  and scan_members_text: "list_all (\<lambda>(k, v). json_ok v) d \<Longrightarrow> d \<noteq> [] \<Longrightarrow> value_ends e \<Longrightarrow> skip e = CHR ''}'' # r \<Longrightarrow>
    2 * length (json_members ind l d @ e) + 1 < n \<Longrightarrow> scan_members n (json_members ind l d @ e) = Some (d, r)"
proof (induction ind l v and ind l vs and ind l d arbitrary: r n and e r n and e r n
    rule: json_value_json_items_json_members.induct)
  case (1 ind l)
  then show ?case by (cases n) (simp_all add: starts_with_def)
next
  case (2 ind l b)
  then show ?case by (cases n) (simp_all add: starts_with_def)
next
  case (3 ind l m)
  then show ?case by (cases n) (simp_all del: scan_value.simps json_number.simps add: scan_json_number)
next
  case (4 ind l s)
  then show ?case by (cases n) (simp_all add: json_string_def scan_json_string)
next
  case (5 ind l xs)
  show ?case
  proof (cases "xs = []")
    case True
    then show ?thesis using 5(4) by (cases n) simp_all
  next
    case False
    let ?e = "json_break ind l @ CHR '']'' # r" and ?t = "json_items ind (Suc l) xs"
    obtain m where m: "n = Suc m" using 5(4) by (cases n) auto
    have "scan_items m (?t @ ?e) = Some (xs, r)"
      using 5 False by (intro "5.IH") (auto simp: m ends_after_break)
    moreover obtain c cs where c: "?t @ ?e = c # cs" "\<not> json_space c" "c \<noteq> CHR '']''"
      using items_start [of xs ind "Suc l" ?e] 5(2) False by auto
    ultimately have "scan_value (Suc m) (CHR ''['' # json_break ind (Suc l) @ ?t @ ?e) = Some (VList xs, r)"
      by (intro scan_array [of _ c cs]) simp_all
    then show ?thesis using False by (simp add: m del: scan_value.simps)
  qed
next
  case (6 ind l d)
  show ?case
  proof (cases "d = []")
    case True
    then show ?thesis using 6(4) by (cases n) simp_all
  next
    case False
    let ?e = "json_break ind l @ CHR ''}'' # r" and ?t = "json_members ind (Suc l) d"
    obtain m where m: "n = Suc m" using 6(4) by (cases n) auto
    have "scan_members m (?t @ ?e) = Some (d, r)"
      using 6 False by (intro "6.IH") (auto simp: m ends_after_break)
    moreover obtain cs where c: "?t @ ?e = CHR 0x22 # cs" using members_start [OF False] by blast
    moreover have "\<not> json_space (CHR 0x22)" by code_simp
    ultimately have "scan_value (Suc m) (CHR ''{'' # json_break ind (Suc l) @ ?t @ ?e) = Some (VDict d, r)"
      using 6(2) by (intro scan_object [of _ cs]) simp_all
    then show ?thesis using False by (simp add: m del: scan_value.simps)
  qed
next
  case (7 ind l)
  then show ?case by simp
next
  case (8 ind l v vs)
  obtain m where m: "n = Suc m" using 8(7) by (cases n) auto
  show ?case
  proof (cases "vs = []")
    case True
    have "scan_value m (json_value ind l v @ e) = Some (v, e)" using 8 True by (intro "8.IH"(1)) (auto simp: m)
    then show ?thesis using scan_items_last 8(6) True by (simp add: m del: scan_items.simps)
  next
    case False
    let ?t = "json_items ind l vs @ e"
    obtain u where u: "json_sep ind l @ ?t = CHR '','' # u" "skip u = skip ?t" using sep_text by blast
    have len: "length (json_sep ind l @ ?t) = Suc (length u)" using u(1) by simp
    have "skip ?t = ?t" using items_start [of vs ind l e] 8(3) False by auto
    moreover have "scan_items m ?t = Some (vs, r)" using 8 False by (intro "8.IH"(2)) (auto simp: m intro: sep_length)
    moreover have "scan_value m (json_value ind l v @ CHR '','' # u) = Some (v, CHR '','' # u)"
      using 8 False len u(1) by (intro "8.IH"(1)) (auto simp: m ends_after_break)
    ultimately show ?thesis
      using scan_items_more [of m _ v u vs r] False u by (simp add: m del: scan_items.simps)
  qed
next
  case (9 ind l)
  then show ?case by simp
next
  case (10 ind l k v d)
  obtain m where m: "n = Suc m" using 10(7) by (cases n) auto
  have ok: "json_ok v" using 10(3) by simp
  show ?case
  proof (cases "d = []")
    case True
    have "scan_value m (json_value ind l v @ e) = Some (v, e)" using 10 True by (intro "10.IH"(1)) (auto simp: m)
    then show ?thesis
      using scan_members_last [OF value_skip [OF ok] _ 10(6)] True by (simp add: m del: scan_members.simps)
  next
    case False
    let ?t = "json_members ind l d @ e"
    obtain u where u: "json_sep ind l @ ?t = CHR '','' # u" "skip u = skip ?t" using sep_text by blast
    have len: "length (json_sep ind l @ ?t) = Suc (length u)" using u(1) by simp
    have "\<not> json_space (CHR 0x22)" by code_simp
    then have "skip u = ?t" using members_start [OF False, of ind l e] u(2) by auto
    moreover have "scan_members m ?t = Some (d, r)" using 10 False by (intro "10.IH"(2)) (auto simp: m intro: sep_length)
    ultimately have more: "scan_members m (skip u) = Some (d, r)" by (simp only:)
    have "scan_value m (json_value ind l v @ CHR '','' # u) = Some (v, CHR '','' # u)"
      using 10 False len u(1) by (intro "10.IH"(1)) (auto simp: m ends_after_break)
    from scan_members_more [OF value_skip [OF ok] this more] show ?thesis
      using False u by (simp add: m del: scan_members.simps)
  qed
qed

lemma json_round: "json_ok v \<Longrightarrow> json_loads (json_dumps indent v) = Inr v"
proof -
  assume v: "json_ok v"
  have "skip (json_dumps indent v) = json_dumps indent v" using value_skip [OF v, of indent 0 "[]"] by (simp add: json_dumps_def)
  moreover have "value_ends []" by (simp add: value_ends_def)
  ultimately show ?thesis
    using scan_text [OF v, of "[]" indent 0 "2 * length (json_dumps indent v) + 1"] by (simp add: json_loads_def json_dumps_def)
qed

section \<open>The fuel is enough\<close>

declare dropWhile_eq_Nil_conv [simp del]

lemma skip_length: "length (skip s) \<le> length s"
  by (rule length_dropWhile_le)

lemma apfst_Some: "map_option (apfst f) m = Some (x, r) \<longleftrightarrow> (\<exists>y. m = Some (y, r) \<and> x = f y)"
  by (cases m) auto

lemma scan_string_length: "scan_string s = Some (t, r) \<Longrightarrow> length r < length s"
proof (induction s arbitrary: t rule: scan_string.induct)
  case (2 c cs)
  consider "c = CHR 0x22" | e u where "c = CHR 0x5C" "cs = e # u" "e = CHR ''u''" | e u where "c = CHR 0x5C" "cs = e # u" "e \<noteq> CHR ''u''"
    | "c = CHR 0x5C" "cs = []" | "c \<noteq> CHR 0x22" "c \<noteq> CHR 0x5C"
    by (cases cs) auto
  then show ?case
  proof cases
    case 2
    then obtain n where "hex4 (take 4 u) = Some n" "n < 256" using "2.prems" by (auto split: option.splits if_splits)
    then show ?thesis using 2 "2.prems" "2.IH"(1) [of e u n] by (auto simp: apfst_Some)
  next
    case 3
    then obtain d where "plain_escape e = Some d" using "2.prems" by (auto split: option.splits)
    then show ?thesis using 3 "2.prems" "2.IH"(2) [of e u d] by (auto simp: apfst_Some)
  next
    case 5
    then show ?thesis using "2.prems" "2.IH"(3) by (auto simp: apfst_Some split: if_splits)
  qed (use "2.prems" in auto)
qed simp

lemma scan_number_length:
  assumes "scan_number s = Some (x, rest)"
  shows "length rest < length s"
proof -
  define neg where "neg = (s \<noteq> [] \<and> hd s = CHR ''-'')"
  define r where "r = (if neg then tl s else s)"
  define ip where "ip = (if r \<noteq> [] \<and> hd r = CHR ''0'' then ''0'' else takeWhile is_digit r)"
  define r1 where "r1 = drop (length ip) r"
  define fp where "fp = (if r1 \<noteq> [] \<and> hd r1 = CHR ''.'' then takeWhile is_digit (tl r1) else [])"
  define r2 where "r2 = (if fp = [] then r1 else drop (Suc (length fp)) r1)"
  define ex where "ex = match_exp r2"
  note defs = neg_def r_def ip_def r1_def fp_def r2_def ex_def
  have "ip \<noteq> []" "rest = drop (length ex) r2"
    using assms unfolding scan_number_def Let_def defs [symmetric] by (auto split: if_splits)
  moreover from this(1) have "r \<noteq> []" by (auto simp: ip_def)
  moreover have "length r \<le> length s" "length r2 \<le> length r1" by (simp_all add: r_def r2_def)
  ultimately show ?thesis by (cases ip; cases r) (auto simp: r1_def)
qed

lemma scan_word_length: "scan_word s = Some (x, r) \<Longrightarrow> length r < length s"
  by (cases s) (auto simp: scan_word_def starts_with_def split: if_splits)

lemma skip_Cons_length: "skip s = c # cs \<Longrightarrow> length cs < length s"
  using skip_length [of s] by simp

text \<open>The scanner consumes what it returns.\<close>

lemma scan_lengths:
  "scan_value n s = Some (v, r) \<Longrightarrow> length r < length s"
  "scan_items n s = Some (vs, r) \<Longrightarrow> length r < length s"
  "scan_members n s = Some (d, r) \<Longrightarrow> length r < length s"
proof (induction n s and n s and n s arbitrary: v r and vs r and d r rule: scan_value_scan_items_scan_members.induct)
  case (2 n s)
  then obtain c cs where s: "s = c # cs" by (cases s) auto
  consider "c = CHR 0x22" | "c = CHR ''{''" | "c = CHR ''[''" | "c \<notin> set (''{['' @ [CHR 0x22])" by auto
  then show ?case
  proof cases
    case 1
    then show ?thesis using 2(3) s scan_string_length by (auto simp: apfst_Some dest: less_SucI)
  next
    case 2
    then obtain e es where e: "skip cs = e # es" using "2.prems" s by (cases "skip cs") auto
    show ?thesis
    proof (cases "e = CHR ''}''")
      case False
      then show ?thesis using 2 "2.prems" s e "2.IH"(1) [OF s _ _ e] skip_length [of cs] by (fastforce simp: apfst_Some)
    qed (use 2 "2.prems" s e skip_Cons_length [OF e] in auto)
  next
    case 3
    then obtain e es where e: "skip cs = e # es" using "2.prems" s by (cases "skip cs") auto
    show ?thesis
    proof (cases "e = CHR '']''")
      case False
      then show ?thesis using 3 "2.prems" s e "2.IH"(2) [OF s _ _ _ e] skip_length [of cs] by (fastforce simp: apfst_Some)
    qed (use 3 "2.prems" s e skip_Cons_length [OF e] in auto)
  next
    case 4
    then show ?thesis
      using "2.prems" s scan_number_length [of s] scan_word_length [of s]
      by (auto split: if_splits option.splits)
  qed
next
  case (4 n s)
  then obtain v u where v: "scan_value n s = Some (v, u)" by (auto split: option.splits)
  then obtain c cs where c: "skip u = c # cs" using 4(3) by (auto split: list.splits)
  have "length cs < length s" using 4(1) [OF v] skip_Cons_length [OF c] by simp
  then show ?case
    using 4(3) v c 4(2) [OF v _ c] skip_length [of cs] by (fastforce simp: apfst_Some split: if_splits)
next
  case (6 n s)
  then obtain k u where k: "s \<noteq> []" "hd s = CHR 0x22" "scan_string (tl s) = Some (k, u)" by (auto split: if_splits option.splits)
  then obtain t where t: "skip u = CHR '':'' # t" using 6(3) by (cases "skip u") (auto split: if_splits)
  then obtain v r2 where v: "scan_value n (skip t) = Some (v, r2)" using k 6(3) by (auto split: option.splits)
  then obtain c cs where c: "skip r2 = c # cs" using k t 6(3) by (cases "skip r2") auto
  have "length r2 < length (skip t)" using "6.IH"(1) k t v by auto
  also have "\<dots> \<le> length t" by (rule skip_length)
  also have "\<dots> < length u" using skip_Cons_length [OF t] .
  also have "\<dots> < length (tl s)" using scan_string_length [OF k(3)] .
  finally have "length cs < length s" using skip_Cons_length [OF c] by simp
  then show ?case
    using 6(3) k t v c "6.IH"(2) [of "(k, u)" k u "(v, r2)" v r2 c cs] skip_length [of cs]
    by (fastforce simp: apfst_Some split: if_splits)
qed auto

text \<open>More fuel than twice the length changes nothing, so the scanner refuses no text for want of it.\<close>

lemma scan_fuel:
  "2 * length s < n \<Longrightarrow> 2 * length s < m \<Longrightarrow> scan_value n s = scan_value m s"
  "2 * length s + 1 < n \<Longrightarrow> 2 * length s + 1 < m \<Longrightarrow> scan_items n s = scan_items m s"
  "2 * length s + 1 < n \<Longrightarrow> 2 * length s + 1 < m \<Longrightarrow> scan_members n s = scan_members m s"
proof (induction n s and n s and n s arbitrary: m and m and m rule: scan_value_scan_items_scan_members.induct)
  case (2 n s)
  obtain k where k: "m = Suc k" using 2(4) by (cases m) auto
  show ?case
  proof (cases s)
    case (Cons c cs)
    have "scan_members n (e # es) = scan_members k (e # es)" if "c = CHR ''{''" "skip cs = e # es" "e \<noteq> CHR ''}''" for e es
      using 2 Cons that skip_length [of cs] k by (intro "2.IH"(1)) auto
    moreover have "scan_items n (e # es) = scan_items k (e # es)" if "c = CHR ''[''" "skip cs = e # es" "e \<noteq> CHR '']''" for e es
      using 2 Cons that skip_length [of cs] k by (intro "2.IH"(2)) auto
    ultimately show ?thesis unfolding k Cons by (auto split: list.splits)
  qed (simp add: k)
next
  case (4 n s)
  obtain k where k: "m = Suc k" using 4(4) by (cases m) auto
  have v: "scan_value n s = scan_value k s" using 4(3,4) k by (intro "4.IH"(1)) auto
  have "scan_items n (skip cs) = scan_items k (skip cs)" if "scan_value n s = Some (x, u)" "skip u = CHR '','' # cs" for x u cs
    using that 4(3,4) k scan_lengths(1) [OF that(1)] skip_length [of cs] skip_Cons_length [OF that(2)]
    by (intro "4.IH"(2)) auto
  then show ?case unfolding k by (auto simp: v split: option.splits list.splits)
next
  case (6 n s)
  obtain k where k: "m = Suc k" using 6(4) by (cases m) auto
  have deep: "length (skip (tl (skip u))) < length s" if "s \<noteq> []" "scan_string (tl s) = Some (name, u)" for name u
    using that scan_string_length [OF that(2)] skip_length [of u] skip_length [of "tl (skip u)"] by (cases s) auto
  have v: "scan_value n (skip (tl (skip u))) = scan_value k (skip (tl (skip u)))"
    if "s \<noteq> []" "hd s = CHR 0x22" "scan_string (tl s) = Some (name, u)" "skip u \<noteq> []" "hd (skip u) = CHR '':''" for name u
    using that 6(3,4) k deep [OF that(1,3)] by (intro "6.IH"(1)) auto
  have "scan_members n (skip cs) = scan_members k (skip cs)"
    if "s \<noteq> []" "hd s = CHR 0x22" "scan_string (tl s) = Some (name, u)" "skip u \<noteq> []" "hd (skip u) = CHR '':''"
      "scan_value n (skip (tl (skip u))) = Some (x, r2)" "skip r2 = CHR '','' # cs" for name u x r2 cs
    using that 6(3,4) k deep [OF that(1,3)] scan_lengths(1) [OF that(6)] skip_length [of cs] skip_Cons_length [OF that(7)]
    by (intro "6.IH"(2)) auto
  with v show ?case unfolding k by (auto split: option.splits list.splits)
qed simp_all

declare dropWhile_eq_Nil_conv [simp]

section \<open>What a text can hold\<close>

lemma scan_number_ok: "scan_number s = Some (x, r) \<Longrightarrow> num_ok x"
proof -
  have cases: "(if a then None else if b then Some (PInt i, r') else map_option (\<lambda>x. (PFlo x, r')) (py_float_of t)) = Some (x, r) \<Longrightarrow>
      num_ok x" for a b i r' t
    by (auto split: if_splits dest: float_is_double)
  show "scan_number s = Some (x, r) \<Longrightarrow> ?thesis" unfolding scan_number_def Let_def by (erule cases)
qed

lemma scan_word_ok: "scan_word s = Some (v, r) \<Longrightarrow> json_ok v"
  by (auto simp: scan_word_def split: if_splits)

lemma put_ok: "json_ok v \<Longrightarrow> list_all (\<lambda>(k, v). json_ok v) d \<Longrightarrow> list_all (\<lambda>(k, v). json_ok v) (put k v d)"
  by (induction d) (auto simp: put_def)

lemma update_all_ok:
  "list_all (\<lambda>(k, v). json_ok v) m \<Longrightarrow> list_all (\<lambda>(k, v). json_ok v) d \<Longrightarrow> list_all (\<lambda>(k, v). json_ok v) (update_all d m)"
proof (induction m arbitrary: d)
  case (Cons kv m)
  then show ?case by (cases kv) (simp add: put_ok)
qed simp

lemma scan_ok:
  "scan_value n s = Some (v, r) \<Longrightarrow> json_ok v"
  "scan_items n s = Some (vs, r) \<Longrightarrow> list_all json_ok vs"
  "scan_members n s = Some (d, r) \<Longrightarrow> list_all (\<lambda>(k, v). json_ok v) d"
proof (induction n s and n s and n s arbitrary: v r and vs r and d r rule: scan_value_scan_items_scan_members.induct)
  case (2 n s)
  then obtain c cs where s: "s = c # cs" by (cases s) auto
  consider "c = CHR 0x22" | "c = CHR ''{''" | "c = CHR ''[''" | "c \<notin> set (''{['' @ [CHR 0x22])" by auto
  then show ?case
  proof cases
    case 1
    then show ?thesis using "2.prems" s by (auto simp: apfst_Some)
  next
    case 2
    then show ?thesis using "2.prems" s "2.IH"(1) [OF s]
      by (auto simp: apfst_Some update_all_ok split: list.splits if_splits)
  next
    case 3
    then show ?thesis using "2.prems" s "2.IH"(2) [OF s] by (auto simp: apfst_Some split: list.splits if_splits)
  next
    case 4
    then show ?thesis
      using "2.prems" s by (auto split: if_splits option.splits dest: scan_number_ok scan_word_ok)
  qed
next
  case (4 n s)
  then obtain x u where x: "scan_value n s = Some (x, u)" by (auto split: option.splits)
  then have "json_ok x" using 4(1) by blast
  moreover obtain c cs where c: "skip u = c # cs" using x 4(3) by (auto split: list.splits)
  moreover have "list_all json_ok ys" if "scan_items n (skip cs) = Some (ys, r)" "c = CHR '',''" for ys
    using that 4(2) [OF x refl c] by auto
  ultimately show ?case using 4(3) x by (auto simp: apfst_Some split: if_splits)
next
  case (6 n s)
  then obtain k u where k: "s \<noteq> []" "hd s = CHR 0x22" "scan_string (tl s) = Some (k, u)" by (auto split: if_splits option.splits)
  then have u: "skip u \<noteq> []" "hd (skip u) = CHR '':''" using 6(3) by (auto split: if_splits)
  then obtain x r2 where x: "scan_value n (skip (tl (skip u))) = Some (x, r2)" using k 6(3) by (auto split: if_splits option.splits)
  then have "json_ok x" using 6(1) k u by auto
  moreover obtain c cs where c: "skip r2 = c # cs" using k u x 6(3) by (auto split: list.splits if_splits)
  moreover have "list_all (\<lambda>(k, v). json_ok v) ys" if "scan_members n (skip cs) = Some (ys, r)" "c = CHR '',''" for ys
    using that "6.IH"(2) [of "(k, u)" k u "(x, r2)" x r2 c cs ys r] k u x c by auto
  ultimately show ?case using 6(3) k u x by (auto simp: apfst_Some split: if_splits)
qed auto

lemma loads_ok: "json_loads s = Inr v \<Longrightarrow> json_ok v"
  unfolding json_loads_def by (auto simp del: scan_value.simps split: option.splits if_splits dest: scan_ok(1))

text \<open>A part of such a value is one again.\<close>

lemma item_ok:
  "json_ok v \<Longrightarrow> item_key k v = Inr w \<Longrightarrow> json_ok w"
  "json_ok v \<Longrightarrow> item_idx i v = Inr w \<Longrightarrow> json_ok w"
proof -
  show "json_ok v \<Longrightarrow> item_key k v = Inr w \<Longrightarrow> json_ok w"
    by (cases v) (auto simp: sub_Inr_iff list_all_iff dest: map_of_SomeD)
  show "json_ok v \<Longrightarrow> item_idx i v = Inr w \<Longrightarrow> json_ok w"
    by (cases v) (auto simp: list_all_iff split: if_splits)
qed

end
