(* ===== verification/Artifacts.thy ===== *)
theory Artifacts
  imports RunLoop Compare Csv Json
begin

text \<open>
  The files that connect the scripts of \<open>bench/local\<close>: \<open>record.py idle\<close> writes \<open>idle.json\<close>,
  \<open>record.py run\<close> reads it and writes \<open>samples.csv\<close>, \<open>summary.json\<close> and \<open>summary.md\<close>, and
  \<open>compare.py\<close> reads the summaries. Here a file is its text. The theorems show that nothing is lost on
  the way: every value one command holds is the value the next one reads.
\<close>

section \<open>Writing and reading the files\<close>

type_synonym text_files = "string \<Rightarrow> string option"

type_synonym written_files = "(string \<times> string) list"

text \<open>\<open>open(path)\<close> and \<open>json.load\<close>.\<close>

definition read_json :: "text_files \<Rightarrow> string \<Rightarrow> pyval res" where
  "read_json files path = bindE (of_option FileNotFoundError (files path)) json_loads"

text \<open>
  A row of \<open>csv.writer\<close>: \<open>None\<close> is an empty cell, a float is written by \<open>repr\<close>, and a cell with a
  separator, a quotation mark or a line end is quoted. A sample holds no container.
\<close>

definition csv_cell :: "pyval \<Rightarrow> string res" where
  "csv_cell v = (if is_none v then Inr [] else str_scalar v)"

definition csv_special :: "char \<Rightarrow> bool" where
  "csv_special c \<longleftrightarrow> c = CHR '','' \<or> c = CHR 0x22 \<or> c = CHR 0x0A \<or> c = CHR 0x0D"

definition csv_quote :: "string \<Rightarrow> string" where
  "csv_quote s = (if list_ex csv_special s
     then CHR 0x22 # concat (map (\<lambda>c. if c = CHR 0x22 then [c, c] else [c]) s) @ [CHR 0x22] else s)"

definition csv_line :: "string list \<Rightarrow> string" where
  "csv_line cells = join '','' (map csv_quote cells) @ [CHR 0x0D, CHR 0x0A]"

text \<open>\<open>samples.csv\<close>: the header and one line per row written.\<close>

definition samples_csv :: "pyval list list \<Rightarrow> string res" where
  "samples_csv written_rows = bindE (mapE (mapE csv_cell) written_rows) (\<lambda>rs. Inr (csv_line FIELDS @ concat (map csv_line rs)))"

text \<open>\<open>cmd_idle\<close> and \<open>cmd_run\<close> with their files. Each returns what it wrote and what it printed.\<close>

definition idle_script ::
  "string \<Rightarrow> string \<Rightarrow> observation \<Rightarrow> observation \<Rightarrow> (written_files \<times> string list) res" where
  "idle_script out pid_out first second =
     bindE (cmd_idle pid_out first second) (\<lambda>(s, line).
       Inr ([(path_join out ''idle.json'', json_dumps (Some 2) (VDict s))], [line]))"

definition page_text :: "string list \<Rightarrow> string" where
  "page_text lines = join [CHR 0x0A] lines"

definition run_outputs ::
  "string \<Rightarrow> recording \<times> (string \<times> pyval dict \<times> string list) option \<Rightarrow> (written_files \<times> string list) res" where
  "run_outputs out r = (case r of (rec, result) \<Rightarrow>
     bindE (samples_csv (csv rec)) (\<lambda>samples.
       Inr (case result of
          None \<Rightarrow> ([(path_join out ''samples.csv'', samples)], printed rec)
        | Some (reason, summary, lines) \<Rightarrow>
            ([(path_join out ''samples.csv'', samples),
              (path_join out ''summary.json'', json_dumps (Some 2) (VDict summary)),
              (path_join out ''summary.md'', page_text lines)],
             printed rec @ [page_text lines]))))"

text \<open>
  An \<open>idle.json\<close> that holds no object makes \<open>idle.get\<close> fail when the summary is built; here it fails at
  once.
\<close>

definition run_script ::
  "text_files \<Rightarrow> string \<Rightarrow> run_args \<Rightarrow> string \<Rightarrow> observation \<Rightarrow> flt \<Rightarrow> tick list \<Rightarrow> pyval option \<Rightarrow>
     (written_files \<times> string list) res" where
  "run_script files out args pid_out first start ticks errors_answer =
     bindE (read_json files (path_join out ''idle.json'')) (\<lambda>v. case v of
       VDict idle \<Rightarrow> bindE (cmd_run args (Some idle) pid_out first start ticks errors_answer) (run_outputs out)
     | _ \<Rightarrow> Inl AttributeError)"

text \<open>\<open>main\<close> of \<open>record.py\<close> after \<open>argparse\<close>, which accepts these two modes only.\<close>

datatype record_mode = Mode_idle | Mode_run

definition record_main ::
  "record_mode \<Rightarrow> text_files \<Rightarrow> string \<Rightarrow> run_args \<Rightarrow> string \<Rightarrow> observation \<Rightarrow> observation \<Rightarrow> flt \<Rightarrow> tick list \<Rightarrow>
     pyval option \<Rightarrow> (written_files \<times> string list) res" where
  "record_main mode files out args pid_out first second start ticks errors_answer =
     (case mode of
        Mode_idle \<Rightarrow> idle_script out pid_out first second
      | Mode_run \<Rightarrow> run_script files out args pid_out first start ticks errors_answer)"

text \<open>\<open>compare.py\<close> on the texts of the summaries.\<close>

definition decoded_files :: "text_files \<Rightarrow> json_files" where
  "decoded_files files path = map_option json_loads (files path)"

definition compare_script :: "text_files \<Rightarrow> string list \<Rightarrow> string list res" where
  "compare_script files argv = compare_main (decoded_files files) (drop 1 argv)"

section \<open>Every value of a sample and of a summary can be written\<close>

definition exact_dict :: "pyval dict \<Rightarrow> bool" where
  "exact_dict d \<longleftrightarrow> json_ok (VDict d)"

lemma exact_dict_iff: "exact_dict d \<longleftrightarrow> distinct (keys d) \<and> (\<forall>k v. map_of d k = Some v \<longrightarrow> json_ok v)"
proof -
  have "(\<forall>(k, v) \<in> set d. json_ok v) \<longleftrightarrow> (\<forall>k v. map_of d k = Some v \<longrightarrow> json_ok v)" if "distinct (keys d)"
    using that by (auto simp: keys_def)
  then show ?thesis by (auto simp: exact_dict_def list_all_iff)
qed

lemma exact_get: "exact_dict d \<Longrightarrow> json_ok (get_or VNone d k)"
  by (simp add: exact_dict_iff get_or_def split: option.splits)

lemma exact_map: "distinct ks \<Longrightarrow> (\<And>k. k \<in> set ks \<Longrightarrow> json_ok (f k)) \<Longrightarrow> exact_dict (map (\<lambda>k. (k, f k)) ks)"
  by (simp add: exact_dict_def keys_def list_all_iff comp_def)

lemma round1_double: "is_double (round1 x)"
  by (cases x) simp_all

text \<open>The answers of Prometheus are decoded texts, so their numbers are doubles.\<close>

definition decoded :: "string option \<Rightarrow> pyval option" where
  "decoded body = (case body of None \<Rightarrow> None | Some t \<Rightarrow> (case json_loads t of Inl e \<Rightarrow> None | Inr v \<Rightarrow> Some v))"

definition decoded_answers :: "observation \<Rightarrow> bool" where
  "decoded_answers ob \<longleftrightarrow> (\<forall>q. \<exists>body. prom_answer ob q = decoded body)"

lemma decoded_ok: "decoded body = Some v \<Longrightarrow> json_ok v"
  by (auto simp: decoded_def loads_ok split: option.splits sum.splits)

lemma scrape_lines_ok:
  "(\<And>k v. map_of out k = Some v \<Longrightarrow> json_ok v) \<Longrightarrow> map_of (scrape_lines out lines) k = Some v \<Longrightarrow> json_ok v"
proof (induction out lines arbitrary: k v rule: scrape_lines.induct)
  case (2 out line lines)
  obtain name val where p: "partition_at (CHR '' '') line = (name, val)" by fastforce
  show ?case
  proof (cases "map_of SERVER_FIELDS name")
    case None
    with 2 p show ?thesis by simp
  next
    case field: (Some field)
    show ?thesis
    proof (cases "py_float_of val")
      case None
      with field 2(4) p 2(3) show ?thesis by simp
    next
      case (Some x)
      have "json_ok v" if "map_of (put field (VNum (PFlo x)) out) k = Some v" for k v
        using that 2(3) float_is_double [OF Some] by (auto split: if_splits)
      with Some field 2(2) [OF p [symmetric]] 2(4) p show ?thesis by simp
    qed
  qed
qed simp

lemma scrape_server_ok: "map_of (scrape_server body) k = Some v \<Longrightarrow> json_ok v"
proof -
  have start: "json_ok v" if "map_of (map (\<lambda>f. (f, VNone)) (map snd SERVER_FIELDS)) k = Some v" for k v
    using map_of_SomeD [OF that] by auto
  show "map_of (scrape_server body) k = Some v \<Longrightarrow> json_ok v"
    using scrape_lines_ok [OF start] start by (auto simp: scrape_server_def Let_def split: option.splits)
qed

lemma to_float_double: "num_ok n \<Longrightarrow> to_float n = Inr x \<Longrightarrow> is_double x"
proof (cases n)
  case (PInt i)
  assume "to_float n = Inr x"
  then have "mk (of_int i) = x" using PInt by (auto split: flt.splits)
  then show ?thesis using mk_double [of "of_int i"] by simp
qed auto

lemma float_of_double: "json_ok v \<Longrightarrow> float_of v = Inr x \<Longrightarrow> is_double x"
proof (cases v)
  case (VBool b)
  assume "float_of v = Inr x"
  then show ?thesis using VBool rnd_int [of 1] by (cases b) auto
qed (auto simp: res_simps dest: float_is_double to_float_double)

lemma prom_double:
  assumes "\<And>v. answer = Some v \<Longrightarrow> json_ok v" "prom answer = Inr (Some x)"
  shows "is_double x"
proof -
  obtain v d r first pair raw where "answer = Some v" "item_key ''data'' v = Inr d" "item_key ''result'' d = Inr r"
    "item_idx 0 r = Inr first" "item_key ''value'' first = Inr pair" "item_idx 1 pair = Inr raw" "float_of raw = Inr x"
    using assms(2) unfolding prom_def answer_data_def by (auto simp: bindE_Inr_iff split: option.splits sum.splits if_splits)
  then show ?thesis using assms(1) item_ok float_of_double by metis
qed

lemma cpu_field_ok: "cpu_field u now prev = Inr v \<Longrightarrow> json_ok v"
  by (auto simp: cpu_field_def cpu_percent_def bindE_Inr_iff round1_double split: option.splits)

lemma vint_ok: "json_ok (vint i)"
  by (cases i) simp_all

lemma cgroup_fields_ok:
  "json_ok cpu \<Longrightarrow> map_of (cgroup_fields time cur peak st events pids cpu) k = Some v \<Longrightarrow> json_ok v"
  by (auto simp: cgroup_fields_def vint_ok round1_double split: if_splits)

text \<open>A sample can be written: its keys are distinct and its numbers are doubles.\<close>

lemma sample_exact:
  assumes "sample ob sp = Inr (s, sp')" "decoded_answers ob"
  shows "exact_dict s"
proof (rule sample_lookup [OF assms(1)])
  fix cur peak stat events pids cpu_stat cpu qs ct
  assume cpu: "cpu_field (map_of cpu_stat ''usage_usec'') (mono ob) (last_cpu sp) = Inr cpu"
    and s: "\<And>k. map_of s k =
       (if k = ''state'' then Some (VStr (docker_state (docker_out ob)))
        else if k = ''conntrack'' then Some (vint ct)
        else if k \<in> fst ` set QUERIES then map_of qs k
        else if k \<in> snd ` set SERVER_FIELDS then map_of (scrape_server (metrics_page ob)) k
        else map_of (cgroup_fields (wall ob) cur peak stat events pids cpu) k)"
  have q: "json_ok v" if k: "(k, q) \<in> set QUERIES" "map_of s k = Some v" for k q v
  proof -
    obtain a where a: "prom (prom_answer ob q) = Inr a" "v = vflt a" using sample_query_column [OF assms(1) k(1)] k(2) by auto
    have "json_ok w" if "prom_answer ob q = Some w" for w
      using that assms(2) decoded_ok unfolding decoded_answers_def by metis
    then show ?thesis using a prom_double by (cases a) auto
  qed
  have "json_ok v" if v: "map_of s k = Some v" for k v
  proof -
    consider q where "(k, q) \<in> set QUERIES" | "k \<notin> fst ` set QUERIES" by force
    then show ?thesis
    proof cases
      case 2
      then show ?thesis
        using v s [of k] scrape_server_ok cgroup_fields_ok [OF cpu_field_ok [OF cpu]] vint_ok by (auto split: if_splits)
    qed (rule q [OF _ v])
  qed
  then show ?thesis using sample_keys(2) [OF assms(1)] by (simp add: exact_dict_iff)
qed

lemma last_of_member: "last_of xs = Inr x \<Longrightarrow> x \<in> set xs"
  by (cases xs) (auto split: if_splits)

lemma peak_row_member: "live_rows rs = Inr lv \<Longrightarrow> peak_row rs lv = Inr peak \<Longrightarrow> peak \<in> set rs"
  by (auto simp: peak_row_def rows_above_def live_rows_def bindE_Inr_iff dest!: last_of_member filterE_set split: if_splits)

lemma copied_dict:
  "mapE (\<lambda>k. bindE (sub r k) (\<lambda>v. Inr (k, v))) ks = Inr kvs \<Longrightarrow> keys kvs = ks \<and> (\<forall>(k, v) \<in> set kvs. map_of r k = Some v)"
  by (induction ks arbitrary: kvs) (auto simp: bindE_Inr_iff sub_Inr_iff)

lemma copied_exact:
  assumes "mapE (\<lambda>k. bindE (sub r k) (\<lambda>v. Inr (k, v))) ks = Inr kvs" "distinct ks" "exact_dict r"
  shows "exact_dict kvs"
  using copied_dict [OF assms(1)] assms(2,3) by (fastforce simp: exact_dict_iff keys_def dest: map_of_SomeD)

lemma per_conn_ok: "per_conn v i conns = Inr b \<Longrightarrow> json_ok b"
  by (auto simp: per_conn_def bindE_Inr_iff split: if_splits)

lemma bytes_exact: "bytes_per_connection peak idle conns = Inr b \<Longrightarrow> exact_dict b"
proof -
  have rows: "keys b = map fst xs \<and> (\<forall>(k, v) \<in> set b. json_ok v)"
    if "mapE (\<lambda>(key, field, optional).
       bindE (sub peak field) (\<lambda>v.
       bindE (if optional then Inr (get_or VNone idle field) else sub idle field) (\<lambda>i.
       bindE (per_conn v i conns) (\<lambda>b. Inr (key, b))))) xs = Inr b" for xs
    using that by (induction xs arbitrary: b) (auto simp: bindE_Inr_iff intro: per_conn_ok)
  have "distinct (map fst BYTES)" by (simp add: BYTES_def)
  then show "bytes_per_connection peak idle conns = Inr b \<Longrightarrow> ?thesis"
    unfolding bytes_per_connection_def using rows by (auto simp: exact_dict_def list_all_iff)
qed

lemma error_counts_distinct: "error_counts errors = Inr err \<Longrightarrow> distinct (keys err)"
proof -
  have "distinct (keys d) \<Longrightarrow> distinct (keys (fold (\<lambda>(k, n). put k n) es d))" for d :: "int dict" and es
    by (induction es arbitrary: d) auto
  from this [of "[]"] show "error_counts errors = Inr err \<Longrightarrow> ?thesis" by (auto simp: error_counts_def bindE_Inr_iff)
qed

lemma peak_bytes_ok: "peak_bytes rs = Inr v \<Longrightarrow> (\<And>r. r \<in> set rs \<Longrightarrow> exact_dict r) \<Longrightarrow> json_ok v"
proof -
  assume v: "peak_bytes rs = Inr v" and rows: "\<And>r. r \<in> set rs \<Longrightarrow> exact_dict r"
  obtain n ns where ns: "mapE (\<lambda>r. bindE (sub r ''cg_peak'') (\<lambda>v. num_of (or_zero v))) rs = Inr (n # ns)" "v = VNum (num_max n ns)"
  proof -
    obtain xs where xs: "mapE (\<lambda>r. bindE (sub r ''cg_peak'') (\<lambda>v. num_of (or_zero v))) rs = Inr xs"
      "(case xs of [] \<Rightarrow> Inl ValueError | n # ns \<Rightarrow> Inr (VNum (num_max n ns))) = Inr v"
      using v by (auto simp: peak_bytes_def bindE_Inr_iff)
    then show ?thesis using that by (cases xs) auto
  qed
  have num: "num_ok m" if "json_ok w" "num_of (or_zero w) = Inr m" for w m
    using that by (cases w) (auto simp: or_zero_def split: if_splits)
  have "num_ok m" if m: "m \<in> set (n # ns)" for m
  proof -
    obtain r where r: "r \<in> set rs" "bindE (sub r ''cg_peak'') (\<lambda>v. num_of (or_zero v)) = Inr m"
      using mapE_member [OF ns(1) m] by blast
    then obtain w where "map_of r ''cg_peak'' = Some w" "num_of (or_zero w) = Inr m" by (auto simp: bindE_Inr_iff sub_Inr_iff)
    then show ?thesis using rows [OF r(1)] num by (auto simp: exact_dict_iff)
  qed
  then show ?thesis using num_max_in [of n ns] ns(2) by simp
qed

lemma summary_exact:
  assumes "summary_dict vnt idle rs reason errors = Inr s" "exact_dict idle" "\<And>r. r \<in> set rs \<Longrightarrow> exact_dict r"
  shows "exact_dict s"
proof (rule summary_dictE [OF assms(1)])
  fix lv peak sc conns pc target pk b err f st sv mp dur cpu
  assume lv: "live_rows rs = Inr lv" "peak_row rs lv = Inr peak" and target: "sub peak ''loadgen_target'' = Inr target"
    and pk: "mapE (\<lambda>k. bindE (sub peak k) (\<lambda>v. Inr (k, v))) (filter (\<lambda>k. k \<noteq> ''t'' \<and> k \<noteq> ''state'') FIELDS) = Inr pk"
    and b: "bytes_per_connection peak idle conns = Inr b" and mp: "peak_bytes rs = Inr mp"
    and err: "error_counts errors = Inr err"
    and s: "s = [(''variant'', VStr vnt), (''stop_reason'', VStr reason),
            (''duration_s'', VNum (PInt dur)), (''peak_connections'', VNum (PInt pc)),
            (''loadgen_target'', target), (''at_peak'', VDict pk),
            (''idle'', VDict (map (\<lambda>k. (k, get_or VNone idle k)) IDLE_KEYS)),
            (''bytes_per_connection'', VDict b),
            (''cpu_pct_near_peak_avg'', cpu_average cpu),
            (''final_state'', VStr f),
            (''oom_killed'', VBool (contains '' true '' ('' '' @ f @ '' ''))),
            (''cgroup_memory_peak'', mp),
            (''dial_errors_by_reason'', VDict (map (\<lambda>(k, n). (k, VNum (PInt n))) err))]"
  have peak: "exact_dict peak" using peak_row_member [OF lv] assms(3) by blast
  have "json_ok target" using target peak by (auto simp: sub_Inr_iff exact_dict_iff)
  moreover have "json_ok (VDict pk)"
    using copied_exact [OF pk _ peak] by (simp add: exact_dict_def FIELDS_def)
  moreover have "json_ok (VDict (map (\<lambda>k. (k, get_or VNone idle k)) IDLE_KEYS))"
    using exact_map [of IDLE_KEYS "get_or VNone idle"] exact_get [OF assms(2)] by (simp add: exact_dict_def IDLE_KEYS_def)
  moreover have "json_ok (VDict b)" using bytes_exact [OF b] by (simp add: exact_dict_def)
  moreover have "json_ok mp" using peak_bytes_ok [OF mp assms(3)] .
  moreover have "json_ok (cpu_average cpu)" by (simp add: cpu_average_def round1_double)
  moreover have "json_ok (VDict (map (\<lambda>(k, n). (k, VNum (PInt n))) err))"
    using error_counts_distinct [OF err] by (auto simp: list_all_iff keys_def case_prod_unfold comp_def)
  ultimately show "exact_dict s" unfolding s exact_dict_def by (simp del: json_ok.simps(1-3) add: json_ok.simps(3) json_ok.simps(1) [of "PInt i" for i])
qed

lemma run_loop_exact:
  "run_loop args start ticks (sp, st, rec) = Inr (rec', r) \<Longrightarrow> (\<And>tk. tk \<in> set ticks \<Longrightarrow> decoded_answers (fst tk)) \<Longrightarrow>
     list_all exact_dict (rows rec) \<Longrightarrow> list_all exact_dict (rows rec')"
proof (induction ticks arbitrary: sp st rec)
  case (Cons tk ticks)
  obtain ob ck where tk: "tk = (ob, ck)" by (cases tk)
  from Cons.prems(1) obtain sp1 st1 rec1 r1 where
    it: "run_iteration args start (ob, ck) (sp, st, rec) = Inr ((sp1, st1, rec1), r1)"
    and rest: "if r1 \<noteq> None then (rec1, r1) = (rec', r) else run_loop args start ticks (sp1, st1, rec1) = Inr (rec', r)"
    by (auto simp: tk bindE_Inr_iff split: if_splits)
  obtain s row line where s: "sample ob sp = Inr (s, sp1)"
    "rec1 = rec\<lparr>rows := rows rec @ [s], csv := csv rec @ [row], printed := printed rec @ [line]\<rparr>"
    using it by (rule run_iterationE)
  have "decoded_answers ob" using Cons.prems(2) [of tk] by (simp add: tk)
  then have "list_all exact_dict (rows rec1)" using sample_exact [OF s(1)] s(2) Cons.prems(3) by simp
  then show ?case using rest Cons.IH [of sp1 st1 rec1] Cons.prems(2) by (auto split: if_splits)
qed simp

lemma run_loop_typed:
  "run_loop args start ticks (sp, st, rec) = Inr (rec', r) \<Longrightarrow> s \<in> set (rows rec') \<Longrightarrow> s \<notin> set (rows rec) \<Longrightarrow>
     map_of s k = Some v \<Longrightarrow> typed_value k v"
proof (induction ticks arbitrary: sp st rec)
  case (Cons tk ticks)
  obtain ob ck where tk: "tk = (ob, ck)" by (cases tk)
  from Cons.prems(1) obtain sp1 st1 rec1 r1 where
    it: "run_iteration args start (ob, ck) (sp, st, rec) = Inr ((sp1, st1, rec1), r1)"
    and rest: "if r1 \<noteq> None then (rec1, r1) = (rec', r) else run_loop args start ticks (sp1, st1, rec1) = Inr (rec', r)"
    by (auto simp: tk bindE_Inr_iff split: if_splits)
  obtain s' row line where s': "sample ob sp = Inr (s', sp1)"
    "rec1 = rec\<lparr>rows := rows rec @ [s'], csv := csv rec @ [row], printed := printed rec @ [line]\<rparr>"
    using it by (rule run_iterationE)
  show ?case
  proof (cases "s = s'")
    case True
    then show ?thesis using sample_typed [OF s'(1)] Cons.prems(4) by simp
  next
    case False
    then show ?thesis using rest s'(2) Cons.prems Cons.IH [of sp1 st1 rec1] by (auto split: if_splits)
  qed
qed simp

lemma cmd_runE:
  assumes "cmd_run args (Some idle) pid_out first start ticks answer = Inr (rec, result)"
  obtains sp0 s0 sp reason where "Sampler_init (fs first) pid_out = Inr sp0" "sample first sp0 = Inr (s0, sp)"
    "run_loop args start ticks (sp, run_start start, empty_recording) = Inr (rec, reason)"
    "case reason of None \<Rightarrow> result = None | Some r \<Rightarrow> (\<exists>summary lines. result = Some (r, summary, lines) \<and>
       write_summary (variant args) idle (rows rec) r (prom_vector answer) = Inr (summary, lines))"
proof -
  obtain sp0 s0 sp rec' reason where run: "Sampler_init (fs first) pid_out = Inr sp0" "sample first sp0 = Inr (s0, sp)"
    "run_loop args start ticks (sp, run_start start, empty_recording) = Inr (rec', reason)"
    "(case reason of None \<Rightarrow> Inr (rec', None)
       | Some r \<Rightarrow>
           bindE (write_summary (variant args) idle (rows rec') r (prom_vector answer)) (\<lambda>(summary, lines).
             Inr (rec', Some (r, summary, lines)))) = Inr (rec, result)"
    using assms by (auto simp: cmd_run_def bindE_Inr_iff)
  then have "rec' = rec" "case reason of None \<Rightarrow> result = None | Some r \<Rightarrow> (\<exists>summary lines. result = Some (r, summary, lines) \<and>
       write_summary (variant args) idle (rows rec) r (prom_vector answer) = Inr (summary, lines))"
    by (auto simp: bindE_Inr_iff split: option.splits)
  then show thesis using that run by blast
qed

lemma run_exact:
  assumes "cmd_run args (Some idle) pid_out first start ticks answer = Inr (rec, result)"
    "\<And>tk. tk \<in> set ticks \<Longrightarrow> decoded_answers (fst tk)"
  shows "list_all exact_dict (rows rec)" and "csv rec = map (\<lambda>s. map (get_or (VStr []) s) FIELDS) (rows rec)"
    and "\<forall>s \<in> set (rows rec). set (keys s) = set FIELDS"
proof -
  obtain sp0 s0 sp reason where run: "run_loop args start ticks (sp, run_start start, empty_recording) = Inr (rec, reason)"
    using assms(1) by (rule cmd_runE)
  show "list_all exact_dict (rows rec)" using run_loop_exact [OF run assms(2)] by (simp add: empty_recording_def)
  show "csv rec = map (\<lambda>s. map (get_or (VStr []) s) FIELDS) (rows rec)" "\<forall>s \<in> set (rows rec). set (keys s) = set FIELDS"
    using run_loop_rows [OF run] by (auto simp: empty_recording_def)
qed

section \<open>The table of the samples\<close>

text \<open>What a cell says of the value it was written for.\<close>

fun cell_means :: "string \<Rightarrow> pyval \<Rightarrow> bool" where
  "cell_means c VNone = (c = [])"
| "cell_means c (VNum (PInt n)) = (py_int_of c = Some n)"
| "cell_means c (VNum (PFlo x)) = (py_float_of c = Some x)"
| "cell_means c (VStr s) = (c = s)"
| "cell_means c v = False"

definition plain_char :: "char \<Rightarrow> bool" where
  "plain_char c \<longleftrightarrow> \<not> csv_special c \<and> \<not> line_break c"

lemma number_chars_plain: "is_digit c \<or> c \<in> set ''.e+-infa'' \<Longrightarrow> plain_char c"
proof -
  have "list_all plain_char ''.e+-infa''" by code_simp
  moreover have "plain_char c" if "is_digit c"
    using that by (auto simp: plain_char_def csv_special_def is_digit_def line_break_def Let_def)
  ultimately show "is_digit c \<or> c \<in> set ''.e+-infa'' \<Longrightarrow> ?thesis" by (auto simp: list_all_iff)
qed

lemma repr_chars: "is_double x \<Longrightarrow> c \<in> set (py_repr x) \<Longrightarrow> is_digit c \<or> c \<in> set ''.e+-infa''"
proof (cases x)
  case (Fin r)
  assume x: "is_double x" and c: "c \<in> set (py_repr x)"
  have pos: "is_digit c \<or> c \<in> set ''.e+-''" if y: "is_double (Fin y)" "0 < y" and c: "c \<in> set (repr_pos y)" for y
  proof -
    obtain ip fp ex v where "denotes (repr_pos y) ip fp ex v" "fp \<noteq> [] \<or> ex \<noteq> []" "mk v = Fin y"
      using repr_pos_denotes [OF y] .
    then show ?thesis using denotes_chars c by blast
  qed
  have m: "is_double (Fin r)" "is_double (Fin (- r))"
    using x is_double_uminus [of x] unfolding Fin by (simp_all only: uminus_flt.simps)
  have zero: "c \<in> set ''0.0'' \<Longrightarrow> is_digit c \<or> c = CHR ''.''" by auto
  consider "r = 0" | "0 < r" | "0 < - r" by linarith
  then show ?thesis
  proof cases
    case 1
    then show ?thesis using c zero Fin by auto
  next
    case 2
    then show ?thesis using c pos [OF m(1)] Fin by auto
  next
    case 3
    then have "c = CHR ''-'' \<or> c \<in> set (repr_pos (- r))" using c Fin by auto
    then show ?thesis using pos [OF m(2) 3] by auto
  qed
qed (simp_all, blast+)

text \<open>Every value of a sample is a cell that needs no quoting, if the state of the container needs none.\<close>

lemma csv_cell_plain:
  assumes "json_ok v" "v = VNone \<or> (\<exists>n. v = VNum n) \<or> (\<exists>s. v = VStr s \<and> list_all plain_char s)"
  shows "\<exists>c. csv_cell v = Inr c \<and> cell_means c v \<and> list_all plain_char c"
proof -
  have "list_all plain_char (show_int i)" for i
    using show_int_chars [of _ i] number_chars_plain by (fastforce simp: list_all_iff)
  moreover have "list_all plain_char (py_repr x)" if "is_double x" for x
    using repr_chars [OF that] number_chars_plain by (auto simp: list_all_iff)
  moreover have "cell_means c (VNum n)" if "n = PInt i \<and> c = show_int i \<or> n = PFlo x \<and> c = py_repr x \<and> is_double x" for c n i x
    using that py_int_show_int repr_reads_back by auto
  ultimately show ?thesis
    using assms by (cases v rule: str_scalar.cases) (auto simp: csv_cell_def is_none_def py_int_show_int repr_reads_back)
qed

lemma join_plain: "(\<And>c. c \<in> set cs \<Longrightarrow> list_all plain_char c) \<Longrightarrow> list_all (\<lambda>c. plain_char c \<or> c = CHR '','') (join '','' cs)"
  by (induction "'',''" cs rule: join.induct) (auto simp: list_all_iff)

lemma csv_quote_plain: "list_all plain_char c \<Longrightarrow> csv_quote c = c"
  by (auto simp: csv_quote_def list_all_iff list_ex_iff plain_char_def)

text \<open>A line of plain cells is read back as its cells.\<close>

definition plain_row :: "string list \<Rightarrow> bool" where
  "plain_row cells \<longleftrightarrow> 2 \<le> length cells \<and> list_all (list_all plain_char) cells"

lemma plain_row_read: "plain_row cells \<Longrightarrow> csv_row (join '','' cells) = cells"
proof -
  assume p: "plain_row cells"
  then obtain a b cs where c: "cells = a # b # cs" by (auto simp: plain_row_def neq_Nil_conv Suc_le_length_iff numeral_2_eq_2)
  have "\<not> plain_char (CHR '','')" by (simp add: plain_char_def csv_special_def)
  then have "\<And>w. w \<in> set cells \<Longrightarrow> CHR '','' \<notin> set w" using p by (auto simp: plain_row_def list_all_iff)
  then have "split_on (CHR '','') (join '','' cells) = cells" using c by (intro split_on_join) auto
  moreover have "join '','' cells \<noteq> []" by (simp add: c)
  ultimately show ?thesis by (simp add: csv_row_def)
qed

lemma plain_line: "plain_row cells \<Longrightarrow> csv_line cells = join '','' cells @ [CHR 0x0D, CHR 0x0A]"
proof -
  assume "plain_row cells"
  then have "map csv_quote cells = cells" by (intro map_idI) (auto simp: plain_row_def list_all_iff intro!: csv_quote_plain)
  then show ?thesis by (simp add: csv_line_def)
qed

lemma lines_from_join: "list_all (\<lambda>c. plain_char c \<or> c = CHR '','') w \<Longrightarrow>
    lines_from cur (w @ CHR 0x0D # CHR 0x0A # t) = (rev cur @ w) # lines_from [] t"
proof (induction w arbitrary: cur)
  case Nil
  then show ?case by simp
next
  case (Cons c w)
  have "\<not> line_break (CHR '','')" by code_simp
  then have "\<not> line_break c" using Cons.prems by (auto simp: plain_char_def)
  moreover from this have "of_char c \<noteq> (13::int)" by (auto simp: line_break_def Let_def)
  ultimately show ?case using Cons by simp
qed

lemma splitlines_table:
  "list_all plain_row table \<Longrightarrow> splitlines (concat (map csv_line table)) = map (join '','') table"
proof (induction table)
  case (Cons cells table)
  have "list_all (\<lambda>c. plain_char c \<or> c = CHR '','') (join '','' cells)"
    using Cons.prems by (intro join_plain) (auto simp: plain_row_def list_all_iff)
  then show ?case using Cons plain_line [of cells] lines_from_join [of "join '','' cells" "[]"] by (simp add: splitlines_def)
qed (simp add: splitlines_def)

lemma FIELDS_row: "plain_row FIELDS" "distinct FIELDS" "length FIELDS = 27"
  unfolding FIELDS_def by code_simp+

lemma read_table:
  assumes "list_all plain_row table" "\<And>cells. cells \<in> set table \<Longrightarrow> length cells = 27"
  shows "dict_reader (splitlines (csv_line FIELDS @ concat (map csv_line table))) = map (dict_row FIELDS) table"
proof -
  have "splitlines (concat (map csv_line (FIELDS # table))) = map (join '','') (FIELDS # table)"
    using assms(1) FIELDS_row(1) by (intro splitlines_table) simp
  moreover have "map csv_row (map (join '','') table) = table"
    using assms(1) plain_row_read unfolding map_map by (intro map_idI) (auto simp: list_all_iff)
  moreover have "filter (\<lambda>r. r \<noteq> []) table = table" using assms(2) by (fastforce simp: filter_id_conv)
  ultimately show ?thesis using plain_row_read [OF FIELDS_row(1)] by simp
qed

definition state_plain :: "pyval dict \<Rightarrow> bool" where
  "state_plain s \<longleftrightarrow> (case map_of s ''state'' of Some (VStr t) \<Rightarrow> list_all plain_char t | _ \<Rightarrow> False)"

text \<open>The cells of one sample.\<close>

lemma sample_cells:
  assumes "exact_dict s" "set (keys s) = set FIELDS" "\<And>k v. map_of s k = Some v \<Longrightarrow> typed_value k v" "state_plain s"
  shows "\<exists>cells. mapE csv_cell (map (get_or (VStr []) s) FIELDS) = Inr cells \<and> plain_row cells \<and> length cells = 27 \<and>
    (\<forall>k \<in> set FIELDS. \<exists>v c. map_of s k = Some v \<and> sub (dict_row FIELDS cells) k = Inr (Some c) \<and> cell_means c v)"
proof -
  have one: "\<exists>v c. map_of s k = Some v \<and> csv_cell v = Inr c \<and> cell_means c v \<and> list_all plain_char c" if "k \<in> set FIELDS" for k
  proof -
    have "k \<in> set (keys s)" using that assms(2) by simp
    then obtain v where v: "map_of s k = Some v" using keys_map_of [of s k] by (cases "map_of s k") auto
    have "v = VNone \<or> (\<exists>n. v = VNum n) \<or> (\<exists>t. v = VStr t \<and> list_all plain_char t)"
      using assms(3) [OF v] assms(4) v by (auto simp: typed_value_def state_plain_def split: if_splits)
    moreover have "json_ok v" using assms(1) v by (simp add: exact_dict_iff)
    ultimately show ?thesis using csv_cell_plain v by blast
  qed
  define cell where "cell k = (case csv_cell (get_or (VStr []) s k) of Inr c \<Rightarrow> c | Inl e \<Rightarrow> [])" for k
  have cell: "csv_cell (get_or (VStr []) s k) = Inr (cell k)" "list_all plain_char (cell k)"
    "\<exists>v. map_of s k = Some v \<and> cell_means (cell k) v" if "k \<in> set FIELDS" for k
    using one [OF that] by (auto simp: cell_def get_or_def)
  let ?cells = "map cell FIELDS"
  have "mapE csv_cell (map (get_or (VStr []) s) FIELDS) = Inr ?cells"
    using cell(1) by (rule mapE_map)
  moreover have "plain_row ?cells" using cell(2) FIELDS_row(3) by (auto simp: plain_row_def list_all_iff)
  moreover have "\<exists>v c. map_of s k = Some v \<and> sub (dict_row FIELDS ?cells) k = Inr (Some c) \<and> cell_means c v" if k: "k \<in> set FIELDS" for k
  proof -
    obtain i where "i < length FIELDS" "FIELDS ! i = k" using k by (auto simp: in_set_conv_nth)
    then have "sub (dict_row FIELDS ?cells) k = Inr (Some (cell k))"
      using dict_row_cell [OF FIELDS_row(2), of i ?cells] by simp
    then show ?thesis using cell(3) [OF k] by blast
  qed
  ultimately show ?thesis using FIELDS_row(3) by (intro exI [of _ ?cells]) simp
qed

lemma samples_csv_read:
  assumes run: "cmd_run args (Some idle) pid_out first start ticks answer = Inr (rec, result)"
    and answers: "\<And>tk. tk \<in> set ticks \<Longrightarrow> decoded_answers (fst tk)"
    and states: "list_all state_plain (rows rec)"
  shows "\<exists>body table. samples_csv (csv rec) = Inr body \<and> dict_reader (splitlines body) = table \<and>
    list_all2 (\<lambda>s row. \<forall>k \<in> set FIELDS. \<exists>v c. map_of s k = Some v \<and> sub row k = Inr (Some c) \<and> cell_means c v) (rows rec) table"
proof -
  obtain sp0 s0 sp reason where loop: "run_loop args start ticks (sp, run_start start, empty_recording) = Inr (rec, reason)"
    using run by (rule cmd_runE)
  let ?line = "\<lambda>s. map (get_or (VStr []) s) FIELDS"
  have exact: "list_all exact_dict (rows rec)" "csv rec = map ?line (rows rec)" "\<forall>s \<in> set (rows rec). set (keys s) = set FIELDS"
    using run_exact [OF run] answers by blast+
  have "\<exists>cells. mapE csv_cell (?line s) = Inr cells \<and> plain_row cells \<and> length cells = 27 \<and>
      (\<forall>k \<in> set FIELDS. \<exists>v c. map_of s k = Some v \<and> sub (dict_row FIELDS cells) k = Inr (Some c) \<and> cell_means c v)"
    if s: "s \<in> set (rows rec)" for s
  proof (rule sample_cells)
    show "exact_dict s" "set (keys s) = set FIELDS" "state_plain s"
      using exact states s by (auto simp: list_all_iff)
    show "\<And>k v. map_of s k = Some v \<Longrightarrow> typed_value k v" using run_loop_typed [OF loop] s by (auto simp: empty_recording_def)
  qed
  then obtain cells where cells: "\<And>s. s \<in> set (rows rec) \<Longrightarrow> mapE csv_cell (?line s) = Inr (cells s) \<and> plain_row (cells s) \<and>
      length (cells s) = 27 \<and>
      (\<forall>k \<in> set FIELDS. \<exists>v c. map_of s k = Some v \<and> sub (dict_row FIELDS (cells s)) k = Inr (Some c) \<and> cell_means c v)"
    by metis
  let ?table = "map cells (rows rec)"
  have "samples_csv (csv rec) = Inr (csv_line FIELDS @ concat (map csv_line ?table))"
    unfolding samples_csv_def exact(2) using cells by (subst mapE_map [where h = cells]) auto
  moreover have "dict_reader (splitlines (csv_line FIELDS @ concat (map csv_line ?table))) = map (dict_row FIELDS) ?table"
    using cells by (intro read_table) (auto simp: list_all_iff)
  ultimately show ?thesis using cells by (auto simp: list_all2_conv_all_nth)
qed

section \<open>Properties\<close>

text \<open>
  C29: The file of the samples is exact: while a run goes on and when it has ended, \<open>samples.csv\<close> read as
  a CSV file has one row per sample, in order, and each cell read as a number is exactly the number in
  the sample; an empty cell is a missing value.
\<close>

theorem samples_csv_exact:
  assumes run: "cmd_run args (Some idle) pid_out first start ticks answer = Inr (rec, result)"
    and answers: "\<And>tk. tk \<in> set ticks \<Longrightarrow> decoded_answers (fst tk)"
    and states: "list_all state_plain (rows rec)"
  shows "\<exists>body table. samples_csv (csv rec) = Inr body \<and> dict_reader (splitlines body) = table \<and>
    list_all2 (\<lambda>s row. \<forall>k \<in> set FIELDS. \<exists>v c. map_of s k = Some v \<and> sub row k = Inr (Some c) \<and> cell_means c v) (rows rec) table"
  by (rule samples_csv_read [OF run _ states]) (rule answers)

text \<open>A run in the examples: the answers are the texts of decoded values.\<close>

lemma decoded_dumps: "json_ok v \<Longrightarrow> decoded (Some (json_dumps None v)) = Some v"
  by (simp add: decoded_def json_round)

lemma example_answers: "decoded_answers (container_observation time conns)"
proof -
  have "json_ok (vector_answer n)" for n by (simp add: vector_answer_def)
  then have "Some (vector_answer n) = decoded (Some (json_dumps None (vector_answer n)))" "None = decoded None" for n
    by (simp_all add: decoded_dumps) (simp add: decoded_def)
  then show ?thesis unfolding decoded_answers_def container_observation_def server_observation_def by auto
qed

definition example_ticks :: "tick list" where
  "example_ticks = [(container_observation 1002 500, clocks_at 1002), (container_observation 2800 900, clocks_at 2800)]"

lemma example_tick_answers: "tk \<in> set example_ticks \<Longrightarrow> decoded_answers (fst tk)"
  using example_answers by (auto simp: example_ticks_def)

lemma example_cmd_run:
  obtains rec reason summary lines where
    "cmd_run example_args (Some (example_row 0 0)) ''42'' (container_observation 998 0) (Fin 1000) example_ticks None =
      Inr (rec, Some (reason, summary, lines))"
    "list_all proper_row (rows rec)" "list_all state_plain (rows rec)" "length (rows rec) = 2"
proof -
  have "bindE (cmd_run example_args (Some (example_row 0 0)) ''42'' (container_observation 998 0) (Fin 1000) example_ticks None)
      (\<lambda>(rec, result). Inr (list_all tidy_row (rows rec) \<and> list_all state_plain (rows rec) \<and> length (rows rec) = 2 \<and>
         result \<noteq> None)) = Inr True"
    by code_simp
  then show ?thesis using that tidy_row_proper by (fastforce simp: bindE_Inr_iff list_all_iff)
qed

theorem samples_csv_exact_witness:
  "\<exists>rec result body. cmd_run example_args (Some (example_row 0 0)) ''42'' (container_observation 998 0) (Fin 1000) example_ticks None =
      Inr (rec, result) \<and> samples_csv (csv rec) = Inr body \<and> length (dict_reader (splitlines body)) = 2"
proof -
  obtain rec reason summary lines where r:
    "cmd_run example_args (Some (example_row 0 0)) ''42'' (container_observation 998 0) (Fin 1000) example_ticks None =
      Inr (rec, Some (reason, summary, lines))" "list_all state_plain (rows rec)" "length (rows rec) = 2"
    by (rule example_cmd_run)
  then show ?thesis using samples_csv_exact [OF r(1) example_tick_answers r(2)] by (auto dest!: list_all2_lengthD)
qed

text \<open>
  C27: The idle sample reaches the run: when \<open>record.py run\<close> starts in the directory where
  \<open>record.py idle\<close> has written its file, it works with exactly the sample that \<open>record.py idle\<close> took.
\<close>

theorem idle_reaches_the_run:
  assumes "idle_script out idle_pid first second = Inr (written, said)" "decoded_answers second"
    "files (path_join out ''idle.json'') = map_of written (path_join out ''idle.json'')"
  shows "\<exists>s line. cmd_idle idle_pid first second = Inr (s, line) \<and> said = [line] \<and>
    run_script files out args pid_out obs start ticks answer =
      bindE (cmd_run args (Some s) pid_out obs start ticks answer) (run_outputs out)"
proof -
  obtain s line where s: "cmd_idle idle_pid first second = Inr (s, line)" "said = [line]"
    "written = [(path_join out ''idle.json'', json_dumps (Some 2) (VDict s))]"
    using assms(1) by (auto simp: idle_script_def bindE_Inr_iff)
  obtain sp sp' where "sample second sp = Inr (s, sp')" using s(1) by (auto simp: cmd_idle_def bindE_Inr_iff)
  then have "json_ok (VDict s)" using sample_exact assms(2) by (auto simp: exact_dict_def)
  then have "read_json files (path_join out ''idle.json'') = Inr (VDict s)"
    using assms(3) s(3) json_round [of "VDict s" "Some 2"] by (simp add: read_json_def)
  then show ?thesis using s(1,2) by (simp add: run_script_def)
qed

theorem idle_reaches_the_run_witness:
  "\<exists>written s line. idle_script ''out'' ''42'' (container_observation 990 0) (container_observation 992 0) = Inr (written, [line]) \<and>
    cmd_idle ''42'' (container_observation 990 0) (container_observation 992 0) = Inr (s, line) \<and>
    run_script (map_of written) ''out'' example_args ''42'' (container_observation 998 0) (Fin 1000) example_ticks None =
      bindE (cmd_run example_args (Some s) ''42'' (container_observation 998 0) (Fin 1000) example_ticks None) (run_outputs ''out'')"
proof -
  have "bindE (cmd_idle ''42'' (container_observation 990 0) (container_observation 992 0)) (\<lambda>x. Inr True) = Inr True" by code_simp
  then obtain written said where w: "idle_script ''out'' ''42'' (container_observation 990 0) (container_observation 992 0) = Inr (written, said)"
    by (auto simp: idle_script_def bindE_Inr_iff)
  then obtain s line where "cmd_idle ''42'' (container_observation 990 0) (container_observation 992 0) = Inr (s, line)" "said = [line]"
    "run_script (map_of written) ''out'' example_args ''42'' (container_observation 998 0) (Fin 1000) example_ticks None =
      bindE (cmd_run example_args (Some s) ''42'' (container_observation 998 0) (Fin 1000) example_ticks None) (run_outputs ''out'')"
    using idle_reaches_the_run [where files = "map_of written", OF w example_answers refl] by blast
  then show ?thesis using w by blast
qed

text \<open>What a run of the recorder leaves as \<open>summary.json\<close>, from well-typed samples.\<close>

definition run_wrote :: "string \<Rightarrow> bool" where
  "run_wrote t \<longleftrightarrow> (\<exists>files out args pid_out first start ticks answer written said idle rec result.
     run_script files out args pid_out first start ticks answer = Inr (written, said) \<and>
     map_of written (path_join out ''summary.json'') = Some t \<and>
     read_json files (path_join out ''idle.json'') = Inr (VDict idle) \<and> proper_row idle \<and>
     (\<forall>tk \<in> set ticks. decoded_answers (fst tk)) \<and>
     cmd_run args (Some idle) pid_out first start ticks answer = Inr (rec, result) \<and>
     list_all proper_row (rows rec))"

lemma run_wrote_summary:
  assumes "run_wrote t"
  obtains vnt idle rs reason errors s where "summary_dict vnt idle rs reason errors = Inr s" "json_loads t = Inr (VDict s)"
    "list_all proper_row rs" "rs \<noteq> []" "proper_row idle"
proof -
  obtain files out args pid_out first start ticks answer written said idle rec result where r:
    "run_script files out args pid_out first start ticks answer = Inr (written, said)"
    "map_of written (path_join out ''summary.json'') = Some t"
    "read_json files (path_join out ''idle.json'') = Inr (VDict idle)" "proper_row idle"
    "\<forall>tk \<in> set ticks. decoded_answers (fst tk)"
    "cmd_run args (Some idle) pid_out first start ticks answer = Inr (rec, result)" "list_all proper_row (rows rec)"
    using assms unfolding run_wrote_def by blast
  have paths: "path_join out ''samples.csv'' \<noteq> path_join out ''summary.json''" "path_join out ''summary.md'' \<noteq> path_join out ''summary.json''"
    by (simp_all add: path_join_def)
  have out: "run_outputs out (rec, result) = Inr (written, said)" using r(1,3,6) by (simp add: run_script_def)
  then obtain reason summary lines where s: "result = Some (reason, summary, lines)" "t = json_dumps (Some 2) (VDict summary)"
    using r(2) paths by (cases result) (auto simp: run_outputs_def bindE_Inr_iff)
  obtain sp0 s0 sp why where loop: "run_loop args start ticks (sp, run_start start, empty_recording) = Inr (rec, why)"
      "case why of None \<Rightarrow> result = None | Some r \<Rightarrow> (\<exists>summary lines. result = Some (r, summary, lines) \<and>
       write_summary (variant args) idle (rows rec) r (prom_vector answer) = Inr (summary, lines))"
    using r(6) by (rule cmd_runE)
  then have ws: "write_summary (variant args) idle (rows rec) reason (prom_vector answer) = Inr (summary, lines)"
    using s(1) by (cases why) auto
  then have sd: "summary_dict (variant args) idle (rows rec) reason (prom_vector answer) = Inr summary"
    by (auto simp: write_summary_def bindE_Inr_iff)
  have "rows rec \<noteq> []" using sd by (auto simp: summary_dict_def bindE_Inr_iff)
  moreover have "exact_dict idle"
    using r(3) unfolding exact_dict_def read_json_def bindE_Inr_iff by (blast intro: loads_ok)
  then have "exact_dict summary"
    using summary_exact [OF sd] run_exact(1) [OF r(6)] r(5) by (auto simp: list_all_iff)
  then have "json_loads t = Inr (VDict summary)" unfolding s(2) by (intro json_round) (simp add: exact_dict_def)
  ultimately show thesis using that sd r(4,7) by blast
qed

lemma run_wrote_exists:
  obtains t where "run_wrote t"
proof -
  let ?idle = "example_row 0 0"
  let ?files = "[''out/idle.json'' \<mapsto> json_dumps (Some 2) (VDict ?idle)]"
  have path: "path_join ''out'' ''idle.json'' = ''out/idle.json''" by code_simp
  have "json_ok (VDict ?idle)" by code_simp
  then have idle: "read_json ?files (path_join ''out'' ''idle.json'') = Inr (VDict ?idle)"
    unfolding path by (simp add: read_json_def json_round del: json_ok.simps)
  obtain rec reason summary lines where r:
    "cmd_run example_args (Some ?idle) ''42'' (container_observation 998 0) (Fin 1000) example_ticks None =
      Inr (rec, Some (reason, summary, lines))"
    "list_all proper_row (rows rec)" "list_all state_plain (rows rec)"
    by (rule example_cmd_run)
  obtain body where "samples_csv (csv rec) = Inr body" using samples_csv_read [OF r(1) example_tick_answers r(3)] by blast
  then have out: "run_outputs ''out'' (rec, Some (reason, summary, lines)) = Inr
      ([(path_join ''out'' ''samples.csv'', body), (path_join ''out'' ''summary.json'', json_dumps (Some 2) (VDict summary)),
        (path_join ''out'' ''summary.md'', page_text lines)], printed rec @ [page_text lines])"
    by (simp add: run_outputs_def)
  have wrote: "map_of [(path_join ''out'' ''samples.csv'', body), (path_join ''out'' ''summary.json'', json_dumps (Some 2) (VDict summary)),
        (path_join ''out'' ''summary.md'', page_text lines)] (path_join ''out'' ''summary.json'') = Some (json_dumps (Some 2) (VDict summary))"
    by (simp add: path_join_def)
  have script: "run_script ?files ''out'' example_args ''42'' (container_observation 998 0) (Fin 1000) example_ticks None =
      run_outputs ''out'' (rec, Some (reason, summary, lines))"
    unfolding run_script_def idle by (simp add: r(1))
  have answers: "\<forall>tk \<in> set example_ticks. decoded_answers (fst tk)" using example_tick_answers by blast
  have proper: "proper_row ?idle" by (rule example_row_proper) simp_all
  have "run_wrote (json_dumps (Some 2) (VDict summary))"
    unfolding run_wrote_def using script [unfolded out] wrote idle proper answers r(1,2) by blast
  then show thesis by (rule that)
qed

end
