(* ===== verification/CostGuard.thy ===== *)
theory CostGuard
  imports Text
begin

text \<open>
  The cost watchdog, \<open>infra/opentofu/aws-ec2/guard/guard.py\<close>: it lists the benchmark's instances and
  terminates those that are too old. Times are microseconds since the epoch, the resolution of
  \<open>datetime\<close>. The EC2 client is a parameter, the record \<open>ec2\<close>; what the watchdog relies on of it is
  \<open>honours\<close>, the documented meaning of two filters of \<open>describe_instances\<close>, and \<open>terminates\<close>.
\<close>

section \<open>Configuration and the API\<close>

record config =
  tag_value :: string
  max_age :: int

text \<open>The module level: the two environment variables with their defaults.\<close>

definition read_config :: "(string \<Rightarrow> string option) \<Rightarrow> config res" where
  "read_config env =
     bindE (of_option ValueError (py_int_of (case env ''MAX_AGE_MINUTES'' of None \<Rightarrow> ''255'' | Some s \<Rightarrow> s)))
       (\<lambda>minutes. Inr \<lparr>tag_value = (case env ''TAG_VALUE'' of None \<Rightarrow> ''millionws-bench'' | Some s \<Rightarrow> s),
                       max_age = minutes\<rparr>)"

record instance_desc =
  instance_id :: string
  launch :: int
  tags :: "string dict"
  run_state :: string

type_synonym filters = "(string \<times> string list) list"
type_synonym page = "instance_desc list list"

record ec2 =
  describe :: "filters \<Rightarrow> page list res"
  terminate_error :: "string list \<Rightarrow> py_error option"

section \<open>The watchdog\<close>

text \<open>\<open>datetime.timedelta(minutes=n)\<close> in microseconds.\<close>

definition timedelta_minutes :: "int \<Rightarrow> int res" where
  "timedelta_minutes n =
     (let us = n * 60000000; days = us div 86400000000
      in if - 999999999 \<le> days \<and> days \<le> 999999999 then Inr us else Inl OverflowError)"

definition expired :: "instance_desc list \<Rightarrow> int \<Rightarrow> int \<Rightarrow> string list res" where
  "expired instances now max_age_minutes =
     bindE (timedelta_minutes max_age_minutes) (\<lambda>limit.
       Inr (map instance_id (filter (\<lambda>i. now - launch i > limit) instances)))"

definition guard_filters :: "config \<Rightarrow> filters" where
  "guard_filters cf = [
     (''tag:Project'', [tag_value cf]),
     (''instance-state-name'', [''pending'', ''running'', ''stopping'', ''stopped''])]"

text \<open>A list of identifiers as \<open>print\<close> shows it; an identifier has no quotes.\<close>

definition show_ids :: "string list \<Rightarrow> string" where
  "show_ids ids = ''['' @ join '', '' (map (\<lambda>i. CHR 0x27 # i @ [CHR 0x27]) ids) @ '']''"

record report =
  terminate_calls :: "string list list"
  message :: string
  checked :: nat
  terminated :: "string list"

fun collect :: "instance_desc list \<Rightarrow> page list \<Rightarrow> instance_desc list" where
  "collect instances [] = instances"
| "collect instances (page # pages) = collect (fold (\<lambda>reservation acc. acc @ reservation) page instances) pages"

definition handler :: "config \<Rightarrow> ec2 \<Rightarrow> int option \<Rightarrow> int \<Rightarrow> report res" where
  "handler cf client now_arg clock =
    (let now = (case now_arg of None \<Rightarrow> clock | Some t \<Rightarrow> t) in
     bindE (describe client (guard_filters cf)) (\<lambda>pages.
     let instances = collect [] pages in
     bindE (expired instances now (max_age cf)) (\<lambda>doomed.
       if doomed \<noteq> [] then
         (case terminate_error client doomed of
            Some e \<Rightarrow> Inl e
          | None \<Rightarrow> Inr \<lparr>terminate_calls = [doomed],
              message = ''terminating '' @ show_int (int (length doomed)) @ '' instance(s) older than '' @
                show_int (max_age cf) @ '' min: '' @ show_ids doomed,
              checked = length instances, terminated = doomed\<rparr>)
       else Inr \<lparr>terminate_calls = [],
              message = show_int (int (length instances)) @ '' tagged instance(s), none past '' @
                show_int (max_age cf) @ '' min'',
              checked = length instances, terminated = doomed\<rparr>)))"

section \<open>What the watchdog relies on\<close>

text \<open>
  The documented meaning of the two filters, and of them only: \<open>tag:\<close> with a key matches the instances
  that have the tag with one of the values, \<open>instance-state-name\<close> those in one of the states. The values of a
  tag are at most 255 characters and hold none of the wildcards \<open>*\<close> and \<open>?\<close> and no backslash. A request
  with at most 50 different filters of this kind and 200 values lists, over all pages, exactly the instances of
  the account that match all of them. Nothing is assumed of any other request.
\<close>

definition plain_value :: "string \<Rightarrow> bool" where
  "plain_value s \<longleftrightarrow> CHR ''*'' \<notin> set s \<and> CHR ''?'' \<notin> set s \<and> CHR 0x5C \<notin> set s \<and> length s \<le> 255"

definition instance_states :: "string list" where
  "instance_states = [''pending'', ''running'', ''shutting-down'', ''terminated'', ''stopping'', ''stopped'']"

definition documented :: "string \<times> string list \<Rightarrow> bool" where
  "documented f = (case f of (name, values) \<Rightarrow> values \<noteq> [] \<and>
     (starts_with ''tag:'' name \<and> drop 4 name \<noteq> [] \<and> list_all plain_value values \<or>
      name = ''instance-state-name'' \<and> set values \<subseteq> set instance_states))"

definition satisfies :: "instance_desc \<Rightarrow> string \<times> string list \<Rightarrow> bool" where
  "satisfies i f = (case f of (name, values) \<Rightarrow>
     if starts_with ''tag:'' name then
       (case map_of (tags i) (drop 4 name) of None \<Rightarrow> False | Some v \<Rightarrow> v \<in> set values)
     else run_state i \<in> set values)"

definition honours :: "ec2 \<Rightarrow> instance_desc list \<Rightarrow> bool" where
  "honours client account \<longleftrightarrow>
     (\<forall>fs. list_all documented fs \<and> distinct (map fst fs) \<and> length fs \<le> 50 \<and> length (concat (map snd fs)) \<le> 200 \<longrightarrow>
       (\<exists>pages. describe client fs = Inr pages \<and>
          set (concat (concat pages)) = {i \<in> set account. \<forall>f \<in> set fs. satisfies i f}))"

text \<open>A terminate call for instances of the account succeeds.\<close>

definition terminates :: "ec2 \<Rightarrow> instance_desc list \<Rightarrow> bool" where
  "terminates client account \<longleftrightarrow>
     (\<forall>ids. ids \<noteq> [] \<and> set ids \<subseteq> instance_id ` set account \<longrightarrow> terminate_error client ids = None)"

text \<open>The instances that should go: tagged for the project, not yet shutting down, and too old.\<close>

definition overdue :: "config \<Rightarrow> int \<Rightarrow> instance_desc \<Rightarrow> bool" where
  "overdue cf now i \<longleftrightarrow>
     map_of (tags i) ''Project'' = Some (tag_value cf) \<and>
     run_state i \<in> {''pending'', ''running'', ''stopping'', ''stopped''} \<and>
     launch i + max_age cf * 60000000 < now"

section \<open>Lemmas\<close>

lemma collect_concat: "collect acc pages = acc @ concat (concat pages)"
proof (induction pages arbitrary: acc)
  case (Cons page pages)
  have "fold (\<lambda>reservation acc. acc @ reservation) page acc = acc @ concat page" for acc :: "instance_desc list"
    by (induction page arbitrary: acc) auto
  then show ?case using Cons by simp
qed simp

lemma satisfies_filters:
  "(\<forall>f \<in> set (guard_filters cf). satisfies i f) \<longleftrightarrow>
     map_of (tags i) ''Project'' = Some (tag_value cf) \<and>
     run_state i \<in> {''pending'', ''running'', ''stopping'', ''stopped''}"
  by (auto simp: guard_filters_def satisfies_def starts_with_def split: option.splits)

lemma guard_filters_documented:
  "plain_value (tag_value cf) \<Longrightarrow> list_all documented (guard_filters cf) \<and> distinct (map fst (guard_filters cf)) \<and>
     length (guard_filters cf) \<le> 50 \<and> length (concat (map snd (guard_filters cf))) \<le> 200"
  by (simp add: guard_filters_def documented_def starts_with_def instance_states_def)

lemma listed:
  assumes "honours client account" "plain_value (tag_value cf)"
  obtains pages where "describe client (guard_filters cf) = Inr pages"
    "set (collect [] pages) = {i \<in> set account. map_of (tags i) ''Project'' = Some (tag_value cf) \<and>
       run_state i \<in> {''pending'', ''running'', ''stopping'', ''stopped''}}"
proof -
  obtain pages where "describe client (guard_filters cf) = Inr pages"
    "set (concat (concat pages)) = {i \<in> set account. \<forall>f \<in> set (guard_filters cf). satisfies i f}"
    using assms(1) guard_filters_documented [OF assms(2)] unfolding honours_def by blast
  then show thesis using that by (simp only: satisfies_filters collect_concat append_Nil)
qed

lemma expired_ids:
  assumes "timedelta_minutes m = Inr limit"
  shows "expired is now m = Inr (map instance_id (filter (\<lambda>i. launch i + m * 60000000 < now) is))"
proof -
  have "limit = m * 60000000" using assms by (auto simp: timedelta_minutes_def Let_def split: if_splits)
  then show ?thesis by (simp add: expired_def assms less_diff_eq add.commute)
qed

section \<open>Properties\<close>

text \<open>
  C10: the watchdog terminates exactly the overdue instances. Whatever the account holds and however
  the listing is cut into pages and reservations, an instance is in the terminate call if and only if
  it is tagged with the project's tag, pending, running, stopping or stopped, and older than the
  maximum age. There is one call, none when nothing is overdue, and the returned list is the call's.
\<close>

theorem handler_terminates_overdue:
  assumes api: "honours client account" "plain_value (tag_value cf)" "terminates client account"
    and limit: "timedelta_minutes (max_age cf) = Inr limit"
  shows "\<exists>r. handler cf client (Some now) clock = Inr r \<and>
    set (terminated r) = instance_id ` {i \<in> set account. overdue cf now i} \<and>
    terminate_calls r = (if \<exists>i \<in> set account. overdue cf now i then [terminated r] else [])"
proof -
  obtain pages where d: "describe client (guard_filters cf) = Inr pages"
    and l: "set (collect [] pages) = {i \<in> set account. map_of (tags i) ''Project'' = Some (tag_value cf) \<and>
       run_state i \<in> {''pending'', ''running'', ''stopping'', ''stopped''}}"
    using listed [OF api(1,2)] by blast
  let ?old = "filter (\<lambda>i. launch i + max_age cf * 60000000 < now) (collect [] pages)"
  have e: "expired (collect [] pages) now (max_age cf) = Inr (map instance_id ?old)"
    by (rule expired_ids [OF limit])
  have old: "set ?old = {i \<in> set account. overdue cf now i}"
    unfolding set_filter l by (auto simp: overdue_def)
  moreover have "?old = [] \<longleftrightarrow> {i \<in> set account. overdue cf now i} = {}"
    unfolding old [symmetric] by (simp only: set_empty)
  then have "?old = [] \<longleftrightarrow> \<not> (\<exists>i \<in> set account. overdue cf now i)" by (simp only:) blast
  moreover have "terminate_error client (map instance_id ?old) = None" if "?old \<noteq> []"
  proof -
    have "instance_id ` {i \<in> set account. overdue cf now i} \<subseteq> instance_id ` set account" by blast
    then have "set (map instance_id ?old) \<subseteq> instance_id ` set account" using old by (simp only: set_map)
    then show ?thesis using api(3) that unfolding terminates_def by (simp del: set_filter)
  qed
  ultimately show ?thesis
    unfolding handler_def Let_def option.case d bindE.simps e by auto
qed


text \<open>
  An account of three instances and a client that lists them in one page per instance. Like the real one it
  refuses a request with a filter it does not know.
\<close>

definition sample_account :: "instance_desc list" where
  "sample_account = [
     \<lparr>instance_id = ''i-old'', launch = 0, tags = [(''Project'', ''millionws-bench'')], run_state = ''running''\<rparr>,
     \<lparr>instance_id = ''i-new'', launch = 14000000000, tags = [(''Project'', ''millionws-bench'')], run_state = ''running''\<rparr>,
     \<lparr>instance_id = ''i-other'', launch = 0, tags = [], run_state = ''running''\<rparr>]"

definition sample_client :: ec2 where
  "sample_client = \<lparr>
     describe = (\<lambda>fs. if list_all documented fs
       then Inr (map (\<lambda>i. [[i]]) (filter (\<lambda>i. list_all (satisfies i) fs) sample_account)) else Inl ValueError),
     terminate_error = (\<lambda>ids. None)\<rparr>"

definition default_config :: config where
  "default_config = \<lparr>tag_value = ''millionws-bench'', max_age = 255\<rparr>"

theorem handler_terminates_overdue_witness:
  "\<exists>r. handler default_config sample_client (Some 15300000001) 0 = Inr r \<and> set (terminated r) = {''i-old''} \<and>
    terminate_calls r = [terminated r]"
proof -
  have h: "honours sample_client sample_account"
    unfolding honours_def sample_client_def by (auto simp: list_all_iff)
  have p: "plain_value (tag_value default_config)" by (simp add: plain_value_def default_config_def)
  have t: "terminates sample_client sample_account" by (simp add: terminates_def sample_client_def)
  have l: "timedelta_minutes (max_age default_config) = Inr 15300000000"
    by (simp add: timedelta_minutes_def default_config_def)
  have "{i \<in> set sample_account. overdue default_config 15300000001 i} = {sample_account ! 0}"
    by (auto simp: sample_account_def overdue_def default_config_def)
  then have "instance_id ` {i \<in> set sample_account. overdue default_config 15300000001 i} = {''i-old''}"
    "\<exists>i \<in> set sample_account. overdue default_config 15300000001 i"
    by (auto simp: sample_account_def)
  then show ?thesis using handler_terminates_overdue [OF h p t l, of 15300000001 0] by auto
qed

text \<open>
  the age limit is strict and stable: an instance exactly \<open>max_age\<close> minutes old is kept, one
  microsecond later it is terminated, and an instance that was past its age in one run is past it in
  every later run, so a run that failed is made up for by the next.
\<close>

lemma expired_boundary:
  assumes "timedelta_minutes m = Inr limit"
  shows "expired [i] (launch i + m * 60000000) m = Inr [] \<and>
    expired [i] (launch i + m * 60000000 + 1) m = Inr [instance_id i] \<and>
    (\<forall>is now later. now \<le> later \<longrightarrow>
       (\<exists>ids ids'. expired is now m = Inr ids \<and> expired is later m = Inr ids' \<and> set ids \<subseteq> set ids'))"
  using expired_ids [OF assms] by auto

end
