(* ===== verification/Registry.thy ===== *)
theory Registry
  imports Prelude
begin

text \<open>
  The load generator's connection registry, \<open>cmd/loadgen/registry.go\<close>: a slice of open connections,
  a map from a connection to its index in the slice, and the connections reported closed before
  they were added. Every operation holds the registry's mutex from its first to its last statement,
  so an operation is one atomic step.

  A Go runtime panic (an index out of range) is \<open>None\<close>. The abstract specification is a pair of
  sets, \<open>pool\<close>; the locale \<open>conn_pool\<close> is the contract the dialer and the close handler rely on.
\<close>

section \<open>State and operations\<close>

record 'c registry =
  conns :: "'c list"
  slot :: "'c \<rightharpoonup> nat"
  closed_conns :: "'c set"

definition empty_registry :: "'c registry" where
  "empty_registry = \<lparr>conns = [], slot = Map.empty, closed_conns = {}\<rparr>"

text \<open>
  The capacity is a hint of the space to reserve; \<open>make\<close> panics when it is negative. That the space
  asked for can be allocated is taken for granted.
\<close>

definition newRegistry :: "int \<Rightarrow> 'c registry option" where
  "newRegistry capacity = (if capacity < 0 then None else Some empty_registry)"

definition reg_add :: "'c \<Rightarrow> 'c registry \<Rightarrow> 'c registry \<times> bool" where
  "reg_add c r =
     (if c \<in> closed_conns r then (r\<lparr>closed_conns := closed_conns r - {c}\<rparr>, False)
      else if slot r c \<noteq> None then (r, False)
      else (r\<lparr>slot := (slot r)(c \<mapsto> length (conns r)), conns := conns r @ [c]\<rparr>, True))"

text \<open>
  The last connection moves into the hole before the slice is shortened; the source first overwrites
  the freed last element with the zero value, which the shortened slice no longer shows.
\<close>

definition reg_remove :: "'c \<Rightarrow> 'c registry \<Rightarrow> ('c registry \<times> bool) option" where
  "reg_remove c r = (case slot r c of
     None \<Rightarrow> Some (r\<lparr>closed_conns := insert c (closed_conns r)\<rparr>, False)
   | Some i \<Rightarrow>
       if conns r = [] \<or> length (conns r) \<le> i then None
       else let lst = length (conns r) - 1; moved = conns r ! lst
         in Some (r\<lparr>conns := take lst ((conns r)[i := moved]),
                    slot := ((slot r)(moved \<mapsto> i))(c := None)\<rparr>, True))"

definition reg_len :: "'c registry \<Rightarrow> nat" where
  "reg_len r = length (conns r)"

definition reg_batch :: "'c registry \<Rightarrow> int \<Rightarrow> int \<Rightarrow> ('c list \<times> int) option" where
  "reg_batch r cursor n =
     (let total = int (length (conns r)) in
      if total = 0 then Some ([], 0)
      else let n = (if n > total then total else n);
               idx = map (\<lambda>i. go_rem (cursor + i) total) [0..n - 1]
        in if \<exists>j \<in> set idx. j < 0 then None
           else Some (map (\<lambda>j. conns r ! nat j) idx, go_rem (cursor + n) total))"

section \<open>The invariant\<close>

text \<open>The map is exactly the inverse of the slice, and a stored connection is not remembered as closed.\<close>

definition reg_inv :: "'c registry \<Rightarrow> bool" where
  "reg_inv r \<longleftrightarrow>
     (\<forall>c i. slot r c = Some i \<longleftrightarrow> i < length (conns r) \<and> conns r ! i = c) \<and>
     closed_conns r \<inter> set (conns r) = {}"

lemma reg_inv_slot: "reg_inv r \<Longrightarrow> slot r c = Some i \<longleftrightarrow> i < length (conns r) \<and> conns r ! i = c"
  by (simp add: reg_inv_def)

lemma reg_inv_distinct: "reg_inv r \<Longrightarrow> distinct (conns r)"
  unfolding distinct_conv_nth by (metis option.inject reg_inv_slot)

lemma reg_inv_dom: "reg_inv r \<Longrightarrow> slot r c = None \<longleftrightarrow> c \<notin> set (conns r)"
  by (metis in_set_conv_nth not_None_eq reg_inv_slot)

lemma reg_inv_new: "reg_inv empty_registry"
  by (simp add: reg_inv_def empty_registry_def)

lemma reg_inv_add:
  assumes "reg_inv r"
  shows "reg_inv (fst (reg_add c r))"
proof -
  note slot = reg_inv_slot [OF assms] and dom = reg_inv_dom [OF assms]
  consider "c \<in> closed_conns r" | "c \<notin> closed_conns r" "slot r c \<noteq> None"
    | "c \<notin> closed_conns r" "slot r c = None" by blast
  then show ?thesis
  proof cases
    case 3
    then have "c \<notin> set (conns r)" by (simp add: dom)
    with 3 assms show ?thesis
      by (auto simp: reg_inv_def reg_add_def nth_append less_Suc_eq)
  qed (use assms in \<open>auto simp: reg_inv_def reg_add_def\<close>)
qed

lemma reg_remove_total: "reg_inv r \<Longrightarrow> \<exists>r' b. reg_remove c r = Some (r', b)"
  by (auto simp: reg_remove_def reg_inv_slot Let_def split: option.splits)

text \<open>What the slice is after a removal: the last connection in the hole, the rest untouched.\<close>

lemma swap_remove_nth:
  "j < l \<Longrightarrow> l < length xs \<Longrightarrow>
     take l (xs[i := xs ! l]) ! j = (if j = i then xs ! l else xs ! j)"
  by (auto simp: nth_list_update)

lemma swap_remove_set:
  assumes "distinct xs" "i < length xs" "length xs = Suc l"
  shows "set (take l (xs[i := xs ! l])) = set xs - {xs ! i}" (is "set ?ys = _")
proof -
  have len: "length ?ys = l" using assms by simp
  have "y \<in> set ?ys \<longleftrightarrow> y \<in> set xs - {xs ! i}" for y
  proof
    assume "y \<in> set ?ys"
    then obtain j where "j < l" "y = ?ys ! j" unfolding in_set_conv_nth len by blast
    then have j: "j < l" "y = (if j = i then xs ! l else xs ! j)"
      using assms by (simp_all only: swap_remove_nth lessI)
    then show "y \<in> set xs - {xs ! i}"
      using assms by (auto simp: nth_eq_iff_index_eq split: if_splits)
  next
    assume "y \<in> set xs - {xs ! i}"
    then obtain j where j: "j < length xs" "y = xs ! j" "j \<noteq> i"
      by (auto simp: in_set_conv_nth)
    let ?k = "if j = l then i else j"
    have k: "?k < l" using j assms by auto
    moreover have "?ys ! ?k = y" using swap_remove_nth [OF k] j assms by auto
    ultimately show "y \<in> set ?ys" unfolding in_set_conv_nth len by blast
  qed
  then show ?thesis by blast
qed

lemma reg_remove_hit:
  "slot r c = Some i \<Longrightarrow> length (conns r) = Suc l \<Longrightarrow> i \<le> l \<Longrightarrow>
     reg_remove c r = Some (r\<lparr>conns := take l ((conns r)[i := conns r ! l]),
       slot := ((slot r)(conns r ! l \<mapsto> i))(c := None)\<rparr>, True)"
  by (cases "conns r") (simp_all add: reg_remove_def Let_def)

lemma reg_inv_remove:
  assumes inv: "reg_inv r" and rem: "reg_remove c r = Some (r', b)"
  shows "reg_inv r'"
proof (cases "slot r c")
  case None
  then show ?thesis
    using rem inv reg_inv_dom [OF inv, of c] by (auto simp: reg_remove_def reg_inv_def)
next
  case (Some i)
  note slot = reg_inv_slot [OF inv]
  let ?xs = "conns r"
  from Some have i: "i < length ?xs" "?xs ! i = c" by (auto simp: slot)
  then obtain l where l: "length ?xs = Suc l" by (cases "length ?xs") auto
  have r': "r' = r\<lparr>conns := take l (?xs[i := ?xs ! l]), slot := ((slot r)(?xs ! l \<mapsto> i))(c := None)\<rparr>"
    using rem reg_remove_hit [OF Some l] i l by simp
  have dist: "distinct ?xs" by (rule reg_inv_distinct [OF inv])
  have "slot r' d = Some j \<longleftrightarrow> j < length (conns r') \<and> conns r' ! j = d" for d j
  proof (cases "j < l")
    case True
    then have "conns r' ! j = (if j = i then ?xs ! l else ?xs ! j)"
      using swap_remove_nth [OF True, of ?xs] l by (simp add: r')
    then show ?thesis
      using True i l dist by (auto simp: r' slot nth_eq_iff_index_eq)
  next
    case False
    then have "d \<noteq> ?xs ! l \<Longrightarrow> slot r d \<noteq> Some j"
      using l by (auto simp: slot less_Suc_eq)
    then show ?thesis using False i l by (auto simp: r' less_Suc_eq)
  qed
  moreover have "closed_conns r' \<inter> set (conns r') = {}"
    using inv swap_remove_set [OF dist i(1) l] by (auto simp: r' reg_inv_def)
  ultimately show ?thesis by (simp add: reg_inv_def)
qed

section \<open>The specification: two sets\<close>

text \<open>
  The connections held, and those closed before they were added. An operation's boolean says whether
  the caller must count the connection in (\<open>add\<close>) or out (\<open>remove\<close>).
\<close>

record 'c pool =
  held :: "'c set"
  early :: "'c set"

definition pool_empty :: "'c pool" where
  "pool_empty = \<lparr>held = {}, early = {}\<rparr>"

definition pool_add :: "'c \<Rightarrow> 'c pool \<Rightarrow> 'c pool \<times> bool" where
  "pool_add c p =
     (if c \<in> early p then (p\<lparr>early := early p - {c}\<rparr>, False)
      else (p\<lparr>held := insert c (held p)\<rparr>, c \<notin> held p))"

definition pool_remove :: "'c \<Rightarrow> 'c pool \<Rightarrow> 'c pool \<times> bool" where
  "pool_remove c p =
     (if c \<in> held p then (p\<lparr>held := held p - {c}\<rparr>, True)
      else (p\<lparr>early := insert c (early p)\<rparr>, False))"

definition reg_abs :: "'c registry \<Rightarrow> 'c pool" where
  "reg_abs r = \<lparr>held = set (conns r), early = closed_conns r\<rparr>"

text \<open>A sequence of operations in the order the mutex serialises them, and the running count that the
  callers keep from the returned booleans.\<close>

datatype 'c op = Add 'c | Remove 'c

fun run_ops ::
  "('c \<Rightarrow> 's \<Rightarrow> 's \<times> bool) \<Rightarrow> ('c \<Rightarrow> 's \<Rightarrow> ('s \<times> bool) option) \<Rightarrow>
   'c op list \<Rightarrow> 's \<Rightarrow> int \<Rightarrow> ('s \<times> int) option" where
  "run_ops add rem [] s n = Some (s, n)"
| "run_ops add rem (Add c # ops) s n =
     (case add c s of (s', b) \<Rightarrow> run_ops add rem ops s' (if b then n + 1 else n))"
| "run_ops add rem (Remove c # ops) s n =
     (case rem c s of None \<Rightarrow> None
      | Some (s', b) \<Rightarrow> run_ops add rem ops s' (if b then n - 1 else n))"

text \<open>The operations on a new registry; \<open>main\<close> makes it with the target as its capacity.\<close>

definition reg_run :: "int \<Rightarrow> 'c op list \<Rightarrow> ('c registry \<times> int) option" where
  "reg_run capacity ops =
     (case newRegistry capacity of None \<Rightarrow> None | Some r \<Rightarrow> run_ops reg_add reg_remove ops r 0)"

section \<open>The contract of a connection pool\<close>

locale conn_pool =
  fixes empty :: "'s"
    and add :: "'c \<Rightarrow> 's \<Rightarrow> 's \<times> bool"
    and remove :: "'c \<Rightarrow> 's \<Rightarrow> ('s \<times> bool) option"
    and abs :: "'s \<Rightarrow> 'c pool"
    and inv :: "'s \<Rightarrow> bool"
  assumes inv_empty: "inv empty"
    and abs_empty: "abs empty = pool_empty"
    and inv_add: "inv s \<Longrightarrow> inv (fst (add c s))"
    and abs_add: "inv s \<Longrightarrow> map_prod abs id (add c s) = pool_add c (abs s)"
    and remove_ok: "inv s \<Longrightarrow> \<exists>t. remove c s = Some t \<and> inv (fst t) \<and> map_prod abs id t = pool_remove c (abs s)"
begin

lemma add_cases:
  assumes "inv s" "add c s = (t, b)"
  shows "inv t" "abs t = fst (pool_add c (abs s))" "b = snd (pool_add c (abs s))"
  using inv_add [OF assms(1), of c] abs_add [OF assms(1), of c] assms(2) by (auto simp: prod_eq_iff)

lemma remove_cases:
  assumes "inv s"
  obtains t b where "remove c s = Some (t, b)" "inv t" "abs t = fst (pool_remove c (abs s))"
    "b = snd (pool_remove c (abs s))"
  using remove_ok [OF assms, of c] by (auto simp: prod_eq_iff)

text \<open>
  The running count stays the number of held connections, and the pool never fails, whatever the
  sequence of operations.
\<close>

lemma run_ops_count:
  assumes "inv s" "finite (held (abs s))" "n = int (card (held (abs s)))"
  shows "\<exists>t m. run_ops add remove ops s n = Some (t, m) \<and> inv t \<and> finite (held (abs t)) \<and>
    m = int (card (held (abs t)))"
  using assms
proof (induction ops arbitrary: s n)
  case (Cons x ops)
  show ?case
  proof (cases x)
    case (Add c)
    obtain t b where t: "add c s = (t, b)" by (cases "add c s")
    note facts = add_cases [OF Cons.prems(1) t]
    have "finite (held (abs t))" "(if b then n + 1 else n) = int (card (held (abs t)))"
      using Cons.prems facts by (auto simp: pool_add_def insert_absorb)
    then show ?thesis using Cons.IH [OF facts(1)] Add t by simp
  next
    case (Remove c)
    obtain t b where t: "remove c s = Some (t, b)" "inv t" "abs t = fst (pool_remove c (abs s))"
      "b = snd (pool_remove c (abs s))" by (rule remove_cases [OF Cons.prems(1)])
    have "finite (held (abs t))" "(if b then n - 1 else n) = int (card (held (abs t)))"
      using Cons.prems t card_gt_0_iff [of "held (abs s)"]
      by (auto simp: pool_remove_def of_nat_diff Suc_le_eq)
    then show ?thesis using Cons.IH [OF t(2)] Remove t(1) by simp
  qed
qed simp

text \<open>
  Each connection's add and remove may come in either order. If each happens at most once, exactly
  the connections that were added and never removed are held at the end.
\<close>

lemma run_ops_sets:
  assumes "inv s" "distinct (done_ops @ ops)"
    "held (abs s) = {c. Add c \<in> set done_ops \<and> Remove c \<notin> set done_ops}"
    "early (abs s) = {c. Remove c \<in> set done_ops \<and> Add c \<notin> set done_ops}"
  shows "\<exists>t m. run_ops add remove ops s n = Some (t, m) \<and> inv t \<and>
    held (abs t) = {c. Add c \<in> set (done_ops @ ops) \<and> Remove c \<notin> set (done_ops @ ops)}"
  using assms
proof (induction ops arbitrary: s n done_ops)
  case (Cons x ops)
  show ?case
  proof (cases x)
    case (Add c)
    obtain t b where t: "add c s = (t, b)" by (cases "add c s")
    note facts = add_cases [OF Cons.prems(1) t]
    have new: "Add c \<notin> set done_ops" using Cons.prems(2) Add by auto
    have "held (abs t) = {d. Add d \<in> set (done_ops @ [x]) \<and> Remove d \<notin> set (done_ops @ [x])}"
      "early (abs t) = {d. Remove d \<in> set (done_ops @ [x]) \<and> Add d \<notin> set (done_ops @ [x])}"
      using facts(2) Cons.prems(3,4) new Add by (auto simp: pool_add_def)
    then show ?thesis
      using Cons.IH [OF facts(1), of "done_ops @ [x]"] Cons.prems(2) Add t by simp
  next
    case (Remove c)
    obtain t b where t: "remove c s = Some (t, b)" "inv t" "abs t = fst (pool_remove c (abs s))"
      "b = snd (pool_remove c (abs s))" by (rule remove_cases [OF Cons.prems(1)])
    have new: "Remove c \<notin> set done_ops" using Cons.prems(2) Remove by auto
    have "held (abs t) = {d. Add d \<in> set (done_ops @ [x]) \<and> Remove d \<notin> set (done_ops @ [x])}"
      "early (abs t) = {d. Remove d \<in> set (done_ops @ [x]) \<and> Add d \<notin> set (done_ops @ [x])}"
      using t(3) Cons.prems(3,4) new Remove by (auto simp: pool_remove_def)
    then show ?thesis
      using Cons.IH [OF t(2), of "done_ops @ [x]"] Cons.prems(2) Remove t(1) by simp
  qed
qed simp

lemma run_from_empty:
  assumes "distinct ops"
  shows "\<exists>t m. run_ops add remove ops empty 0 = Some (t, m) \<and> inv t \<and>
    held (abs t) = {c. Add c \<in> set ops \<and> Remove c \<notin> set ops} \<and>
    m = int (card (held (abs t)))"
proof -
  have "\<exists>t m. run_ops add remove ops empty 0 = Some (t, m) \<and> inv t \<and>
    held (abs t) = {c. Add c \<in> set ops \<and> Remove c \<notin> set ops}"
    using run_ops_sets [OF inv_empty, of "[]" ops 0] assms by (auto simp: abs_empty pool_empty_def)
  moreover have "\<exists>t m. run_ops add remove ops empty 0 = Some (t, m) \<and> m = int (card (held (abs t)))"
    using run_ops_count [OF inv_empty, of 0 ops] by (auto simp: abs_empty pool_empty_def)
  ultimately show ?thesis by auto
qed

end

section \<open>The registry provides the contract\<close>

lemma reg_abs_add: "reg_inv r \<Longrightarrow> map_prod reg_abs id (reg_add c r) = pool_add c (reg_abs r)"
  using reg_inv_dom [of r c]
  by (cases "c \<in> closed_conns r"; cases "slot r c = None")
     (simp_all add: reg_add_def pool_add_def reg_abs_def insert_absorb)

lemma reg_abs_remove:
  assumes "reg_inv r" "reg_remove c r = Some t"
  shows "map_prod reg_abs id t = pool_remove c (reg_abs r)"
proof (cases "slot r c")
  case None
  then show ?thesis using assms reg_inv_dom [of r c]
    by (auto simp: reg_remove_def pool_remove_def reg_abs_def)
next
  case (Some i)
  then have i: "i < length (conns r)" "conns r ! i = c" using assms by (auto simp: reg_inv_slot)
  then obtain l where l: "length (conns r) = Suc l" by (cases "length (conns r)") auto
  have t: "t = (r\<lparr>conns := take l ((conns r)[i := conns r ! l]),
      slot := ((slot r)(conns r ! l \<mapsto> i))(c := None)\<rparr>, True)"
    using assms(2) reg_remove_hit [OF Some l] i l by simp
  have "c \<in> set (conns r)" using i nth_mem by blast
  then show ?thesis
    unfolding t using swap_remove_set [OF reg_inv_distinct [OF assms(1)] i(1) l] i
    by (simp add: pool_remove_def reg_abs_def)
qed

interpretation reg: conn_pool empty_registry reg_add reg_remove reg_abs reg_inv
proof unfold_locales
  show "reg_abs empty_registry = pool_empty"
    by (simp add: reg_abs_def empty_registry_def pool_empty_def)
  show "\<exists>t. reg_remove c s = Some t \<and> reg_inv (fst t) \<and> map_prod reg_abs id t = pool_remove c (reg_abs s)"
    if "reg_inv s" for c s
    using reg_remove_total [OF that, of c] reg_inv_remove [OF that] reg_abs_remove [OF that] by fastforce
qed (simp_all add: reg_inv_new reg_inv_add reg_abs_add)

lemma card_reg_abs: "reg_inv r \<Longrightarrow> card (held (reg_abs r)) = length (conns r)"
  by (simp add: reg_abs_def distinct_card reg_inv_distinct)

section \<open>Batches\<close>

lemma upto_nat: "map f [0..n - 1] = map (\<lambda>i. f (int i)) [0..<nat n]"
proof (cases "n \<le> 0")
  case False
  have "[0..n - 1] = map int [0..<nat n]"
    using False by (intro nth_equalityI) auto
  then show ?thesis by simp
qed simp

lemma rotate_nth_mod: "c < length xs \<Longrightarrow> i < length xs \<Longrightarrow> rotate c xs ! i = xs ! ((c + i) mod length xs)"
  by (simp add: nth_rotate)

text \<open>A batch is a stretch of the list seen as a ring, also from a cursor that lies past its end.\<close>

lemma batch_ring:
  assumes "conns r \<noteq> []"
  shows "reg_batch r (int c) (int n) =
    Some (take n (rotate c (conns r)), int ((c + min n (length (conns r))) mod length (conns r)))"
proof -
  let ?t = "int (length (conns r))" and ?m = "min n (length (conns r))"
  have t: "0 < ?t" using assms by simp
  have m: "(if int n > ?t then ?t else int n) = int ?m" by auto
  have idx: "map (\<lambda>i. go_rem (int c + i) ?t) [0..int ?m - 1]
      = map (\<lambda>i. int ((c + i) mod length (conns r))) [0..<?m]"
    using t by (simp add: upto_nat go_rem_mod zmod_int)
  have "map (\<lambda>j. conns r ! nat j) (map (\<lambda>i. go_rem (int c + i) ?t) [0..int ?m - 1])
      = take n (rotate c (conns r))"
    unfolding idx using assms by (intro nth_equalityI) (auto simp: nth_rotate)
  moreover have "\<not> (\<exists>j \<in> set (map (\<lambda>i. go_rem (int c + i) ?t) [0..int ?m - 1]). j < 0)"
    unfolding idx by auto
  moreover have "go_rem (int c + int ?m) ?t = int ((c + ?m) mod length (conns r))"
    using t by (simp add: go_rem_mod zmod_int)
  ultimately show ?thesis
    using t assms unfolding reg_batch_def Let_def m by (auto simp del: of_nat_min)
qed

text \<open>Consecutive batches of one unchanged registry, each starting at the cursor the one before returned.\<close>

fun reg_batches :: "'c registry \<Rightarrow> int \<Rightarrow> int list \<Rightarrow> ('c list \<times> int) option" where
  "reg_batches r cursor [] = Some ([], cursor)"
| "reg_batches r cursor (n # ns) =
     (case reg_batch r cursor n of None \<Rightarrow> None
      | Some (xs, cursor') \<Rightarrow>
          (case reg_batches r cursor' ns of None \<Rightarrow> None
           | Some (ys, cursor'') \<Rightarrow> Some (xs @ ys, cursor'')))"

lemma take_rotate_add:
  assumes "n + m \<le> length xs"
  shows "take n (rotate c xs) @ take m (rotate ((c + n) mod length xs) xs) = take (n + m) (rotate c xs)"
proof -
  have "rotate ((c + n) mod length xs) xs = rotate n (rotate c xs)"
    by (simp add: rotate_rotate add.commute flip: rotate_conv_mod)
  moreover have "take m (rotate n (rotate c xs)) = take m (drop n (rotate c xs))"
    using assms by (cases "n = length xs") (auto simp: rotate_drop_take)
  ultimately show ?thesis by (simp add: take_add)
qed

lemma batches_ring:
  assumes "c < length (conns r)" "sum_list ns \<le> length (conns r)"
  shows "\<exists>c'. reg_batches r (int c) (map int ns) = Some (take (sum_list ns) (rotate c (conns r)), int c') \<and>
    c' < length (conns r)"
  using assms
proof (induction ns arbitrary: c)
  case (Cons n ns)
  let ?c = "(c + n) mod length (conns r)"
  have ne: "conns r \<noteq> []" using Cons.prems by auto
  have "?c < length (conns r)" using Cons.prems by (intro mod_less_divisor) linarith
  then obtain c' where "reg_batches r (int ?c) (map int ns) =
      Some (take (sum_list ns) (rotate ?c (conns r)), int c')" "c' < length (conns r)"
    using Cons.IH [of ?c] Cons.prems by auto
  then show ?case
    using Cons.prems batch_ring [OF ne, of c n]
    by (auto simp: take_rotate_add min_absorb1)
qed auto

section \<open>Properties\<close>

text \<open>
  C2: Dial completions and close callbacks may reach the registry in any order. Whatever the
  interleaving and the capacity it was made with, if each connection is added at most once and closed at most once, no operation
  panics, exactly the connections added and never closed are stored, none twice, and the count the
  callers keep from the returned booleans is their number.
\<close>

theorem registry_interleaving:
  assumes "distinct ops" "0 \<le> capacity"
  shows "\<exists>r n. reg_run capacity ops = Some (r, n) \<and> distinct (conns r) \<and>
    set (conns r) = {c. Add c \<in> set ops \<and> Remove c \<notin> set ops} \<and> n = int (reg_len r)"
proof -
  obtain r n where r: "reg_run capacity ops = Some (r, n)" "reg_inv r"
    "held (reg_abs r) = {c. Add c \<in> set ops \<and> Remove c \<notin> set ops}"
    "n = int (card (held (reg_abs r)))"
    using reg.run_from_empty [OF assms(1)] assms(2) by (auto simp: reg_run_def newRegistry_def)
  moreover have "n = int (reg_len r)" unfolding r(4) by (simp only: card_reg_abs [OF r(2)] reg_len_def)
  moreover have "set (conns r) = held (reg_abs r)" by (simp add: reg_abs_def)
  ultimately show ?thesis using reg_inv_distinct by blast
qed

theorem registry_interleaving_witness:
  "\<exists>r n. reg_run 10000 [Remove 2, Add 1, Add (2::nat), Add 3, Remove 1] = Some (r, n) \<and>
    set (conns r) = {3} \<and> n = 1"
proof -
  let ?ops = "[Remove 2, Add 1, Add (2::nat), Add 3, Remove 1]"
  obtain r n where r: "reg_run 10000 ?ops = Some (r, n)" "distinct (conns r)"
    "set (conns r) = {c. Add c \<in> set ?ops \<and> Remove c \<notin> set ?ops}" "n = int (reg_len r)"
    using registry_interleaving [of ?ops 10000] by (simp only: distinct.simps) force
  have s: "set (conns r) = {3}" unfolding r(3) by auto
  have "length (conns r) = 1" using distinct_card [OF r(2)] by (simp add: s)
  then have "n = 1" using r(4) by (simp add: reg_len_def)
  with r(1) s show ?thesis by blast
qed

text \<open>
  C7: The detailed registry (slice, index map, closed map) refines the two-set specification: from
  every state in which map and slice agree, add and remove return what the specification returns,
  change the abstract state as it says, keep the agreement, and remove never indexes out of range.
\<close>

theorem registry_refines_pool:
  assumes "reg_inv r"
  shows "map_prod reg_abs id (reg_add c r) = pool_add c (reg_abs r) \<and> reg_inv (fst (reg_add c r)) \<and>
    (\<exists>t. reg_remove c r = Some t \<and> map_prod reg_abs id t = pool_remove c (reg_abs r) \<and> reg_inv (fst t))"
  using reg.abs_add [OF assms] reg.inv_add [OF assms] reg.remove_ok [OF assms, of c] by blast

theorem registry_refines_pool_witness:
  "\<exists>r. reg_inv r \<and> conns r = [7 :: nat] \<and> reg_remove 7 r \<noteq> None"
proof -
  let ?r = "fst (reg_add (7::nat) empty_registry)"
  have "reg_inv empty_registry" by (rule reg_inv_new)
  then have inv: "reg_inv ?r" using registry_refines_pool [of empty_registry 7] by blast
  moreover have "conns ?r = [7]" by (simp add: reg_add_def empty_registry_def)
  moreover have "reg_remove 7 ?r \<noteq> None" using registry_refines_pool [OF inv, of 7] by auto
  ultimately show ?thesis by blast
qed

text \<open>
  C20: While the registry does not change, batches walk it round robin: from any valid cursor, a run
  of batches of any sizes that add up to at most the number of stored connections never panics and
  returns pairwise different connections, and a run that adds up to the whole number returns each
  stored connection exactly once.
\<close>

theorem batches_round_robin:
  assumes "reg_inv r" "c < reg_len r" "sum_list ns \<le> reg_len r"
  shows "\<exists>xs c'. reg_batches r (int c) (map int ns) = Some (xs, c') \<and> 0 \<le> c' \<and> c' < int (reg_len r) \<and>
    length xs = sum_list ns \<and> distinct xs \<and> set xs \<subseteq> set (conns r) \<and>
    (sum_list ns = reg_len r \<longrightarrow> set xs = set (conns r))"
proof -
  obtain c' where c': "reg_batches r (int c) (map int ns) =
      Some (take (sum_list ns) (rotate c (conns r)), int c')" "c' < reg_len r"
    using batches_ring [of c r ns] assms by (auto simp: reg_len_def)
  have "distinct (rotate c (conns r))" using assms by (simp add: reg_inv_distinct)
  with c' assms show ?thesis
    by (auto simp: reg_len_def distinct_take dest: in_set_takeD)
qed

theorem batches_round_robin_witness:
  "\<exists>xs c'. reg_batches (fst (reg_add 5 (fst (reg_add (4::nat) empty_registry)))) 1 [1, 1] = Some (xs, c') \<and>
    set xs = {4, 5}"
proof -
  let ?r = "fst (reg_add 5 (fst (reg_add (4::nat) empty_registry)))"
  have inv: "reg_inv ?r" by (intro reg_inv_add reg_inv_new)
  have r: "conns ?r = [4, 5]" by (simp add: reg_add_def empty_registry_def)
  show ?thesis
    using batches_round_robin [OF inv, of 1 "[1, 1]"] unfolding reg_len_def r by fastforce
qed

end
