(* ===== verification/LoadGen.thy ===== *)
theory LoadGen
  imports Registry Text
begin

text \<open>
  The load generator, \<open>cmd/loadgen/main.go\<close>: the dial loop, the dial goroutines and the close
  callback as one step relation over the state they share.

  A step is one atomic access: a registry operation (under its mutex), a load or an addition on an
  atomic counter, a send on or a receive from the semaphore channel. Everything between two steps
  may interleave with the other goroutines.
\<close>

section \<open>Dialing\<close>

text \<open>
  Where the dial loop is: waiting for the next tick; at its check with \<open>i\<close> dials started in this
  tick; between the two loads of the check, holding the value of \<open>active\<close>; at the semaphore; between
  the semaphore and \<open>pending.Add(1)\<close>; or returned after the context was cancelled. Both channels of the
  loop's \<open>select\<close> may be ready, so a tick can still be taken after the cancellation.
\<close>

datatype loop_pc = Waiting | AtCheck nat | HaveActive nat int | AtSem nat | AtSpawn nat | Stopped

text \<open>
  Dial goroutines are counted by where they are: dialing (after \<open>pending.Add\<close>, before the handshake is
  done), connected but not yet added (the list \<open>dialed\<close>), added but not yet counted in \<open>active\<close>,
  about to release the semaphore, about to leave \<open>pending\<close>. \<open>uncounting\<close> are close callbacks between
  \<open>reg.remove\<close> and \<open>active.Add(-1)\<close>. \<open>opened\<close> and \<open>shut\<close> are the connections the engine has opened
  and reported closed.
\<close>

record 'c dialer =
  reg :: "'c registry"
  active :: int
  pending :: int
  sem :: int
  pc :: loop_pc
  nxt :: nat
  dialing :: nat
  dialed :: "'c list"
  counting :: nat
  releasing :: nat
  leaving :: nat
  uncounting :: nat
  opened :: "'c set"
  shut :: "'c set"

text \<open>\<open>target\<close> is the number of connections to hold, from which \<open>main\<close> also makes the registry.\<close>

record dial_params =
  target :: int
  rate :: int
  inflight :: int

definition perTick :: "dial_params \<Rightarrow> nat" where
  "perTick p = nat (max (go_quot (rate p) 100) 1)"

definition dial_start :: "'c dialer" where
  "dial_start = \<lparr>reg = empty_registry, active = 0, pending = 0, sem = 0, pc = Waiting, nxt = 0, dialing = 0,
     dialed = [], counting = 0, releasing = 0, leaving = 0, uncounting = 0, opened = {}, shut = {}\<rparr>"

text \<open>With a target that is not negative, \<open>main\<close> gets past making the registry and starts with it empty.\<close>

lemma registry_made: "0 \<le> target p \<Longrightarrow> newRegistry (target p) = Some (reg (dial_start :: 'c dialer))"
  by (simp add: newRegistry_def dial_start_def)

text \<open>The loop after its \<open>i\<close>-th pass: the next pass or the end of the tick.\<close>

definition next_pass :: "dial_params \<Rightarrow> nat \<Rightarrow> loop_pc" where
  "next_pass p i = (if Suc i < perTick p then AtCheck (Suc i) else Waiting)"

inductive dial_step :: "dial_params \<Rightarrow> 'c dialer \<Rightarrow> 'c dialer \<Rightarrow> bool" for p where
  tick: "pc s = Waiting \<Longrightarrow> dial_step p s (s\<lparr>pc := AtCheck 0\<rparr>)"
| cancelled: "pc s = Waiting \<Longrightarrow> dial_step p s (s\<lparr>pc := Stopped\<rparr>)"
| load_active: "pc s = AtCheck i \<Longrightarrow> dial_step p s (s\<lparr>pc := HaveActive i (active s)\<rparr>)"
| at_limit: "pc s = HaveActive i a \<Longrightarrow> a + pending s \<ge> target p \<Longrightarrow> dial_step p s (s\<lparr>pc := Waiting\<rparr>)"
| below_limit: "pc s = HaveActive i a \<Longrightarrow> a + pending s < target p \<Longrightarrow> dial_step p s (s\<lparr>pc := AtSem i\<rparr>)"
| acquire: "pc s = AtSem i \<Longrightarrow> sem s < inflight p \<Longrightarrow> dial_step p s (s\<lparr>sem := sem s + 1, pc := AtSpawn i\<rparr>)"
| slots_busy: "pc s = AtSem i \<Longrightarrow> \<not> sem s < inflight p \<Longrightarrow> dial_step p s (s\<lparr>pc := Waiting\<rparr>)"
| spawn: "pc s = AtSpawn i \<Longrightarrow>
    dial_step p s (s\<lparr>pending := pending s + 1, dialing := dialing s + 1, nxt := nxt s + 1, pc := next_pass p i\<rparr>)"
| dial_failed: "0 < dialing s \<Longrightarrow> dial_step p s (s\<lparr>dialing := dialing s - 1, releasing := releasing s + 1\<rparr>)"
| dial_ok: "0 < dialing s \<Longrightarrow> c \<notin> opened s \<Longrightarrow>
    dial_step p s (s\<lparr>dialing := dialing s - 1, dialed := dialed s @ [c], opened := insert c (opened s)\<rparr>)"
| add_stored: "c \<in> set (dialed s) \<Longrightarrow> reg_add c (reg s) = (r, True) \<Longrightarrow>
    dial_step p s (s\<lparr>reg := r, dialed := remove1 c (dialed s), counting := counting s + 1\<rparr>)"
| add_refused: "c \<in> set (dialed s) \<Longrightarrow> reg_add c (reg s) = (r, False) \<Longrightarrow>
    dial_step p s (s\<lparr>reg := r, dialed := remove1 c (dialed s), releasing := releasing s + 1\<rparr>)"
| count: "0 < counting s \<Longrightarrow>
    dial_step p s (s\<lparr>active := active s + 1, counting := counting s - 1, releasing := releasing s + 1\<rparr>)"
| release: "0 < releasing s \<Longrightarrow>
    dial_step p s (s\<lparr>sem := sem s - 1, releasing := releasing s - 1, leaving := leaving s + 1\<rparr>)"
| leave: "0 < leaving s \<Longrightarrow> dial_step p s (s\<lparr>pending := pending s - 1, leaving := leaving s - 1\<rparr>)"
| close_stored: "c \<in> opened s \<Longrightarrow> c \<notin> shut s \<Longrightarrow> reg_remove c (reg s) = Some (r, True) \<Longrightarrow>
    dial_step p s (s\<lparr>reg := r, shut := insert c (shut s), uncounting := uncounting s + 1\<rparr>)"
| close_unknown: "c \<in> opened s \<Longrightarrow> c \<notin> shut s \<Longrightarrow> reg_remove c (reg s) = Some (r, False) \<Longrightarrow>
    dial_step p s (s\<lparr>reg := r, shut := insert c (shut s)\<rparr>)"
| uncount: "0 < uncounting s \<Longrightarrow> dial_step p s (s\<lparr>active := active s - 1, uncounting := uncounting s - 1\<rparr>)"

inductive reachable :: "dial_params \<Rightarrow> 'c dialer \<Rightarrow> bool" for p where
  start: "reachable p dial_start"
| step: "reachable p s \<Longrightarrow> dial_step p s t \<Longrightarrow> reachable p t"

inductive_cases dial_stepE: "dial_step p s t"

text \<open>The URL of the dial that starts when \<open>nxt\<close> dials have started before.\<close>

definition dial_url :: "string \<Rightarrow> nat \<Rightarrow> string" where
  "dial_url urls n = (let us = split_on (CHR '','') urls in us ! (n mod length us))"

section \<open>The invariant of dialing\<close>

text \<open>Connections open or on their way: stored in the registry, being dialed, or dialed and not yet stored.\<close>

definition in_progress :: "'c dialer \<Rightarrow> int" where
  "in_progress s = int (dialing s) + int (length (dialed s))"

definition held_conns :: "'c dialer \<Rightarrow> int" where
  "held_conns s = int (reg_len (reg s))"

text \<open>What \<open>active\<close> can become without a new dial.\<close>

definition potential :: "'c dialer \<Rightarrow> int" where
  "potential s = active s + int (counting s) + in_progress s"

definition spawning :: "'c dialer \<Rightarrow> int" where
  "spawning s = (case pc s of AtSpawn i \<Rightarrow> 1 | _ \<Rightarrow> 0)"

definition dial_inv :: "dial_params \<Rightarrow> 'c dialer \<Rightarrow> bool" where
  "dial_inv p s \<longleftrightarrow>
     reg_inv (reg s) \<and>
     held_conns s = active s + int (counting s) - int (uncounting s) \<and>
     pending s = in_progress s + int (counting s) + int (releasing s) + int (leaving s) \<and>
     sem s = in_progress s + int (counting s) + int (releasing s) + spawning s \<and>
     sem s \<le> inflight p \<and>
     potential s \<le> target p + inflight p \<and>
     (case pc s of
        HaveActive i a \<Rightarrow> potential s \<le> a + inflight p
      | AtSem i \<Rightarrow> potential s < target p + inflight p
      | AtSpawn i \<Rightarrow> potential s < target p + inflight p
      | _ \<Rightarrow> True)"

lemmas dial_simps = dial_inv_def in_progress_def held_conns_def potential_def spawning_def

lemma reg_add_len: "reg_add c r = (r', b) \<Longrightarrow> int (reg_len r') = int (reg_len r) + (if b then 1 else 0)"
  by (auto simp: reg_add_def reg_len_def split: if_splits)

lemma reg_remove_len:
  "reg_inv r \<Longrightarrow> reg_remove c r = Some (r', b) \<Longrightarrow> int (reg_len r') = int (reg_len r) - (if b then 1 else 0)"
  by (auto simp: reg_remove_def reg_len_def Let_def Suc_le_eq split: option.splits if_splits)

lemma reg_add_keeps: "reg_inv r \<Longrightarrow> reg_add c r = (r', b) \<Longrightarrow> reg_inv r'"
  using reg_inv_add [of r c] by simp

lemma reg_remove_keeps: "reg_inv r \<Longrightarrow> reg_remove c r = Some (r', b) \<Longrightarrow> reg_inv r'"
  by (rule reg_inv_remove)

lemma next_pass_cases: "next_pass p i = Waiting \<or> (\<exists>j. next_pass p i = AtCheck j)"
  by (simp add: next_pass_def)

lemma dial_inv_step:
  assumes "dial_step p s t" "dial_inv p s"
  shows "dial_inv p t"
  using assms
proof (cases rule: dial_step.cases)
  case (spawn i)
  then show ?thesis using assms(2) next_pass_cases [of p i] by (auto simp: dial_simps)
next
  case (add_stored c r)
  note len = length_remove1_int [OF this(2)]
  show ?thesis using len add_stored assms(2) reg_add_len [OF add_stored(3)] reg_add_keeps [OF _ add_stored(3)]
    by (auto simp: dial_simps split: loop_pc.splits)
next
  case (add_refused c r)
  note len = length_remove1_int [OF this(2)]
  show ?thesis using len add_refused assms(2) reg_add_len [OF add_refused(3)] reg_add_keeps [OF _ add_refused(3)]
    by (auto simp: dial_simps split: loop_pc.splits)
next
  case (close_stored c r)
  then show ?thesis using assms(2) reg_remove_len [OF _ close_stored(4)] reg_remove_keeps [OF _ close_stored(4)]
    by (auto simp: dial_simps split: loop_pc.splits)
next
  case (close_unknown c r)
  then show ?thesis using assms(2) reg_remove_len [OF _ close_unknown(4)] reg_remove_keeps [OF _ close_unknown(4)]
    by (auto simp: dial_simps split: loop_pc.splits)
qed (use assms(2) in \<open>auto simp: dial_simps split: loop_pc.splits\<close>)

lemma dial_inv_start: "0 \<le> target p + inflight p \<Longrightarrow> 0 \<le> inflight p \<Longrightarrow> dial_inv p dial_start"
  using reg_inv_new by (simp add: dial_simps dial_start_def reg_len_def empty_registry_def)

lemma reachable_inv:
  "reachable p s \<Longrightarrow> 0 \<le> inflight p \<Longrightarrow> 0 \<le> target p \<Longrightarrow> dial_inv p s"
  by (induction rule: reachable.induct) (auto intro: dial_inv_start dial_inv_step)

text \<open>A run with its number of ticks.\<close>

inductive timed :: "dial_params \<Rightarrow> nat \<Rightarrow> 'c dialer \<Rightarrow> bool" for p where
  timed_start: "timed p 0 dial_start"
| timed_tick: "timed p n s \<Longrightarrow> dial_step p s t \<Longrightarrow> pc s = Waiting \<Longrightarrow> pc t = AtCheck 0 \<Longrightarrow> timed p (Suc n) t"
| timed_step: "timed p n s \<Longrightarrow> dial_step p s t \<Longrightarrow> \<not> (pc s = Waiting \<and> pc t = AtCheck 0) \<Longrightarrow> timed p n t"

definition started_inv :: "dial_params \<Rightarrow> nat \<Rightarrow> 'c dialer \<Rightarrow> bool" where
  "started_inv p n s \<longleftrightarrow> (case pc s of
     Waiting \<Rightarrow> nxt s \<le> n * perTick p
   | Stopped \<Rightarrow> nxt s \<le> n * perTick p
   | AtCheck i \<Rightarrow> nxt s + perTick p \<le> n * perTick p + i \<and> i < perTick p
   | HaveActive i a \<Rightarrow> nxt s + perTick p \<le> n * perTick p + i \<and> i < perTick p
   | AtSem i \<Rightarrow> nxt s + perTick p \<le> n * perTick p + i \<and> i < perTick p
   | AtSpawn i \<Rightarrow> nxt s + perTick p \<le> n * perTick p + i \<and> i < perTick p)"

lemma perTick_pos: "0 < perTick p"
  by (simp add: perTick_def)

lemma tick_only: "dial_step p s t \<Longrightarrow> pc s = Waiting \<Longrightarrow> pc t = AtCheck 0 \<Longrightarrow> nxt t = nxt s"
  by (erule dial_stepE) auto

lemma loop_moves:
  "dial_step p s t \<Longrightarrow>
     pc t = pc s \<and> nxt t = nxt s \<or>
     pc s = Waiting \<and> (pc t = AtCheck 0 \<or> pc t = Stopped) \<and> nxt t = nxt s \<or>
     (\<exists>i. pc s = AtCheck i \<and> pc t = HaveActive i (active s) \<and> nxt t = nxt s) \<or>
     (\<exists>i a. pc s = HaveActive i a \<and> (pc t = Waiting \<or> pc t = AtSem i) \<and> nxt t = nxt s) \<or>
     (\<exists>i. pc s = AtSem i \<and> (pc t = Waiting \<or> pc t = AtSpawn i) \<and> nxt t = nxt s) \<or>
     (\<exists>i. pc s = AtSpawn i \<and> pc t = next_pass p i \<and> nxt t = nxt s + 1)"
  by (erule dial_stepE) auto

lemma started_step:
  assumes "dial_step p s t" "\<not> (pc s = Waiting \<and> pc t = AtCheck 0)" "started_inv p n s"
  shows "started_inv p n t"
  using loop_moves [OF assms(1)] assms(2,3)
  by (elim disjE exE conjE) (auto simp: started_inv_def next_pass_def split: loop_pc.splits)

lemma timed_started: "timed p n s \<Longrightarrow> started_inv p n s"
proof (induction rule: timed.induct)
  case timed_start
  then show ?case by (simp add: started_inv_def dial_start_def)
next
  case (timed_tick n s t)
  then show ?case using tick_only [of p s t] perTick_pos [of p] by (simp add: started_inv_def)
next
  case (timed_step n s t)
  then show ?case using started_step by blast
qed

lemma timed_reachable: "timed p n s \<Longrightarrow> reachable p s"
  by (induction rule: timed.induct) (auto intro: reachable.intros)

text \<open>One tick in which one dial starts, fails and leaves, as long as a pass is one dial.\<close>

lemma one_dial_cycle:
  assumes s: "timed p n (dial_start\<lparr>nxt := k\<rparr> :: 'c dialer)" and p: "perTick p = 1" "0 < target p" "0 < inflight p"
  shows "timed p (Suc n) (dial_start\<lparr>nxt := Suc k\<rparr> :: 'c dialer)"
proof -
  let ?b = "dial_start\<lparr>nxt := k\<rparr> :: 'c dialer" and ?e = "dial_start\<lparr>nxt := Suc k\<rparr> :: 'c dialer"
  have 1: "timed p (Suc n) (?b\<lparr>pc := AtCheck 0\<rparr>)"
    using timed_tick [OF s dial_step.tick] by (simp add: dial_start_def)
  have 2: "timed p (Suc n) (?b\<lparr>pc := HaveActive 0 0\<rparr>)"
    using timed_step [OF 1 dial_step.load_active [of _ 0]] by (simp add: dial_start_def)
  have 3: "timed p (Suc n) (?b\<lparr>pc := AtSem 0\<rparr>)"
    using timed_step [OF 2 dial_step.below_limit [of _ 0 0]] p by (simp add: dial_start_def)
  have 4: "timed p (Suc n) (?b\<lparr>pc := AtSpawn 0, sem := 1\<rparr>)"
    using timed_step [OF 3 dial_step.acquire [of _ 0]] p by (simp add: dial_start_def)
  have 5: "timed p (Suc n) (?e\<lparr>sem := 1, pending := 1, dialing := 1\<rparr>)"
    using timed_step [OF 4 dial_step.spawn [of _ 0]] p by (simp add: dial_start_def next_pass_def)
  have 6: "timed p (Suc n) (?e\<lparr>sem := 1, pending := 1, releasing := 1\<rparr>)"
    using timed_step [OF 5 dial_step.dial_failed] by (simp add: dial_start_def)
  have 7: "timed p (Suc n) (?e\<lparr>pending := 1, leaving := 1\<rparr>)"
    using timed_step [OF 6 dial_step.release] by (simp add: dial_start_def)
  show ?thesis
    using timed_step [OF 7 dial_step.leave] by (simp add: dial_start_def)
qed

section \<open>The passes of one tick\<close>

text \<open>The loop's moves left before it waits for the next tick, at most four per pass.\<close>

fun moves_left :: "dial_params \<Rightarrow> loop_pc \<Rightarrow> nat" where
  "moves_left p Waiting = 0"
| "moves_left p Stopped = 0"
| "moves_left p (AtCheck i) = 4 * (perTick p - i)"
| "moves_left p (HaveActive i a) = 4 * (perTick p - i) - 1"
| "moves_left p (AtSem i) = 4 * (perTick p - i) - 2"
| "moves_left p (AtSpawn i) = 4 * (perTick p - i) - 3"

fun pass_ok :: "dial_params \<Rightarrow> loop_pc \<Rightarrow> bool" where
  "pass_ok p Waiting = True"
| "pass_ok p Stopped = True"
| "pass_ok p (AtCheck i) = (i < perTick p)"
| "pass_ok p (HaveActive i a) = (i < perTick p)"
| "pass_ok p (AtSem i) = (i < perTick p)"
| "pass_ok p (AtSpawn i) = (i < perTick p)"

lemma pass_ok_step: "dial_step p s t \<Longrightarrow> pass_ok p (pc s) \<Longrightarrow> pass_ok p (pc t)"
  by (drule loop_moves, elim disjE exE conjE) (auto simp: next_pass_def perTick_pos)

lemma reachable_pass_ok: "reachable p s \<Longrightarrow> pass_ok p (pc s)"
  by (induction rule: reachable.induct) (auto simp: dial_start_def intro: pass_ok_step)

lemma moves_decrease:
  assumes "dial_step p s t" "pc s \<noteq> Waiting" "pass_ok p (pc s)"
  shows "moves_left p (pc t) + (if pc t \<noteq> pc s then 1 else 0) \<le> moves_left p (pc s)"
  using loop_moves [OF assms(1)] assms(2,3) by (elim disjE exE conjE) (auto simp: next_pass_def)

lemma moves_bound: "moves_left p c \<le> 4 * perTick p"
  by (cases c) auto

text \<open>The moves of a run in which the loop never waits.\<close>

lemma moves_along:
  assumes "\<And>k. k < n \<Longrightarrow> dial_step p (f k) (f (Suc k)) \<and> pc (f k) \<noteq> Waiting" "pass_ok p (pc (f 0))"
  shows "pass_ok p (pc (f n)) \<and>
    card {k. k < n \<and> pc (f (Suc k)) \<noteq> pc (f k)} + moves_left p (pc (f n)) \<le> moves_left p (pc (f 0))"
  using assms(1)
proof (induction n)
  case (Suc n)
  let ?M = "\<lambda>n. {k. k < n \<and> pc (f (Suc k)) \<noteq> pc (f k)}"
  have "?M (Suc n) = (if pc (f (Suc n)) \<noteq> pc (f n) then insert n (?M n) else ?M n)"
    by (auto simp: less_Suc_eq)
  then have "card (?M (Suc n)) = card (?M n) + (if pc (f (Suc n)) \<noteq> pc (f n) then 1 else 0)" by simp
  moreover have ih: "pass_ok p (pc (f n))" "card (?M n) + moves_left p (pc (f n)) \<le> moves_left p (pc (f 0))"
    using Suc by auto
  moreover have st: "dial_step p (f n) (f (Suc n))" "pc (f n) \<noteq> Waiting" using Suc.prems by auto
  ultimately show ?case using moves_decrease [OF st ih(1)] pass_ok_step [OF st(1) ih(1)] by simp
qed (use assms(2) in simp)

lemma never_blocked: "pc s \<notin> {Waiting, Stopped} \<Longrightarrow> \<exists>t. dial_step p s t \<and> pc t \<noteq> pc s"
proof (cases "pc s")
  case (AtCheck i)
  then show ?thesis using dial_step.load_active [OF AtCheck] by fastforce
next
  case (HaveActive i a)
  then show ?thesis
    using dial_step.at_limit [OF HaveActive] dial_step.below_limit [OF HaveActive]
    by (cases "a + pending s < target p") (fastforce simp: not_less)+
next
  case (AtSem i)
  then show ?thesis
    using dial_step.acquire [OF AtSem] dial_step.slots_busy [OF AtSem]
    by (cases "sem s < inflight p") fastforce+
next
  case (AtSpawn i)
  then show ?thesis using dial_step.spawn [OF AtSpawn] next_pass_cases [of p i] by fastforce
qed simp_all

section \<open>Properties of dialing\<close>

text \<open>
  A run that passes the target: with a target of one and one dial slot, a dial that finishes between the two
  loads of the check is seen in neither, and a second connection is dialed and stored.
\<close>

definition overshoot_params :: dial_params where
  "overshoot_params = \<lparr>target = 1, rate = 1000, inflight = 1\<rparr>"

definition overshoot_state :: "nat dialer" where
  "overshoot_state = dial_start\<lparr>nxt := 2, pc := AtCheck 2, active := 1, pending := 1, sem := 1, counting := 1,
     opened := {1, 0}, reg := \<lparr>conns = [0, 1], slot = [0 \<mapsto> 0, 1 \<mapsto> 1], closed_conns = {}\<rparr>\<rparr>"

lemma overshoot_run: "reachable overshoot_params overshoot_state"
proof -
  note defs = dial_start_def next_pass_def perTick_def go_quot_def reg_add_def empty_registry_def overshoot_params_def
  let ?r1 = "\<lparr>conns = [0], slot = [0 \<mapsto> 0], closed_conns = {}\<rparr> :: nat registry"
  let ?s1 = "dial_start\<lparr>nxt := 1, pc := AtCheck 1, pending := 1, sem := 1, dialing := 1\<rparr> :: nat dialer"
  let ?s2 = "dial_start\<lparr>nxt := 1, pc := HaveActive 1 0, reg := ?r1, active := 1, opened := {0}\<rparr> :: nat dialer"
  have "reachable overshoot_params (dial_start :: nat dialer)" by (rule reachable.start)
  note reachable.step [OF this dial_step.tick]
  then have a: "reachable overshoot_params (dial_start\<lparr>pc := AtCheck 0\<rparr> :: nat dialer)" by (simp add: defs)
  have "reachable overshoot_params (dial_start\<lparr>pc := HaveActive 0 0\<rparr> :: nat dialer)"
    using reachable.step [OF a dial_step.load_active [of _ 0]] by (simp add: defs)
  from reachable.step [OF this dial_step.below_limit [of _ 0 0]]
  have "reachable overshoot_params (dial_start\<lparr>pc := AtSem 0\<rparr> :: nat dialer)" by (simp add: defs)
  from reachable.step [OF this dial_step.acquire [of _ 0]]
  have "reachable overshoot_params (dial_start\<lparr>pc := AtSpawn 0, sem := 1\<rparr> :: nat dialer)" by (simp add: defs)
  from reachable.step [OF this dial_step.spawn [of _ 0]]
  have "reachable overshoot_params ?s1" by (simp add: defs)
  from reachable.step [OF this dial_step.load_active [of _ 1]]
  have "reachable overshoot_params (?s1\<lparr>pc := HaveActive 1 0\<rparr>)" by (simp add: defs)
  from reachable.step [OF this dial_step.dial_ok [of _ 0]]
  have "reachable overshoot_params (?s1\<lparr>pc := HaveActive 1 0, dialing := 0, dialed := [0], opened := {0}\<rparr>)" by (simp add: defs)
  from reachable.step [OF this dial_step.add_stored [of 0]]
  have "reachable overshoot_params (?s1\<lparr>pc := HaveActive 1 0, dialing := 0, opened := {0}, reg := ?r1, counting := 1\<rparr>)"
    by (simp add: defs)
  from reachable.step [OF this dial_step.count]
  have "reachable overshoot_params (?s2\<lparr>pending := 1, sem := 1, releasing := 1\<rparr>)" by (simp add: defs)
  from reachable.step [OF this dial_step.release]
  have "reachable overshoot_params (?s2\<lparr>pending := 1, leaving := 1\<rparr>)" by (simp add: defs)
  from reachable.step [OF this dial_step.leave]
  have "reachable overshoot_params ?s2" by (simp add: defs)
  from reachable.step [OF this dial_step.below_limit [of _ 1 0]]
  have "reachable overshoot_params (?s2\<lparr>pc := AtSem 1\<rparr>)" by (simp add: defs)
  from reachable.step [OF this dial_step.acquire [of _ 1]]
  have "reachable overshoot_params (?s2\<lparr>pc := AtSpawn 1, sem := 1\<rparr>)" by (simp add: defs)
  from reachable.step [OF this dial_step.spawn [of _ 1]]
  have "reachable overshoot_params (?s2\<lparr>pc := AtCheck 2, sem := 1, pending := 1, dialing := 1, nxt := 2\<rparr>)"
    by (simp add: defs numeral_2_eq_2)
  from reachable.step [OF this dial_step.dial_ok [of _ 1]]
  have "reachable overshoot_params (?s2\<lparr>pc := AtCheck 2, sem := 1, pending := 1, dialed := [1], nxt := 2, opened := {1, 0}\<rparr>)"
    by (simp add: defs)
  from reachable.step [OF this dial_step.add_stored [of 1]]
  have "reachable overshoot_params (?s2\<lparr>pc := AtCheck 2, sem := 1, pending := 1, counting := 1, nxt := 2, opened := {1, 0},
      reg := \<lparr>conns = [0, 1], slot = [0 \<mapsto> 0, 1 \<mapsto> 1], closed_conns = {}\<rparr>\<rparr>)"
    by (simp add: defs)
  then show ?thesis by (simp add: overshoot_state_def defs)
qed

text \<open>
  C8: The dial loop's bound and its bookkeeping. In every state any interleaving can reach: open and
  in-progress connections together never exceed the target by more than \<open>inflight\<close>; no connection is stored
  twice; a slot of the semaphore is taken by each goroutine that has not released it yet, and by the loop
  between taking a slot and starting the goroutine, and by nobody else, so never more than \<open>inflight\<close> are;
  \<open>pending\<close> counts the goroutines that have been started and not ended; and \<open>active\<close> differs from the number
  of stored connections only by the goroutines and callbacks that are between a registry operation and their
  addition to it, also for connections the server closed before they were added.
\<close>

theorem dial_bound:
  assumes "reachable p s" "0 \<le> target p" "0 \<le> inflight p"
  shows "held_conns s + in_progress s \<le> target p + inflight p \<and> in_progress s \<le> inflight p \<and>
    distinct (conns (reg s)) \<and>
    sem s = in_progress s + int (counting s) + int (releasing s) + spawning s \<and> sem s \<le> inflight p \<and>
    pending s = in_progress s + int (counting s) + int (releasing s) + int (leaving s) \<and>
    active s + int (counting s) = held_conns s + int (uncounting s)"
proof -
  have inv: "dial_inv p s" using reachable_inv assms by blast
  have "distinct (conns (reg s))" using inv reg_inv_distinct by (auto simp: dial_inv_def)
  moreover have "0 \<le> spawning s" by (simp add: spawning_def split: loop_pc.splits)
  ultimately show ?thesis using inv unfolding dial_inv_def potential_def by linarith
qed

text \<open>The bound is met: two connections are held while the second goroutine is about to count its own.\<close>

theorem dial_bound_witness:
  "held_conns overshoot_state = 2 \<and> active overshoot_state = 1 \<and> counting overshoot_state = 1 \<and>
    held_conns overshoot_state + in_progress overshoot_state \<le> target overshoot_params + inflight overshoot_params \<and>
    sem overshoot_state = 1 \<and> pending overshoot_state = 1 \<and> conns (reg overshoot_state) = [0, 1]"
proof -
  have "held_conns overshoot_state = 2 \<and> counting overshoot_state = 1 \<and> in_progress overshoot_state = 0 \<and>
      uncounting overshoot_state = 0 \<and> releasing overshoot_state = 0 \<and> leaving overshoot_state = 0 \<and>
      spawning overshoot_state = 0 \<and> conns (reg overshoot_state) = [0, 1]"
    by (simp add: overshoot_state_def dial_start_def held_conns_def reg_len_def in_progress_def spawning_def)
  then show ?thesis
    using dial_bound [OF overshoot_run] by (simp add: overshoot_params_def)
qed

text \<open>
  C32: the target can be exceeded. The check reads \<open>active\<close> and then \<open>pending\<close>; a dial that finishes
  between the two loads is in neither, so with a target of one and one dial slot two connections can be
  open, although the loop is meant to keep open plus in-progress connections at the target.
\<close>

theorem dial_overshoot:
  "\<exists>s :: nat dialer. reachable \<lparr>target = 1, rate = 1000, inflight = 1\<rparr> s \<and> held_conns s = 2"
  using overshoot_run
  by (intro exI [of _ overshoot_state]) (auto simp: overshoot_params_def overshoot_state_def held_conns_def reg_len_def)

text \<open>
  In any run, \<open>n\<close> ticks start at most \<open>n\<close> times \<open>max(rate/100, 1)\<close> dials: with ticks of 10 ms at most
  \<open>rate\<close> dials per second for every rate of at least 100.
\<close>

lemma dial_rate:
  assumes "timed p n s"
  shows "int (nxt s) \<le> int n * max (go_quot (rate p) 100) 1"
proof -
  have "nxt s \<le> n * perTick p" using timed_started [OF assms] by (auto simp: started_inv_def split: loop_pc.splits)
  moreover have "int (perTick p) = max (go_quot (rate p) 100) 1"
  proof -
    have "0 \<le> max (go_quot (rate p) 100) 1" by (rule order_trans [OF _ max.cobounded2]) simp
    then show ?thesis by (simp only: perTick_def int_nat_eq if_True)
  qed
  ultimately show ?thesis by (metis of_nat_le_iff of_nat_mult)
qed

text \<open>
  below 100 dials per second the rate is not kept: with a rate of 50, a run of one second (100
  ticks) can start 100 dials, because every tick starts at least one.
\<close>

lemma low_rate_exceeded:
  "\<exists>s :: nat dialer. timed \<lparr>target = 1000, rate = 50, inflight = 200\<rparr> 100 s \<and> nxt s = 100"
proof -
  let ?p = "\<lparr>target = 1000, rate = 50, inflight = 200\<rparr>"
  have "timed ?p n (dial_start\<lparr>nxt := n\<rparr> :: nat dialer)" for n
  proof (induction n)
    case 0
    then show ?case using timed_start [of ?p] by (simp add: dial_start_def)
  next
    case (Suc n)
    then show ?case by (rule one_dial_cycle) (simp_all add: perTick_def go_quot_def)
  qed
  then show ?thesis by (intro exI [of _ "dial_start\<lparr>nxt := 100\<rparr>"]) simp
qed

text \<open>
  C39: Every tick ends: whatever the dial goroutines and close callbacks do in between, the loop makes at
  most four moves per pass and \<open>perTick\<close> passes before it waits for the next tick, and it is never
  blocked on the way: in every state of a pass its next move is possible, also when the context is cancelled.
\<close>

theorem tick_ends:
  assumes "reachable p (f 0)" "\<And>k. k < n \<Longrightarrow> dial_step p (f k) (f (Suc k)) \<and> pc (f k) \<noteq> Waiting"
  shows "card {k. k < n \<and> pc (f (Suc k)) \<noteq> pc (f k)} \<le> 4 * perTick p \<and>
    (pc (f n) \<in> {Waiting, Stopped} \<or> (\<exists>t. dial_step p (f n) t \<and> pc t \<noteq> pc (f n)))"
proof -
  have "card {k. k < n \<and> pc (f (Suc k)) \<noteq> pc (f k)} + moves_left p (pc (f n)) \<le> moves_left p (pc (f 0))"
    using moves_along [OF assms(2) reachable_pass_ok [OF assms(1)]] by blast
  then show ?thesis using moves_bound [of p "pc (f 0)"] never_blocked [of "f n" p] by auto
qed

theorem tick_ends_witness:
  "card {k. k < 1 \<and> pc (if Suc k = 0 then dial_start\<lparr>pc := AtCheck 0\<rparr> else dial_start\<lparr>pc := HaveActive 0 0\<rparr> :: nat dialer) \<noteq>
      pc (if k = 0 then dial_start\<lparr>pc := AtCheck 0\<rparr> else dial_start\<lparr>pc := HaveActive 0 0\<rparr> :: nat dialer)}
    \<le> 4 * perTick \<lparr>target = 1, rate = 1000, inflight = 1\<rparr>"
proof -
  let ?p = "\<lparr>target = 1, rate = 1000, inflight = 1\<rparr>"
  let ?f = "\<lambda>k :: nat. if k = 0 then dial_start\<lparr>pc := AtCheck 0\<rparr> else dial_start\<lparr>pc := HaveActive 0 0\<rparr> :: nat dialer"
  have "reachable ?p (dial_start :: nat dialer)" by (rule reachable.start)
  from reachable.step [OF this dial_step.tick] have r: "reachable ?p (?f 0)" by (simp add: dial_start_def)
  have s: "dial_step ?p (?f k) (?f (Suc k)) \<and> pc (?f k) \<noteq> Waiting" if "k < 1" for k
    using that dial_step.load_active [of "?f 0" 0 ?p] by (simp add: dial_start_def)
  show ?thesis using tick_ends [where f = ?f and n = 1, OF r s] by simp
qed

text \<open>
  progress: whenever the loop waits, fewer than the target are open or pending and a dial slot is
  free, the next tick can start a dial without waiting for any other goroutine.
\<close>

lemma tick_dials:
  assumes "pc s = Waiting" "active s + pending s < target p" "sem s < inflight p"
  shows "\<exists>t. (dial_step p)\<^sup>*\<^sup>* s t \<and> dialing t = dialing s + 1 \<and> reg t = reg s \<and> pc t \<noteq> Stopped"
proof -
  have 1: "dial_step p s (s\<lparr>pc := AtCheck 0\<rparr>)" using assms by (intro dial_step.tick)
  have 2: "dial_step p (s\<lparr>pc := AtCheck 0\<rparr>) (s\<lparr>pc := HaveActive 0 (active s)\<rparr>)"
    using dial_step.load_active [of "s\<lparr>pc := AtCheck 0\<rparr>" 0 p] by simp
  have 3: "dial_step p (s\<lparr>pc := HaveActive 0 (active s)\<rparr>) (s\<lparr>pc := AtSem 0\<rparr>)"
    using dial_step.below_limit [of "s\<lparr>pc := HaveActive 0 (active s)\<rparr>" 0 "active s" p] assms by simp
  have 4: "dial_step p (s\<lparr>pc := AtSem 0\<rparr>) (s\<lparr>sem := sem s + 1, pc := AtSpawn 0\<rparr>)"
    using dial_step.acquire [of "s\<lparr>pc := AtSem 0\<rparr>" 0 p] assms by simp
  let ?t = "s\<lparr>sem := sem s + 1, pending := pending s + 1, dialing := dialing s + 1, nxt := nxt s + 1, pc := next_pass p 0\<rparr>"
  have 5: "dial_step p (s\<lparr>sem := sem s + 1, pc := AtSpawn 0\<rparr>) ?t"
    using dial_step.spawn [of "s\<lparr>sem := sem s + 1, pc := AtSpawn 0\<rparr>" 0 p] by simp
  have "(dial_step p)\<^sup>*\<^sup>* s ?t"
    using 1 2 3 4 5 by (meson rtranclp.rtrancl_into_rtrancl rtranclp.rtrancl_refl)
  then show ?thesis by (intro exI [of _ ?t]) (simp add: next_pass_def)
qed

end
