(* ===== verification/DialProgress.thy ===== *)
theory DialProgress
  imports LoadGen
begin

text \<open>
  Progress of dialing: from every state the load generator can be in before it is cancelled, it can get
  to its target, because no slot of the semaphore and no unit of \<open>pending\<close> is ever lost. Two lemmas carry
  this: the goroutines can always finish, and the loop can always get to its next tick.
\<close>

abbreviation runs :: "dial_params \<Rightarrow> 'c dialer \<Rightarrow> 'c dialer \<Rightarrow> bool" where
  "runs p \<equiv> (dial_step p)\<^sup>*\<^sup>*"

lemma reachable_runs: "runs p s t \<Longrightarrow> reachable p s \<Longrightarrow> reachable p t"
  by (induction rule: rtranclp_induct) (auto intro: reachable.step)

section \<open>The connections the state mentions\<close>

definition known_conns :: "'c dialer \<Rightarrow> 'c set" where
  "known_conns s = set (dialed s) \<union> set (conns (reg s)) \<union> closed_conns (reg s)"

definition known_inv :: "'c dialer \<Rightarrow> bool" where
  "known_inv s \<longleftrightarrow> finite (opened s) \<and> known_conns s \<subseteq> opened s"

lemma reg_add_conns:
  "reg_add c r = (r', b) \<Longrightarrow> set (conns r') \<subseteq> insert c (set (conns r)) \<and> closed_conns r' \<subseteq> closed_conns r"
  by (auto simp: reg_add_def split: if_splits)

lemma swap_remove_subset: "l < length xs \<Longrightarrow> set (take l (xs[i := xs ! l])) \<subseteq> set xs"
  using set_take_subset [of l "xs[i := xs ! l]"] set_update_subset_insert [of xs i "xs ! l"] nth_mem [of l xs] by blast

lemma reg_remove_conns:
  assumes "reg_remove c r = Some (r', b)"
  shows "set (conns r') \<subseteq> set (conns r) \<and> closed_conns r' \<subseteq> insert c (closed_conns r)"
proof (cases "slot r c")
  case None
  then show ?thesis using assms by (auto simp: reg_remove_def)
next
  case (Some i)
  then have "conns r \<noteq> []" "r' = r\<lparr>conns := take (length (conns r) - 1) ((conns r)[i := conns r ! (length (conns r) - 1)]),
      slot := ((slot r)(conns r ! (length (conns r) - 1) \<mapsto> i))(c := None)\<rparr>"
    using assms by (auto simp: reg_remove_def Let_def split: if_splits)
  then show ?thesis using swap_remove_subset [of "length (conns r) - 1" "conns r" i] by auto
qed

lemma known_step:
  assumes "dial_step p s t" "known_inv s"
  shows "known_inv t"
  using assms(1)
proof (cases rule: dial_step.cases)
  case (add_stored c r)
  then show ?thesis using assms(2) reg_add_conns [OF add_stored(3)] set_remove1_subset [of c "dialed s"]
    unfolding known_inv_def known_conns_def by simp blast
next
  case (add_refused c r)
  then show ?thesis using assms(2) reg_add_conns [OF add_refused(3)] set_remove1_subset [of c "dialed s"]
    unfolding known_inv_def known_conns_def by simp blast
next
  case (close_stored c r)
  then show ?thesis using assms(2) reg_remove_conns [OF close_stored(4)] unfolding known_inv_def known_conns_def by simp blast
next
  case (close_unknown c r)
  then show ?thesis using assms(2) reg_remove_conns [OF close_unknown(4)] unfolding known_inv_def known_conns_def by simp blast
qed (use assms(2) in \<open>auto simp: known_inv_def known_conns_def\<close>)

lemma reachable_known: "reachable p s \<Longrightarrow> known_inv s"
proof (induction rule: reachable.induct)
  case start
  show ?case by (simp add: known_inv_def known_conns_def dial_start_def empty_registry_def)
next
  case (step s t)
  then show ?case using known_step by blast
qed

section \<open>The goroutines finish\<close>

text \<open>The steps that the dial goroutines and close callbacks still have to make.\<close>

definition work_left :: "'c dialer \<Rightarrow> nat" where
  "work_left s = 5 * dialing s + 4 * length (dialed s) + 3 * counting s + 2 * releasing s + leaving s + uncounting s"

lemma work_step:
  assumes "0 < work_left s"
  shows "\<exists>t. dial_step p s t \<and> work_left t < work_left s \<and> pc t = pc s \<and> held_conns s \<le> held_conns t"
proof -
  consider "0 < dialing s" | "dialed s \<noteq> []" | "0 < counting s" | "0 < releasing s" | "0 < leaving s" | "0 < uncounting s"
    using assms unfolding work_left_def by fastforce
  then show ?thesis
  proof cases
    case 2
    then have c: "hd (dialed s) \<in> set (dialed s)" by simp
    obtain r b where r: "reg_add (hd (dialed s)) (reg s) = (r, b)" by (cases "reg_add (hd (dialed s)) (reg s)")
    have len: "length (remove1 (hd (dialed s)) (dialed s)) < length (dialed s)" using length_remove1_int [OF c] by linarith
    have held: "int (reg_len (reg s)) \<le> int (reg_len r)" using reg_add_len [OF r] by simp
    show ?thesis
    proof (cases b)
      case True
      from dial_step.add_stored [OF c] r True show ?thesis using len held
        by (intro exI [of _ "s\<lparr>reg := r, dialed := remove1 (hd (dialed s)) (dialed s), counting := counting s + 1\<rparr>"])
          (simp add: work_left_def held_conns_def)
    next
      case False
      from dial_step.add_refused [OF c] r False show ?thesis using len held
        by (intro exI [of _ "s\<lparr>reg := r, dialed := remove1 (hd (dialed s)) (dialed s), releasing := releasing s + 1\<rparr>"])
          (simp add: work_left_def held_conns_def)
    qed
  next
    case 1
    then show ?thesis
      by (intro exI [of _ "s\<lparr>dialing := dialing s - 1, releasing := releasing s + 1\<rparr>"] conjI dial_step.dial_failed) (simp_all add: work_left_def held_conns_def)
  next
    case 3
    then show ?thesis
      by (intro exI [of _ "s\<lparr>active := active s + 1, counting := counting s - 1, releasing := releasing s + 1\<rparr>"] conjI dial_step.count) (simp_all add: work_left_def held_conns_def)
  next
    case 4
    then show ?thesis
      by (intro exI [of _ "s\<lparr>sem := sem s - 1, releasing := releasing s - 1, leaving := leaving s + 1\<rparr>"] conjI dial_step.release) (simp_all add: work_left_def held_conns_def)
  next
    case 5
    then show ?thesis
      by (intro exI [of _ "s\<lparr>pending := pending s - 1, leaving := leaving s - 1\<rparr>"] conjI dial_step.leave) (simp_all add: work_left_def held_conns_def)
  next
    case 6
    then show ?thesis
      by (intro exI [of _ "s\<lparr>active := active s - 1, uncounting := uncounting s - 1\<rparr>"] conjI dial_step.uncount) (simp_all add: work_left_def held_conns_def)
  qed
qed

lemma work_finishes: "\<exists>t. runs p s t \<and> work_left t = 0 \<and> pc t = pc s \<and> held_conns s \<le> held_conns t"
proof (induction "work_left s" arbitrary: s rule: less_induct)
  case less
  show ?case
  proof (cases "work_left s = 0")
    case False
    then obtain u where u: "dial_step p s u" "work_left u < work_left s" "pc u = pc s" "held_conns s \<le> held_conns u"
      using work_step by blast
    from less(1) [OF u(2)] obtain t where "runs p u t" "work_left t = 0" "pc t = pc u" "held_conns u \<le> held_conns t"
      by blast
    then show ?thesis using u by (intro exI [of _ t]) (auto intro: converse_rtranclp_into_rtranclp)
  qed auto
qed

section \<open>The loop gets to its next tick\<close>

lemma loop_keeps_registry: "dial_step p s t \<Longrightarrow> pc t \<noteq> pc s \<Longrightarrow> reg t = reg s"
  by (erule dial_stepE) auto

lemma loop_waits:
  "pass_ok p (pc s) \<Longrightarrow> pc s \<noteq> Stopped \<Longrightarrow> \<exists>t. runs p s t \<and> pc t = Waiting \<and> reg t = reg s"
proof (induction "moves_left p (pc s)" arbitrary: s rule: less_induct)
  case less
  show ?case
  proof (cases "pc s = Waiting")
    case False
    then obtain u where u: "dial_step p s u" "pc u \<noteq> pc s" using never_blocked [of s p] less.prems(2) by auto
    have "moves_left p (pc u) < moves_left p (pc s)" using moves_decrease [OF u(1) False less.prems(1)] u(2) by simp
    moreover have "pc u \<noteq> Stopped" using loop_moves [OF u(1)] u(2) False by (auto simp: next_pass_def split: if_splits)
    ultimately obtain t where "runs p u t" "pc t = Waiting" "reg t = reg u"
      using less.hyps [of u] pass_ok_step [OF u(1) less.prems(1)] by blast
    then show ?thesis using u loop_keeps_registry [OF u]
      by (intro exI [of _ t]) (auto intro: converse_rtranclp_into_rtranclp)
  qed auto
qed

section \<open>The target is in reach\<close>

text \<open>The loop waits, every goroutine has finished, and nothing is held that should not be.\<close>

definition settled :: "'c dialer \<Rightarrow> bool" where
  "settled s \<longleftrightarrow> pc s = Waiting \<and> work_left s = 0"

lemma settles:
  assumes "reachable p s" "pc s \<noteq> Stopped"
  shows "\<exists>t. runs p s t \<and> settled t \<and> held_conns s \<le> held_conns t"
proof -
  obtain u where u: "runs p s u" "pc u = Waiting" "reg u = reg s"
    using loop_waits [OF reachable_pass_ok [OF assms(1)] assms(2)] by blast
  obtain t where t: "runs p u t" "work_left t = 0" "pc t = pc u" "held_conns u \<le> held_conns t" using work_finishes by blast
  have "runs p s t" using u(1) t(1) by (rule rtranclp_trans)
  then show ?thesis using u t by (intro exI [of _ t]) (simp add: settled_def held_conns_def)
qed

lemma settled_counts:
  assumes "dial_inv p s" "settled s"
  shows "active s = held_conns s" "pending s = 0" "sem s = 0" "in_progress s = 0"
  using assms unfolding settled_def work_left_def by (simp_all add: dial_simps)

text \<open>A dial in progress can succeed with a connection that was never open before, and it is stored.\<close>

lemma dial_succeeds:
  fixes s :: "'c dialer"
  assumes "infinite (UNIV :: 'c set)" "known_inv s" "reg_inv (reg s)" "0 < dialing s"
  shows "\<exists>t. runs p s t \<and> pc t = pc s \<and> held_conns t = held_conns s + 1"
proof -
  obtain c where c: "c \<notin> opened s" using ex_new_if_finite [OF assms(1)] assms(2) unfolding known_inv_def by blast
  let ?u = "s\<lparr>dialing := dialing s - 1, dialed := dialed s @ [c], opened := insert c (opened s)\<rparr>"
  have "c \<notin> closed_conns (reg s)" "c \<notin> set (conns (reg s))"
    using c assms(2) unfolding known_inv_def known_conns_def by blast+
  then obtain r where r: "reg_add c (reg s) = (r, True)" using reg_inv_dom [OF assms(3)] by (auto simp: reg_add_def)
  let ?t = "?u\<lparr>reg := r, dialed := remove1 c (dialed ?u), counting := counting ?u + 1\<rparr>"
  have "dial_step p s ?u" by (rule dial_step.dial_ok [OF assms(4) c])
  moreover have "dial_step p ?u ?t" by (rule dial_step.add_stored) (simp_all add: r)
  ultimately have "runs p s ?t" by (meson converse_rtranclp_into_rtranclp rtranclp.rtrancl_refl)
  then show ?thesis using reg_add_len [OF r] by (intro exI [of _ ?t]) (simp add: held_conns_def)
qed

text \<open>Below the target, one more connection can be opened.\<close>

lemma one_more:
  fixes s :: "'c dialer"
  assumes "infinite (UNIV :: 'c set)" "reachable p s" "settled s" "0 \<le> target p" "0 < inflight p" "held_conns s < target p"
  shows "\<exists>t. runs p s t \<and> settled t \<and> held_conns s < held_conns t"
proof -
  have inv: "dial_inv p s" using reachable_inv [OF assms(2)] assms(4,5) by simp
  note counts = settled_counts [OF inv assms(3)]
  have pc: "pc s = Waiting" using assms(3) by (simp add: settled_def)
  obtain u where u: "runs p s u" "dialing u = dialing s + 1" "reg u = reg s" "pc u \<noteq> Stopped"
    using tick_dials [OF pc, of p] counts assms(5,6) by auto
  have r: "reachable p u" by (rule reachable_runs [OF u(1) assms(2)])
  have "reg_inv (reg u)" using inv by (simp add: u(3) dial_inv_def)
  with dial_succeeds [OF assms(1) reachable_known [OF r]] u(2) obtain v where v: "runs p u v" "pc v = pc u"
    "held_conns v = held_conns u + 1" by fastforce
  have "reachable p v" "pc v \<noteq> Stopped" using reachable_runs [OF v(1) r] v(2) u(4) by simp_all
  from settles [OF this] obtain t where t: "runs p v t" "settled t" "held_conns v \<le> held_conns t" by blast
  have "runs p s t" using u(1) v(1) t(1) by (meson rtranclp_trans)
  then show ?thesis using t v(3) u(3) by (intro exI [of _ t]) (simp add: held_conns_def)
qed

lemma reaches_target:
  fixes s :: "'c dialer"
  assumes "infinite (UNIV :: 'c set)" "reachable p s" "settled s" "0 \<le> target p" "0 < inflight p"
  shows "\<exists>t. runs p s t \<and> settled t \<and> target p \<le> held_conns t"
  using assms(2,3)
proof (induction "nat (target p - held_conns s)" arbitrary: s rule: less_induct)
  case less
  show ?case
  proof (cases "held_conns s < target p")
    case True
    obtain u where u: "runs p s u" "settled u" "held_conns s < held_conns u"
      using one_more [OF assms(1) less.prems assms(4,5) True] by blast
    have "nat (target p - held_conns u) < nat (target p - held_conns s)" using True u(3) by simp
    from less.hyps [OF this reachable_runs [OF u(1) less.prems(1)] u(2)]
    show ?thesis using u(1) by (meson rtranclp_trans)
  next
    case False
    then show ?thesis using less.prems(2) by (intro exI [of _ s]) simp
  qed
qed

section \<open>Properties\<close>

text \<open>
  C9: The target stays in reach: whatever has happened (failed dials, connections closed at any moment,
  closes that overtake the dial), as long as the loop has not returned there is a continuation after
  which at least the target is open, nothing is in progress, and the counters are exact: \<open>active\<close> is the
  number of connections held, \<open>pending\<close> is zero and every slot of the semaphore is free. No slot is
  ever lost.
\<close>

theorem target_in_reach:
  fixes s :: "'c dialer"
  assumes "infinite (UNIV :: 'c set)" "reachable p s" "pc s \<noteq> Stopped" "0 \<le> target p" "0 < inflight p"
  shows "\<exists>t. (dial_step p)\<^sup>*\<^sup>* s t \<and> target p \<le> held_conns t \<and> held_conns t \<le> target p + inflight p \<and>
    active t = held_conns t \<and> pending t = 0 \<and> sem t = 0 \<and> in_progress t = 0"
proof -
  obtain u where u: "runs p s u" "settled u" using settles [OF assms(2,3)] by blast
  obtain t where t: "runs p u t" "settled t" "target p \<le> held_conns t"
    using reaches_target [OF assms(1) reachable_runs [OF u(1) assms(2)] u(2) assms(4,5)] by blast
  have run: "runs p s t" using u(1) t(1) by (rule rtranclp_trans)
  have inv: "dial_inv p t" using reachable_inv [OF reachable_runs [OF run assms(2)]] assms(4,5) by simp
  have "work_left t = 0" using t(2) by (simp add: settled_def)
  then have "held_conns t \<le> target p + inflight p"
    using inv settled_counts [OF inv t(2)] by (simp add: dial_inv_def potential_def work_left_def)
  then show ?thesis using run t(3) settled_counts [OF inv t(2)] by blast
qed

theorem target_in_reach_witness:
  "\<exists>t :: nat dialer. (dial_step \<lparr>target = 3, rate = 1000, inflight = 2\<rparr>)\<^sup>*\<^sup>* dial_start t \<and>
    3 \<le> held_conns t \<and> active t = held_conns t"
proof -
  have "\<exists>t :: nat dialer. (dial_step \<lparr>target = 3, rate = 1000, inflight = 2\<rparr>)\<^sup>*\<^sup>* dial_start t \<and>
      target \<lparr>target = 3, rate = 1000, inflight = 2\<rparr> \<le> held_conns t \<and>
      held_conns t \<le> target \<lparr>target = 3, rate = 1000, inflight = 2\<rparr> + inflight \<lparr>target = 3, rate = 1000, inflight = 2\<rparr> \<and>
      active t = held_conns t \<and> pending t = 0 \<and> sem t = 0 \<and> in_progress t = 0"
    using reachable.start by (rule target_in_reach [rotated]) (simp_all add: dial_start_def)
  then show ?thesis by auto
qed

end
