(* ===== verification/Messages.thy ===== *)
theory Messages
  imports Registry Text
begin

text \<open>
  Messages of the load generator, \<open>cmd/loadgen/main.go\<close>: \<open>sendLoop\<close>, which every 100 ms sends to the
  share of the connections that is due, the buffer with the send time it writes, the callback that
  reads the echoes, and the labels of dial errors. Floating-point values are \<open>float64\<close>.
\<close>

section \<open>How many messages a tick sends\<close>

definition send_step_ns :: int where "send_step_ns = 100000000"

text \<open>Go's conversion of a \<open>float64\<close> to \<open>int\<close>; outside the range of \<open>int64\<close> its result is up to the
  implementation.\<close>

fun go_int :: "flt \<Rightarrow> int option" where
  "go_int (Fin r) = (let n = (if 0 \<le> r then \<lfloor>r\<rfloor> else \<lceil>r\<rceil>) in if in_int64 n then Some n else None)"
| "go_int x = None"

definition due :: "int \<Rightarrow> int \<Rightarrow> flt" where
  "due nconns interval = fdiv (mk (of_int nconns) * mk (of_int send_step_ns)) (mk (of_int interval))"

definition carry_tick :: "int \<Rightarrow> int \<Rightarrow> flt \<Rightarrow> (int \<times> flt) option" where
  "carry_tick nconns interval carry =
     (let c = carry + due nconns interval
      in case go_int c of None \<Rightarrow> None | Some n \<Rightarrow> Some (n, c - mk (of_int n)))"

record send_state =
  cursor :: int
  carried :: flt

definition send_start :: send_state where
  "send_start = \<lparr>cursor = 0, carried = Fin 0\<rparr>"

text \<open>One tick: the connections it sends to. The registry may change between \<open>len\<close> and \<open>batch\<close>.\<close>

definition send_tick :: "int \<Rightarrow> 'c registry \<Rightarrow> 'c registry \<Rightarrow> send_state \<Rightarrow> ('c list \<times> send_state) option" where
  "send_tick interval at_len at_batch st =
     (case carry_tick (int (reg_len at_len)) interval (carried st) of
        None \<Rightarrow> None
      | Some (n, c) \<Rightarrow>
          (case reg_batch at_batch (cursor st) n of
             None \<Rightarrow> None
           | Some (batch, next_cursor) \<Rightarrow> Some (batch, \<lparr>cursor = next_cursor, carried = c\<rparr>)))"

text \<open>The loop over the ticks until the context is cancelled; each tick finds the registry as it is then.\<close>

fun send_loop :: "int \<Rightarrow> ('c registry \<times> 'c registry) list \<Rightarrow> send_state \<Rightarrow> 'c list list option" where
  "send_loop interval [] st = Some []"
| "send_loop interval ((at_len, at_batch) # ticks) st =
     (case send_tick interval at_len at_batch st of
        None \<Rightarrow> None
      | Some (batch, st') \<Rightarrow>
          (case send_loop interval ticks st' of None \<Rightarrow> None | Some batches \<Rightarrow> Some (batch # batches)))"

section \<open>The payload\<close>

text \<open>
  \<open>strconv.AppendInt(buf[:0], t, 10)\<close> writes the digits over the start of the buffer and leaves the rest;
  if they do not fit it writes to a new array and the buffer stays.
\<close>

definition payload_size :: "int \<Rightarrow> nat" where
  "payload_size payload = nat (if payload < 20 then 20 else payload)"

definition new_buffer :: "nat \<Rightarrow> string" where
  "new_buffer n = replicate n (CHR '' '')"

definition write_stamp :: "int \<Rightarrow> string \<Rightarrow> string" where
  "write_stamp t buf = (let ds = show_int t in if length ds \<le> length buf then ds @ drop (length ds) buf else buf)"

text \<open>The messages sent at the clock readings \<open>ts\<close>: one buffer, rewritten for each of them.\<close>

fun stamped :: "string \<Rightarrow> int list \<Rightarrow> string list" where
  "stamped buf [] = []"
| "stamped buf (t # ts) = (let b = write_stamp t buf in b # stamped b ts)"

text \<open>\<open>OnMessage\<close>: the send time read from an echo, \<open>None\<close> when it is ignored.\<close>

definition read_stamp :: "string \<Rightarrow> int option" where
  "read_stamp data = (case go_parse_int (takeWhile (\<lambda>c. c \<noteq> CHR '' '') data) of (t, ok) \<Rightarrow> if ok then Some t else None)"

section \<open>Dial errors\<close>

text \<open>
  What \<open>classify\<close> asks of an error: the \<open>syscall.Errno\<close> in its chain, whether a \<open>net.Error\<close> in its chain
  reports a timeout, whether it is \<open>context.DeadlineExceeded\<close>, and its text. The numbers are those of
  Linux.
\<close>

record dial_error =
  errno :: "int option"
  net_timeout :: bool
  deadline :: bool
  msg :: string

definition classify :: "dial_error \<Rightarrow> string" where
  "classify e = (case errno e of
     Some n \<Rightarrow>
       if n = 99 then ''source_ports_exhausted''
       else if n = 24 \<or> n = 23 then ''fd_limit''
       else if n = 111 then ''refused''
       else if n = 104 \<or> n = 32 then ''reset''
       else if n = 110 then ''timeout''
       else ''errno_'' @ show_int n
   | None \<Rightarrow>
       if net_timeout e \<or> deadline e then ''timeout''
       else if contains ''timeout'' (msg e) then ''timeout''
       else if contains ''reset'' (msg e) \<or> contains ''EOF'' (msg e) \<or> contains ''closed'' (msg e) then ''reset''
       else if contains ''refused'' (msg e) then ''refused''
       else if contains ''bad handshake'' (msg e) \<or> contains ''status'' (msg e) then ''handshake''
       else ''other'')"

text \<open>The flags' environment: \<open>None\<close> is the panic of \<open>envInt\<close>. An unset variable reads as the empty string.\<close>

definition envOr :: "(string \<Rightarrow> string) \<Rightarrow> string \<Rightarrow> string \<Rightarrow> string" where
  "envOr getenv key dflt = (if getenv key \<noteq> [] then getenv key else dflt)"

definition envInt :: "(string \<Rightarrow> string) \<Rightarrow> string \<Rightarrow> int \<Rightarrow> int option" where
  "envInt getenv key dflt = (if getenv key \<noteq> [] then go_atoi (getenv key) else Some dflt)"

section \<open>The rate of messages\<close>

text \<open>The exact share of one tick.\<close>

definition exact_due :: "int \<Rightarrow> int \<Rightarrow> rat" where
  "exact_due n interval = of_int n * of_int send_step_ns / of_int interval"

definition load_ok :: "int \<Rightarrow> int \<Rightarrow> bool" where
  "load_ok n interval \<longleftrightarrow> 0 \<le> n \<and> n \<le> 45000000 \<and> 1 \<le> interval \<and> interval \<le> 2 ^ 53"

lemma exact_due_bounds: "load_ok n interval \<Longrightarrow> 0 \<le> exact_due n interval \<and> exact_due n interval \<le> 2 ^ 52"
proof -
  assume ok: "load_ok n interval"
  then have i: "(1::rat) \<le> of_int interval" by (simp add: load_ok_def)
  have n: "(of_int n :: rat) \<le> 45000000" "(0::rat) \<le> of_int n" using ok by (simp_all add: load_ok_def)
  have "exact_due n interval \<le> of_int n * of_int send_step_ns / 1"
    unfolding exact_due_def using i n by (intro divide_left_mono) (simp_all add: send_step_ns_def)
  also have "\<dots> \<le> 2 ^ 52" using n by (simp add: send_step_ns_def)
  finally show ?thesis using n i by (simp add: exact_due_def send_step_ns_def)
qed

lemma due_value:
  assumes ok: "load_ok n interval"
  shows "due n interval = Fin (rnd (exact_due n interval))"
proof -
  have i: "\<bar>interval\<bar> \<le> 2 ^ 53" "\<bar>n\<bar> \<le> 2 ^ 53" "\<bar>send_step_ns\<bar> \<le> 2 ^ 53" "\<bar>n * send_step_ns\<bar> \<le> 2 ^ 53" "interval \<noteq> 0"
    using ok by (auto simp: load_ok_def send_step_ns_def)
  have "mk (of_int n) * mk (of_int send_step_ns) = mk (of_int (n * send_step_ns))"
    by (simp add: mk_int [OF i(2)] mk_int [OF i(3)])
  also have "\<dots> = Fin (of_int n * of_int send_step_ns)" using mk_int [OF i(4)] by simp
  finally have "due n interval = mk (exact_due n interval)"
    using i(5) by (simp add: due_def mk_int [OF i(1)] exact_due_def)
  then show ?thesis using exact_due_bounds [OF ok] mk_moderate [of "exact_due n interval"] by simp
qed

lemma due_close: "load_ok n interval \<Longrightarrow> \<bar>rnd (exact_due n interval) - exact_due n interval\<bar> \<le> ulp * (1 + exact_due n interval)"
  using rnd_error_total [of "exact_due n interval"] exact_due_bounds [of n interval] by simp

text \<open>One tick: the carry stays below one, and only the addition rounds.\<close>

lemma carry_tick_value:
  assumes ok: "load_ok n interval" and c: "0 \<le> c" "c < 1"
  defines "x \<equiv> rnd (exact_due n interval)"
  shows "\<exists>m c'. carry_tick n interval (Fin c) = Some (m, Fin c') \<and> 0 \<le> c' \<and> c' < 1 \<and> 0 \<le> m \<and>
    \<bar>of_int m + c' - (c + x)\<bar> \<le> ulp * (2 + x) \<and> of_int m + c' = rnd (c + x) \<and> rnd c' = c'"
proof -
  have x: "0 \<le> x" "x \<le> 2 ^ 52"
  proof -
    show "0 \<le> x" unfolding x_def using exact_due_bounds [OF ok] by (intro rnd_nonneg) simp
    have "x \<le> rnd (of_int (2 ^ 52))"
      unfolding x_def using exact_due_bounds [OF ok] by (intro rnd_mono) simp
    then show "x \<le> 2 ^ 52" using rnd_int [of "2 ^ 52"] by simp
  qed
  let ?s = "rnd (c + x)"
  have e: "\<bar>?s - (c + x)\<bar> \<le> ulp * (2 + x)"
  proof -
    have "\<bar>?s - (c + x)\<bar> \<le> ulp * (1 + \<bar>c + x\<bar>)" by (rule rnd_error_total)
    also have "\<dots> \<le> ulp * (2 + x)" using c x by (intro mult_left_mono) (simp_all add: ulp_def)
    finally show ?thesis .
  qed
  have s: "0 \<le> ?s" using c x by (intro rnd_nonneg) simp
  have "?s \<le> rnd (of_int (2 ^ 52 + 1))" using c x by (intro rnd_mono) simp
  then have s2: "?s \<le> 2 ^ 52 + 1" using rnd_int [of "2 ^ 52 + 1"] by simp
  have mk: "mk (c + x) = Fin ?s" using c x by (intro mk_moderate) simp
  let ?m = "\<lfloor>?s\<rfloor>"
  have m1: "0 \<le> ?m" using s by simp
  have m2: "?m \<le> 2 ^ 52 + 1" using s2 by (simp add: floor_le_iff)
  note m = m1 m2
  have i64: "in_int64 ?m" using m by (simp add: in_int64_def int64_min_def int64_max_def)
  have mk2: "mk (of_int ?m) = Fin (of_int ?m)" using m by (intro mk_int) simp
  have frac: "0 \<le> ?s - of_int ?m" "?s - of_int ?m < 1" by linarith+
  have "rnd (?s - of_int ?m) = ?s - of_int ?m" using s by (intro rnd_frac) (simp_all add: rnd_idem)
  moreover have "mk (?s - of_int ?m) = Fin (rnd (?s - of_int ?m))" using frac by (intro mk_moderate) simp
  ultimately have sub: "Fin ?s - Fin (of_int ?m) = Fin (?s - of_int ?m)" by (simp add: minus_flt_def)
  have "carry_tick n interval (Fin c) = Some (?m, Fin (?s - of_int ?m))"
    using due_value [OF ok] mk i64 s
    by (simp add: carry_tick_def x_def [symmetric] mk2 sub Let_def)
  moreover have "rnd (?s - of_int ?m) = ?s - of_int ?m" using s by (intro rnd_frac) (simp_all add: rnd_idem)
  ultimately show ?thesis using frac m(1) e by (intro exI [of _ ?m] exI [of _ "?s - of_int ?m"]) simp
qed

lemma carry_tick_share:
  assumes ok: "load_ok n interval" and c: "0 \<le> c" "c < 1"
  shows "\<exists>m c'. carry_tick n interval (Fin c) = Some (int m, Fin c') \<and> 0 \<le> c' \<and> c' < 1 \<and>
    \<bar>of_nat m + c' - (c + exact_due n interval)\<bar> \<le> ulp * (4 + 3 * exact_due n interval) \<and>
    of_nat m + c' = rnd (c + rnd (exact_due n interval)) \<and> rnd c' = c'"
proof -
  let ?q = "exact_due n interval" and ?x = "rnd (exact_due n interval)"
  obtain m c' where m: "carry_tick n interval (Fin c) = Some (m, Fin c')" "0 \<le> c'" "c' < 1" "0 \<le> m"
    "\<bar>of_int m + c' - (c + ?x)\<bar> \<le> ulp * (2 + ?x)" "of_int m + c' = rnd (c + ?x)" "rnd c' = c'"
    using carry_tick_value [OF ok c] by blast
  have q: "0 \<le> ?q" "\<bar>?x - ?q\<bar> \<le> ulp * (1 + ?q)" using exact_due_bounds [OF ok] due_close [OF ok] by simp_all
  have "ulp * (1 + ?q) \<le> 1 * (1 + ?q)" using q(1) by (intro mult_right_mono) (simp_all add: ulp_def)
  moreover have "?x - ?q \<le> ulp * (1 + ?q)" using q(2) by (rule order_trans [OF abs_ge_self])
  ultimately have "?x - ?q \<le> 1 * (1 + ?q)" by (rule order_trans [rotated])
  then have "?x \<le> 1 + 2 * ?q" by simp
  then have "ulp * (2 + ?x) \<le> ulp * (3 + 2 * ?q)" by (intro mult_left_mono) (simp_all add: ulp_def)
  then have "ulp * (2 + ?x) + \<bar>?x - ?q\<bar> \<le> ulp * (3 + 2 * ?q) + ulp * (1 + ?q)" using q(2) by linarith
  also have "\<dots> = ulp * (4 + 3 * ?q)" by (simp add: algebra_simps)
  finally have "\<bar>of_int m + c' - (c + ?q)\<bar> \<le> ulp * (4 + 3 * ?q)" using m(5) by linarith
  then show ?thesis using m(1-4,6,7) by (intro exI [of _ "nat m"] exI [of _ c']) simp
qed

lemma batch_ring_any:
  "\<exists>k'. reg_batch r (int k) (int n) = Some (take n (rotate k (conns r)), int k')"
  using batch_ring [of r k n] by (cases "conns r = []") (auto simp: reg_batch_def intro: exI [of _ 0])

lemma send_tick_share:
  assumes ok: "load_ok (int (reg_len a)) interval" and c: "0 \<le> c" "c < 1"
  defines "q \<equiv> exact_due (int (reg_len a)) interval"
  shows "\<exists>m c' k'. send_tick interval a b \<lparr>cursor = int k, carried = Fin c\<rparr> =
      Some (take m (rotate k (conns b)), \<lparr>cursor = int k', carried = Fin c'\<rparr>) \<and>
    0 \<le> c' \<and> c' < 1 \<and> \<bar>of_nat m + c' - (c + q)\<bar> \<le> ulp * (4 + 3 * q) \<and>
    of_nat m + c' = rnd (c + rnd q) \<and> rnd c' = c'"
proof -
  obtain m c' where m: "carry_tick (int (reg_len a)) interval (Fin c) = Some (int m, Fin c')" "0 \<le> c'" "c' < 1"
    "\<bar>of_nat m + c' - (c + q)\<bar> \<le> ulp * (4 + 3 * q)" "of_nat m + c' = rnd (c + rnd q)" "rnd c' = c'"
    using carry_tick_share [OF ok c] unfolding q_def by blast
  obtain k' where "reg_batch b (int k) (int m) = Some (take m (rotate k (conns b)), int k')"
    using batch_ring_any by blast
  then show ?thesis using m by (auto simp: send_tick_def)
qed

text \<open>
  At an interval of at least one tick no batch asks for more connections than there were. At exactly one tick
  the shares are whole numbers and nothing is carried; above it a share falls short of the number of
  connections by more than the rounding.
\<close>

definition carry_ok :: "int \<Rightarrow> rat \<Rightarrow> bool" where
  "carry_ok interval c \<longleftrightarrow> 0 \<le> c \<and> c < 1 \<and> rnd c = c \<and> (interval = send_step_ns \<longrightarrow> c = 0)"

lemma due_short:
  assumes "load_ok n interval" "send_step_ns < interval"
  shows "exact_due n interval \<le> of_int n - of_int n / (of_int send_step_ns + 1)"
proof -
  have i: "(of_int send_step_ns + 1 :: rat) \<le> of_int interval" "(0 :: rat) < of_int send_step_ns + 1"
    using assms(2) by (metis of_int_1 of_int_add of_int_le_iff zless_imp_add1_zle) (simp add: send_step_ns_def)
  have "0 \<le> (of_int n :: rat)" using assms(1) by (simp add: load_ok_def)
  then have "exact_due n interval \<le> of_int n * of_int send_step_ns / (of_int send_step_ns + 1)"
    unfolding exact_due_def using i by (intro divide_left_mono) (simp_all add: send_step_ns_def)
  also have "\<dots> = of_int n - of_int n / (of_int send_step_ns + 1)" using i(2) by (simp add: field_simps)
  finally show ?thesis .
qed

lemma share_fits:
  assumes ok: "load_ok (int len) interval" "send_step_ns \<le> interval" and c: "carry_ok interval c" and c': "0 \<le> c'" "c' < 1"
    and close: "\<bar>of_nat m + c' - (c + exact_due (int len) interval)\<bar> \<le> ulp * (4 + 3 * exact_due (int len) interval)"
    and sum: "of_nat m + c' = rnd (c + rnd (exact_due (int len) interval))"
  shows "m \<le> len \<and> (interval = send_step_ns \<longrightarrow> c' = 0)"
proof -
  let ?q = "exact_due (int len) interval"
  have whole: "m = len \<and> c' = 0" if "(of_nat m + c' :: rat) = of_nat len"
  proof -
    have "of_nat m \<le> (of_nat len :: rat)" "(of_nat len :: rat) < of_nat (m + 1)" using that c' by simp_all
    then have "m = len" unfolding of_nat_le_iff of_nat_less_iff by simp
    then show ?thesis using that by simp
  qed
  consider "len = 0" | "interval = send_step_ns" | "1 \<le> len" "send_step_ns < interval" using ok(2) by linarith
  then show ?thesis
  proof cases
    case 1
    then have "of_nat m + c' = c" using sum c by (simp add: exact_due_def carry_ok_def)
    then have "(of_nat m :: rat) < of_nat 1" using c c' by (simp add: carry_ok_def)
    then have "m = 0" unfolding of_nat_less_iff by simp
    then show ?thesis using \<open>of_nat m + c' = c\<close> c by (simp add: carry_ok_def)
  next
    case 2
    then have "?q = of_int (int len)" by (simp add: exact_due_def send_step_ns_def)
    moreover have "\<bar>int len\<bar> \<le> 2 ^ 53" using ok(1) by (simp add: load_ok_def)
    ultimately have "of_nat m + c' = (of_nat len :: rat)" using sum c rnd_int [of "int len"] 2 by (simp add: carry_ok_def)
    then show ?thesis using whole by simp
  next
    case 3
    have q: "?q \<le> of_nat len - of_nat len / (of_int send_step_ns + 1)" using due_short [OF ok(1) 3(2)] by simp
    have l: "(1 :: rat) \<le> of_nat len" using 3(1) by (metis of_nat_1 of_nat_le_iff)
    have "?q \<le> of_nat len" using q l by (simp add: send_step_ns_def)
    then have "ulp * (4 + 3 * ?q) \<le> ulp * (7 * of_nat len)" using l by (intro mult_left_mono) (simp_all add: ulp_def)
    also have "\<dots> \<le> of_nat len / (of_int send_step_ns + 1)" by (simp add: ulp_def send_step_ns_def)
    finally have "(of_nat m :: rat) < of_nat len + 1" using q close c c' unfolding carry_ok_def abs_le_iff by linarith
    then have "(of_nat m :: rat) < of_nat (len + 1)" by simp
    then have "m \<le> len" unfolding of_nat_less_iff by simp
    then show ?thesis using 3(2) by simp
  qed
qed

lemma send_loop_batches:
  assumes "\<forall>(a, b) \<in> set ticks. load_ok (int (reg_len a)) interval" "0 \<le> c" "c < 1"
  shows "\<exists>batches. send_loop interval ticks \<lparr>cursor = int k, carried = Fin c\<rparr> = Some batches \<and>
    list_all2 (\<lambda>(a, b) batch. \<exists>m i. batch = take m (rotate i (conns b))) ticks batches"
  using assms
proof (induction ticks arbitrary: k c)
  case (Cons ab ticks)
  obtain a b where ab: "ab = (a, b)" by (cases ab)
  have "load_ok (int (reg_len a)) interval" using Cons.prems(1) by (simp add: ab)
  from send_tick_share [OF this Cons.prems(2,3), of b k] obtain m c' k'
    where t: "send_tick interval a b \<lparr>cursor = int k, carried = Fin c\<rparr> =
      Some (take m (rotate k (conns b)), \<lparr>cursor = int k', carried = Fin c'\<rparr>)" "0 \<le> c'" "c' < 1"
    by blast
  have "\<forall>(a, b) \<in> set ticks. load_ok (int (reg_len a)) interval" using Cons.prems(1) by simp
  from Cons.IH [OF this t(2,3), of k'] show ?case by (fastforce simp: ab t(1))
qed simp

text \<open>What is lost when connections are closed between the count and the batch of a tick.\<close>

definition lost :: "'c registry \<times> 'c registry \<Rightarrow> nat" where
  "lost ab = reg_len (fst ab) - reg_len (snd ab)"

definition tick_due :: "int \<Rightarrow> 'c registry \<times> 'c registry \<Rightarrow> rat" where
  "tick_due interval ab = exact_due (int (reg_len (fst ab))) interval"

lemma send_loop_total:
  assumes "\<forall>(a, b) \<in> set ticks. load_ok (int (reg_len a)) interval" "send_step_ns \<le> interval" "carry_ok interval c"
  shows "\<exists>batches c'. send_loop interval ticks \<lparr>cursor = int k, carried = Fin c\<rparr> = Some batches \<and>
    0 \<le> c' \<and> c' < 1 \<and>
    \<bar>of_nat (length (concat batches)) + c' - (c + (\<Sum>t \<leftarrow> ticks. tick_due interval t))\<bar>
      \<le> (\<Sum>t \<leftarrow> ticks. of_nat (lost t) + ulp * (4 + 3 * tick_due interval t))"
  using assms
proof (induction ticks arbitrary: k c)
  case Nil
  then show ?case by (intro exI [of _ "[]"] exI [of _ c]) (simp add: carry_ok_def)
next
  case (Cons ab ticks)
  obtain a b where ab: "ab = (a, b)" by (cases ab)
  let ?q = "exact_due (int (reg_len a)) interval"
  have ok: "load_ok (int (reg_len a)) interval" using Cons.prems(1) by (simp add: ab)
  have c: "0 \<le> c" "c < 1" using Cons.prems(3) by (simp_all add: carry_ok_def)
  from send_tick_share [OF ok c, of b k] obtain m c1 k1
    where t: "send_tick interval a b \<lparr>cursor = int k, carried = Fin c\<rparr> =
      Some (take m (rotate k (conns b)), \<lparr>cursor = int k1, carried = Fin c1\<rparr>)" "0 \<le> c1" "c1 < 1"
      "\<bar>of_nat m + c1 - (c + ?q)\<bar> \<le> ulp * (4 + 3 * ?q)" "of_nat m + c1 = rnd (c + rnd ?q)" "rnd c1 = c1"
    by blast
  note fits = share_fits [OF ok Cons.prems(2,3) t(2-5)]
  then have c1: "carry_ok interval c1" using t(2,3,6) by (simp add: carry_ok_def)
  let ?l = "length (take m (rotate k (conns b)))"
  have "?l \<le> m" "m \<le> ?l + lost ab" using fits by (auto simp: lost_def ab reg_len_def)
  then have len: "(of_nat ?l :: rat) \<le> of_nat m" "(of_nat m :: rat) \<le> of_nat ?l + of_nat (lost ab)"
    by (simp_all only: of_nat_le_iff flip: of_nat_add)
  have "\<forall>(a, b) \<in> set ticks. load_ok (int (reg_len a)) interval" using Cons.prems(1) by simp
  from Cons.IH [OF this Cons.prems(2) c1, of k1] obtain batches c2
    where b: "send_loop interval ticks \<lparr>cursor = int k1, carried = Fin c1\<rparr> = Some batches" "0 \<le> c2" "c2 < 1"
      "\<bar>of_nat (length (concat batches)) + c2 - (c1 + (\<Sum>t \<leftarrow> ticks. tick_due interval t))\<bar>
        \<le> (\<Sum>t \<leftarrow> ticks. of_nat (lost t) + ulp * (4 + 3 * tick_due interval t))"
    by blast
  have "\<bar>of_nat (?l + length (concat batches)) + c2 - (c + (?q + (\<Sum>t \<leftarrow> ticks. tick_due interval t)))\<bar>
      \<le> (of_nat (lost ab) + ulp * (4 + 3 * ?q)) + (\<Sum>t \<leftarrow> ticks. of_nat (lost t) + ulp * (4 + 3 * tick_due interval t))"
    using t(4) b(4) len unfolding of_nat_add by linarith
  moreover have "tick_due interval ab = ?q" by (simp add: tick_due_def ab)
  ultimately show ?case using b(1-3)
    by (intro exI [of _ "take m (rotate k (conns b)) # batches"] exI [of _ c2]) (simp add: ab t(1))
qed

text \<open>
  C30: Sending never fails: whatever connections come and go between the ticks, and between the count
  and the batch of one tick, each batch consists of different connections that are in the registry
  when the batch is taken.
\<close>

theorem send_loop_safe:
  assumes "\<forall>(a, b) \<in> set ticks. load_ok (int (reg_len a)) interval \<and> reg_inv b"
  shows "\<exists>batches. send_loop interval ticks send_start = Some batches \<and>
    list_all2 (\<lambda>(a, b) batch. distinct batch \<and> set batch \<subseteq> set (conns b)) ticks batches"
proof -
  have "\<forall>(a, b) \<in> set ticks. load_ok (int (reg_len a)) interval" using assms by auto
  from send_loop_batches [OF this, of 0 0] obtain batches
    where b: "send_loop interval ticks send_start = Some batches"
      "list_all2 (\<lambda>(a, b) batch. \<exists>m i. batch = take m (rotate i (conns b))) ticks batches"
    by (auto simp: send_start_def)
  have "list_all2 (\<lambda>(a, b) batch. distinct batch \<and> set batch \<subseteq> set (conns b)) ticks batches"
    using b(2) assms
    by (elim list.rel_mono_strong) (auto simp: reg_inv_distinct dest!: in_set_takeD)
  with b(1) show ?thesis by blast
qed

theorem send_loop_safe_witness:
  "\<exists>batches. send_loop 400000000
      [(fst (reg_add 5 (fst (reg_add (4::nat) empty_registry))), fst (reg_add 4 empty_registry)), (empty_registry, empty_registry)]
      send_start = Some batches"
proof -
  have "\<forall>(a, b) \<in> set [(fst (reg_add 5 (fst (reg_add (4::nat) empty_registry))), fst (reg_add 4 empty_registry)), (empty_registry, empty_registry)].
      load_ok (int (reg_len a)) 400000000 \<and> reg_inv b"
    by (simp add: reg_inv_new reg_inv_add)
      (simp add: load_ok_def reg_len_def reg_add_def empty_registry_def)
  from send_loop_safe [OF this] show ?thesis by blast
qed

text \<open>
  C12: The number of messages follows the flag \<open>interval\<close>, for intervals of at least the 100 ms of a tick
  (and at most \<open>2 ^ 53\<close> ns) and at most 45 million connections: over any number of ticks it differs from the
  sum of the connections' shares by at most one, plus the rounding of the floating-point carry, plus the
  connections that were closed between the count and the batch of a tick. The carry does not lose fractions
  of a message. Intervals below 100 ms are not kept (lemma \<open>short_interval\<close>).
\<close>

theorem message_rate:
  assumes "\<forall>(a, b) \<in> set ticks. load_ok (int (reg_len a)) interval" "send_step_ns \<le> interval"
  shows "\<exists>batches. send_loop interval ticks send_start = Some batches \<and>
    \<bar>of_nat (length (concat batches)) - (\<Sum>t \<leftarrow> ticks. tick_due interval t)\<bar>
      \<le> 1 + (\<Sum>t \<leftarrow> ticks. of_nat (lost t) + ulp * (4 + 3 * tick_due interval t))"
proof -
  have "carry_ok interval 0" by (simp add: carry_ok_def)
  from send_loop_total [OF assms this, of 0] obtain batches c
    where "send_loop interval ticks send_start = Some batches" "0 \<le> c" "c < 1"
      "\<bar>of_nat (length (concat batches)) + c - (0 + (\<Sum>t \<leftarrow> ticks. tick_due interval t))\<bar>
        \<le> (\<Sum>t \<leftarrow> ticks. of_nat (lost t) + ulp * (4 + 3 * tick_due interval t))"
    by (auto simp: send_start_def)
  then show ?thesis by (intro exI [of _ batches] conjI) (simp, linarith)
qed

text \<open>
  Four connections with a message every 400 ms for eight ticks, one of which is closed between the count and
  the batch of the last tick: eight messages, give or take two and the rounding.
\<close>

definition four_conns :: "nat registry" where
  "four_conns = fst (reg_add 3 (fst (reg_add 2 (fst (reg_add 1 (fst (reg_add 0 empty_registry)))))))"

definition three_conns :: "nat registry" where
  "three_conns = fst (reg_add 2 (fst (reg_add 1 (fst (reg_add 0 empty_registry)))))"

lemma few_conns_len: "reg_len four_conns = 4" "reg_len three_conns = 3"
  by (simp_all add: four_conns_def three_conns_def reg_len_def reg_add_def empty_registry_def)

theorem message_rate_witness:
  "\<exists>batches. send_loop 400000000 (replicate 7 (four_conns, four_conns) @ [(four_conns, three_conns)]) send_start = Some batches \<and>
    \<bar>of_nat (length (concat batches)) - (8 :: rat)\<bar> < 3"
proof -
  let ?ticks = "replicate 7 (four_conns, four_conns) @ [(four_conns, three_conns)]"
  have ok: "\<forall>(a, b) \<in> set ?ticks. load_ok (int (reg_len a)) 400000000" "send_step_ns \<le> 400000000"
    by (simp_all add: few_conns_len load_ok_def send_step_ns_def)
  from message_rate [OF ok] obtain batches
    where b: "send_loop 400000000 ?ticks send_start = Some batches"
      "\<bar>of_nat (length (concat batches)) - (\<Sum>t \<leftarrow> ?ticks. tick_due 400000000 t)\<bar>
      \<le> 1 + (\<Sum>t \<leftarrow> ?ticks. of_nat (lost t) + ulp * (4 + 3 * tick_due 400000000 t))"
    by blast
  have "(\<Sum>t \<leftarrow> ?ticks. tick_due 400000000 t) = 8"
    "1 + (\<Sum>t \<leftarrow> ?ticks. of_nat (lost t) + ulp * (4 + 3 * tick_due 400000000 t)) < 3"
    by (simp_all add: tick_due_def lost_def few_conns_len exact_due_def send_step_ns_def ulp_def sum_list_replicate)
  with b show ?thesis by auto
qed

text \<open>
  An interval below a tick is not kept: with 50 ms four connections should send eight messages per tick, but
  a batch holds each connection at most once, so half of them are never sent.
\<close>

lemma short_interval:
  "map_option (map length) (send_loop 50000000 (replicate 10 (four_conns, four_conns)) send_start) = Some (replicate 10 4)"
  by code_simp

section \<open>Send times in the payload\<close>

lemma length_show_dec_mono: "0 \<le> m \<Longrightarrow> m \<le> n \<Longrightarrow> length (show_dec m) \<le> length (show_dec n)"
proof (induction n arbitrary: m rule: show_dec.induct)
  case (1 n)
  then show ?case
    using zdiv_mono1 [of m n 10] by (subst show_dec.simps [of m], subst show_dec.simps [of n]) auto
qed

lemma length_show_int64: "0 \<le> t \<Longrightarrow> t \<le> int64_max \<Longrightarrow> length (show_dec t) \<le> 19"
proof -
  assume "0 \<le> t" "t \<le> int64_max"
  then have "length (show_dec t) \<le> length (show_dec int64_max)" by (rule length_show_dec_mono)
  also have "\<dots> = 19" by (simp add: int64_max_def show_dec.simps)
  finally show ?thesis .
qed

text \<open>A buffer whose text part is no longer than that of \<open>t\<close>.\<close>

definition clear_for :: "int \<Rightarrow> string \<Rightarrow> bool" where
  "clear_for t buf \<longleftrightarrow> (\<exists>ds k. buf = ds @ replicate k (CHR '' '') \<and> length ds \<le> length (show_dec t))"

lemma write_clear:
  assumes "clear_for t buf" "length (show_dec t) \<le> length buf" "0 \<le> t"
  shows "write_stamp t buf = show_dec t @ replicate (length buf - length (show_dec t)) (CHR '' '')"
  using assms by (auto simp: clear_for_def write_stamp_def show_int_def Let_def add.commute)

lemma read_clear: "0 \<le> t \<Longrightarrow> t \<le> int64_max \<Longrightarrow> read_stamp (show_dec t @ replicate k (CHR '' '')) = Some t"
proof -
  assume t: "0 \<le> t" "t \<le> int64_max"
  have space: "\<not> is_digit (CHR '' '')" by code_simp
  have "takeWhile (\<lambda>c. c \<noteq> CHR '' '') (show_dec t @ replicate k (CHR '' '')) = show_dec t"
    using show_dec_digits [OF t(1)] space by (subst takeWhile_append2) (auto simp: takeWhile_replicate)
  moreover have "go_atoi (show_dec t) = Some t"
    using go_atoi_show_int [of t] t by (simp add: show_int_def in_int64_def int64_min_def)
  ultimately show ?thesis by (simp add: read_stamp_def go_atoi_def)
qed

lemma stamped_read:
  assumes "sorted ts" "\<forall>t \<in> set ts. 0 \<le> t \<and> t \<le> int64_max" "20 \<le> length buf" "ts \<noteq> [] \<Longrightarrow> clear_for (hd ts) buf"
  shows "map read_stamp (stamped buf ts) = map Some ts \<and> (\<forall>b \<in> set (stamped buf ts). length b = length buf)"
  using assms
proof (induction ts arbitrary: buf)
  case (Cons t ts)
  have t: "0 \<le> t" "t \<le> int64_max" "length (show_dec t) \<le> length buf" "clear_for t buf"
    using Cons.prems length_show_int64 [of t] by auto
  let ?b = "write_stamp t buf"
  have b: "?b = show_dec t @ replicate (length buf - length (show_dec t)) (CHR '' '')"
    by (rule write_clear [OF t(4,3,1)])
  then have len: "length ?b = length buf" using t(3) by simp
  have "clear_for (hd ts) ?b" if "ts \<noteq> []"
    using Cons.prems(1,2) t(1) length_show_dec_mono [of t "hd ts"] hd_in_set [OF that] b
    by (auto simp: clear_for_def)
  then have "map read_stamp (stamped ?b ts) = map Some ts \<and> (\<forall>b \<in> set (stamped ?b ts). length b = length ?b)"
    using Cons.prems(1-3) len by (intro Cons.IH) auto
  moreover have "read_stamp ?b = Some t" unfolding b by (rule read_clear [OF t(1,2)])
  moreover have "stamped buf (t # ts) = ?b # stamped ?b ts" by (simp only: stamped.simps Let_def)
  ultimately show ?case using len by simp
qed simp

lemma stamps_from_new:
  assumes "sorted ts" "\<forall>t \<in> set ts. 0 \<le> t \<and> t \<le> int64_max"
  shows "map read_stamp (stamped (new_buffer (payload_size payload)) ts) = map Some ts \<and>
    (\<forall>b \<in> set (stamped (new_buffer (payload_size payload)) ts). length b = payload_size payload)"
proof -
  have "clear_for (hd ts) (new_buffer (payload_size payload))"
    by (simp add: clear_for_def new_buffer_def) (intro exI [of _ "[]"], simp)
  moreover have "length (new_buffer (payload_size payload)) = payload_size payload" "20 \<le> payload_size payload"
    by (simp_all add: new_buffer_def payload_size_def) linarith
  ultimately show ?thesis using stamped_read [OF assms, of "new_buffer (payload_size payload)"] by simp
qed

text \<open>
  C13: Every echo is timed against its own message: with a clock that does not run backwards, each
  message of the run has the configured size, at least 20 bytes, and reading it back gives the time at which
  it was written, although all messages are written over one another in one buffer.
\<close>

theorem stamp_roundtrip:
  assumes "sorted ts" "\<forall>t \<in> set ts. 0 \<le> t \<and> t \<le> int64_max"
  shows "map read_stamp (stamped (new_buffer (payload_size payload)) ts) = map Some ts \<and>
    (\<forall>b \<in> set (stamped (new_buffer (payload_size payload)) ts). int (length b) = max 20 payload)"
  using stamps_from_new [OF assms, of payload] by (simp add: payload_size_def max_def split: if_splits)

theorem stamp_roundtrip_witness:
  "map read_stamp (stamped (new_buffer (payload_size 8)) [7, 7, 1793000000000000000]) =
    [Some 7, Some 7, Some 1793000000000000000]"
  using stamp_roundtrip [of "[7, 7, 1793000000000000000]" 8] by (simp add: int64_max_def)

end
