(* ===== verification/Durations.thy ===== *)
theory Durations
  imports Messages
begin

text \<open>
  The load generator's flags, \<open>cmd/loadgen/main.go\<close>, and their durations: \<open>envDuration\<close> reads one from
  the environment with Go's \<open>time.ParseDuration\<close>, and the start-up line prints one with
  \<open>Duration.String\<close>. Both are written out on the 64-bit integers and the \<open>float64\<close> they use; a
  duration is a number of nanoseconds.
\<close>

section \<open>Reading a duration\<close>

text \<open>Digits before the point; \<open>None\<close> is the overflow over \<open>1 << 63\<close>.\<close>

fun leading_int :: "int \<Rightarrow> string \<Rightarrow> (int \<times> string) option" where
  "leading_int x [] = Some (x, [])"
| "leading_int x (c # s) =
     (if \<not> is_digit c then Some (x, c # s)
      else if 2 ^ 63 div 10 < x then None
      else if 2 ^ 63 < x * 10 + digit_val c then None
      else leading_int (x * 10 + digit_val c) s)"

text \<open>Digits after the point: their value and the power of ten; digits that do not fit are dropped.\<close>

fun leading_fraction :: "int \<Rightarrow> flt \<Rightarrow> bool \<Rightarrow> string \<Rightarrow> int \<times> flt \<times> string" where
  "leading_fraction x scale overflow [] = (x, scale, [])"
| "leading_fraction x scale overflow (c # s) =
     (if \<not> is_digit c then (x, scale, c # s)
      else if overflow \<or> (2 ^ 63 - 1) div 10 < x \<or> 2 ^ 63 < x * 10 + digit_val c
      then leading_fraction x scale True s
      else leading_fraction (x * 10 + digit_val c) (scale * Fin 10) False s)"

text \<open>The units; the two spellings of the micro sign are in UTF-8.\<close>

definition unit_map :: "(string \<times> int) list" where
  "unit_map = [(''ns'', 1), (''us'', 10 ^ 3), ([CHR 0xC2, CHR 0xB5, CHR ''s''], 10 ^ 3), ([CHR 0xCE, CHR 0xBC, CHR ''s''], 10 ^ 3),
     (''ms'', 10 ^ 6), (''s'', 10 ^ 9), (''m'', 60 * 10 ^ 9), (''h'', 3600 * 10 ^ 9)]"

definition unit_char :: "char \<Rightarrow> bool" where
  "unit_char c = (c \<noteq> CHR ''.'' \<and> \<not> is_digit c)"

text \<open>Conversion to \<open>uint64\<close> of a value in range.\<close>

fun trunc_u64 :: "flt \<Rightarrow> int" where
  "trunc_u64 (Fin r) = \<lfloor>r\<rfloor>"
| "trunc_u64 x = 0"

text \<open>One number with its unit: its nanoseconds and the text after it.\<close>

definition parse_part :: "string \<Rightarrow> (int \<times> string) option" where
  "parse_part s =
     (if s = [] \<or> \<not> (hd s = CHR ''.'' \<or> is_digit (hd s)) then None
      else case leading_int 0 s of
        None \<Rightarrow> None
      | Some (v, s1) \<Rightarrow>
          (let pre = length s1 \<noteq> length s; point = s1 \<noteq> [] \<and> hd s1 = CHR ''.'';
               (f, scale, s2) = (if point then leading_fraction 0 (Fin 1) False (tl s1) else (0, Fin 1, s1));
               post = point \<and> length s2 \<noteq> length (tl s1);
               u = takeWhile unit_char s2
           in if \<not> pre \<and> \<not> post \<or> u = [] then None
              else (case map_of unit_map u of
                      None \<Rightarrow> None
                    | Some unit \<Rightarrow>
                        if 2 ^ 63 div unit < v then None
                        else let w = v * unit + (if 0 < f then trunc_u64 (mk (of_int f) * fdiv (mk (of_int unit)) scale) else 0)
                          in if 2 ^ 63 < w then None else Some (w, dropWhile unit_char s2))))"

lemma leading_int_length: "leading_int x s = Some (v, r) \<Longrightarrow> length r \<le> length s"
  by (induction s arbitrary: x) (auto split: if_splits simp: le_SucI)

lemma leading_fraction_length: "leading_fraction x k b s = (f, k', r) \<Longrightarrow> length r \<le> length s"
  by (induction s arbitrary: x k b) (auto split: if_splits simp: le_SucI)

lemma parse_part_shorter:
  assumes "parse_part s = Some (w, r)"
  shows "length r < length s"
proof -
  obtain v s1 where s1: "leading_int 0 s = Some (v, s1)"
    using assms by (auto simp: parse_part_def split: if_splits option.splits)
  obtain f k s2 where s2: "(if s1 \<noteq> [] \<and> hd s1 = CHR ''.'' then leading_fraction 0 (Fin 1) False (tl s1) else (0, Fin 1, s1)) = (f, k, s2)"
    by (metis prod_cases3)
  have "length s1 \<le> length s" using s1 by (rule leading_int_length)
  moreover have "length s2 \<le> length s1" using s2 leading_fraction_length [of 0 "Fin 1" False "tl s1" f k s2]
    by (cases s1) (auto split: if_splits)
  moreover have "takeWhile unit_char s2 \<noteq> []" "r = dropWhile unit_char s2"
    using assms s1 s2 by (auto simp: parse_part_def Let_def split: if_splits option.splits)
  then have "length r < length s2" using length_dropWhile_le [of unit_char "tl s2"] by (cases s2) (auto split: if_splits)
  ultimately show ?thesis by linarith
qed

text \<open>The parts of a duration; the sum is kept modulo \<open>2 ^ 64\<close>.\<close>

function parse_parts :: "int \<Rightarrow> string \<Rightarrow> int option" where
  "parse_parts d s =
     (if s = [] then Some d
      else case parse_part s of
        None \<Rightarrow> None
      | Some (v, r) \<Rightarrow> if 2 ^ 63 < (d + v) mod 2 ^ 64 then None else parse_parts ((d + v) mod 2 ^ 64) r)"
  by pat_completeness auto
termination
  by (relation "measure (\<lambda>(d, s). length s)") (auto dest: parse_part_shorter)

declare parse_parts.simps [simp del]

definition parse_duration :: "string \<Rightarrow> int option" where
  "parse_duration s = (case sign_split s of (neg, ds) \<Rightarrow>
     if ds = ''0'' then Some 0
     else if ds = [] then None
     else case parse_parts 0 ds of
       None \<Rightarrow> None
     | Some d \<Rightarrow> if neg then Some (wrap64 (- wrap64 d)) else if 2 ^ 63 - 1 < d then None else Some d)"

text \<open>The environment; \<open>None\<close> is the panic.\<close>

definition envDuration :: "(string \<Rightarrow> string) \<Rightarrow> string \<Rightarrow> int \<Rightarrow> int option" where
  "envDuration getenv key dflt = (if getenv key \<noteq> [] then parse_duration (getenv key) else Some dflt)"

text \<open>
  The defaults of the flags in \<open>main\<close>, in the order in which they are read; \<open>None\<close> is a panic of
  \<open>envInt\<close> or \<open>envDuration\<close>.
\<close>

record loadgen_config =
  url_flag :: string
  conns_flag :: int
  rate_flag :: int
  inflight_flag :: int
  interval_flag :: int
  payload_flag :: int
  timeout_flag :: int
  metrics_flag :: string

definition loadgen_flags :: "(string \<Rightarrow> string) \<Rightarrow> loadgen_config option" where
  "loadgen_flags getenv =
     Option.bind (envInt getenv ''LOADGEN_CONNS'' 10000) (\<lambda>conns.
     Option.bind (envInt getenv ''LOADGEN_RATE'' 1000) (\<lambda>rate.
     Option.bind (envInt getenv ''LOADGEN_INFLIGHT'' 200) (\<lambda>inflight.
     Option.bind (envDuration getenv ''LOADGEN_INTERVAL'' (30 * 10 ^ 9)) (\<lambda>interval.
     Option.bind (envInt getenv ''LOADGEN_PAYLOAD'' 32) (\<lambda>payload.
     Option.bind (envDuration getenv ''LOADGEN_DIAL_TIMEOUT'' (10 * 10 ^ 9)) (\<lambda>timeout.
     Some \<lparr>url_flag = envOr getenv ''LOADGEN_URL'' ''ws://localhost:8080/ws'', conns_flag = conns, rate_flag = rate,
       inflight_flag = inflight, interval_flag = interval, payload_flag = payload, timeout_flag = timeout,
       metrics_flag = envOr getenv ''LOADGEN_METRICS'' '':9100''\<rparr>))))))"

section \<open>Printing a duration\<close>

text \<open>
  The last digits of a number as a fraction without final zeros, written backwards in front of
  \<open>buf\<close>; the second component is the rest of the number.
\<close>

fun fmt_frac :: "nat \<Rightarrow> int \<Rightarrow> bool \<Rightarrow> string \<Rightarrow> string \<times> int" where
  "fmt_frac 0 v printing buf = (if printing then CHR ''.'' # buf else buf, v)"
| "fmt_frac (Suc prec) v printing buf =
     (let digit = v mod 10; printing = printing \<or> digit \<noteq> 0
      in fmt_frac prec (v div 10) printing (if printing then digit_char digit # buf else buf))"

definition show_duration :: "int \<Rightarrow> string" where
  "show_duration d =
     (let u = \<bar>d\<bar>;
          body =
            (if u = 0 then ''0s''
             else if u < 10 ^ 9 then
               let (prec, unit) = (if u < 10 ^ 3 then (0, ''ns'') else if u < 10 ^ 6 then (3, [CHR 0xC2, CHR 0xB5, CHR ''s''])
                     else (6, ''ms''));
                   (tail, n) = fmt_frac prec u False unit
               in show_dec n @ tail
             else
               let (tail, sec) = fmt_frac 9 u False ''s'';
                   secs = show_dec (sec mod 60) @ tail; mins = sec div 60; hours = mins div 60
               in if mins = 0 then secs
                  else if hours = 0 then show_dec (mins mod 60) @ ''m'' @ secs
                  else show_dec hours @ ''h'' @ show_dec (mins mod 60) @ ''m'' @ secs)
      in if d < 0 then CHR ''-'' # body else body)"

text \<open>An environment that sets every variable to the text of its value.\<close>

definition environment :: "loadgen_config \<Rightarrow> string \<Rightarrow> string" where
  "environment fl key =
     (if key = ''LOADGEN_URL'' then url_flag fl
      else if key = ''LOADGEN_CONNS'' then show_int (conns_flag fl)
      else if key = ''LOADGEN_RATE'' then show_int (rate_flag fl)
      else if key = ''LOADGEN_INFLIGHT'' then show_int (inflight_flag fl)
      else if key = ''LOADGEN_INTERVAL'' then show_duration (interval_flag fl)
      else if key = ''LOADGEN_PAYLOAD'' then show_int (payload_flag fl)
      else if key = ''LOADGEN_DIAL_TIMEOUT'' then show_duration (timeout_flag fl)
      else if key = ''LOADGEN_METRICS'' then metrics_flag fl
      else [])"

section \<open>Reading back what is printed\<close>

definition digits_from :: "int \<Rightarrow> string \<Rightarrow> int" where
  "digits_from x s = foldl (\<lambda>a c. 10 * a + digit_val c) x s"

lemma digits_from_simps [simp]: "digits_from x [] = x" "digits_from x (c # s) = digits_from (10 * x + digit_val c) s"
  by (simp_all add: digits_from_def)

lemma dec_val_from: "dec_val s = digits_from 0 s"
  by (simp add: dec_val_def digits_from_def)

lemma digit_val_nonneg: "is_digit c \<Longrightarrow> 0 \<le> digit_val c \<and> digit_val c \<le> 9"
  by (simp add: is_digit_def digit_val_def Let_def)

lemma digits_from_ge: "list_all is_digit s \<Longrightarrow> 0 \<le> x \<Longrightarrow> x \<le> digits_from x s"
proof (induction s arbitrary: x)
  case (Cons c s)
  then have "10 * x + digit_val c \<le> digits_from (10 * x + digit_val c) s" using digit_val_nonneg [of c] by simp
  then show ?case using Cons.prems digit_val_nonneg [of c] by simp
qed simp

text \<open>What comes next is not a digit.\<close>

definition stops :: "string \<Rightarrow> bool" where
  "stops r \<longleftrightarrow> (case r of [] \<Rightarrow> True | c # r \<Rightarrow> \<not> is_digit c)"

lemma leading_int_digits:
  "list_all is_digit ds \<Longrightarrow> 0 \<le> x \<Longrightarrow> digits_from x ds \<le> 2 ^ 63 \<Longrightarrow> stops r \<Longrightarrow>
     leading_int x (ds @ r) = Some (digits_from x ds, r)"
proof (induction ds arbitrary: x)
  case Nil
  then show ?case by (cases r) (simp_all add: stops_def)
next
  case (Cons c ds)
  have c: "0 \<le> digit_val c" "is_digit c" using Cons.prems digit_val_nonneg [of c] by simp_all
  have "10 * x + digit_val c \<le> digits_from (10 * x + digit_val c) ds"
    using Cons.prems c by (intro digits_from_ge) simp_all
  then have "10 * x + digit_val c \<le> 2 ^ 63" using Cons.prems(3) by simp
  moreover from this have "x \<le> 2 ^ 63 div 10" using c by linarith
  moreover have "leading_int (10 * x + digit_val c) (ds @ r) = Some (digits_from (10 * x + digit_val c) ds, r)"
    using Cons.prems c by (intro Cons.IH) simp_all
  ultimately show ?case using c by (simp add: mult.commute not_less [symmetric])
qed

lemma Fin_times_ten: "\<bar>10 * i\<bar> \<le> 2 ^ 53 \<Longrightarrow> Fin (of_int i) * Fin 10 = Fin (of_int (10 * i))"
  using mk_int [of "10 * i"] by (simp add: mult.commute)

lemma leading_fraction_digits:
  "list_all is_digit ds \<Longrightarrow> 0 \<le> x \<Longrightarrow> digits_from x ds \<le> 10 ^ 9 \<Longrightarrow> 0 < s \<Longrightarrow> s * 10 ^ length ds \<le> 10 ^ 9 \<Longrightarrow> stops r \<Longrightarrow>
     leading_fraction x (Fin (of_int s)) False (ds @ r) = (digits_from x ds, Fin (of_int (s * 10 ^ length ds)), r)"
proof (induction ds arbitrary: x s)
  case Nil
  then show ?case by (cases r) (simp_all add: stops_def)
next
  case (Cons c ds)
  have c: "0 \<le> digit_val c" "is_digit c" using Cons.prems digit_val_nonneg [of c] by simp_all
  have "10 * x + digit_val c \<le> digits_from (10 * x + digit_val c) ds"
    using Cons.prems c by (intro digits_from_ge) simp_all
  then have le: "10 * x + digit_val c \<le> 10 ^ 9" using Cons.prems(3) by simp
  then have x: "x \<le> (2 ^ 63 - 1) div 10" "x * 10 + digit_val c \<le> 2 ^ 63" using Cons.prems(2) c by simp_all
  have s: "10 * s * 10 ^ length ds \<le> 10 ^ 9" using Cons.prems(5) by (simp add: mult_ac)
  have "10 * s * 1 \<le> 10 * s * 10 ^ length ds" using Cons.prems(4) by (intro mult_left_mono) simp_all
  from order_trans [OF this s] have "\<bar>10 * s\<bar> \<le> 2 ^ 53" using Cons.prems(4) by simp
  then have t: "Fin (of_int s) * Fin 10 = Fin (of_int (10 * s))" by (rule Fin_times_ten)
  have "leading_fraction (10 * x + digit_val c) (Fin (of_int (10 * s))) False (ds @ r) =
      (digits_from (10 * x + digit_val c) ds, Fin (of_int (10 * s * 10 ^ length ds)), r)"
    using Cons.prems s c by (intro Cons.IH) simp_all
  then show ?case using c x t by (simp add: mult_ac del: of_int_mult times_flt.simps)
qed

text \<open>The printed fraction: no text for a whole number, otherwise the digits that make up the rest.\<close>

lemma fmt_frac_printing:
  "0 \<le> v \<Longrightarrow> \<exists>ds. length ds = n \<and> list_all is_digit ds \<and> dec_val ds = v mod 10 ^ n \<and>
     fmt_frac n v True buf = (CHR ''.'' # ds @ buf, v div 10 ^ n)"
proof (induction n arbitrary: v buf)
  case (Suc n)
  let ?c = "digit_char (v mod 10)"
  have "0 \<le> v div 10" using Suc.prems by simp
  from Suc.IH [OF this, of "?c # buf"] obtain ds where ds: "length ds = n" "list_all is_digit ds"
    "dec_val ds = v div 10 mod 10 ^ n" "fmt_frac n (v div 10) True (?c # buf) = (CHR ''.'' # ds @ ?c # buf, v div 10 div 10 ^ n)"
    by blast
  have "dec_val (ds @ [?c]) = v mod 10 ^ Suc n" using ds(3) by (simp add: zmod_zmult2_eq)
  then show ?case using ds by (intro exI [of _ "ds @ [?c]"]) (simp add: Let_def zdiv_zmult2_eq)
qed simp

definition frac_tail :: "nat \<Rightarrow> int \<Rightarrow> string \<Rightarrow> string \<Rightarrow> bool" where
  "frac_tail n m buf tail \<longleftrightarrow> m = 0 \<and> tail = buf \<or>
     (\<exists>ds. ds \<noteq> [] \<and> length ds \<le> n \<and> list_all is_digit ds \<and> 0 < dec_val ds \<and>
        dec_val ds * 10 ^ (n - length ds) = m \<and> tail = CHR ''.'' # ds @ buf)"

lemma frac_tail_Suc:
  assumes "frac_tail n m buf tail"
  shows "frac_tail (Suc n) (10 * m) buf tail"
  using assms unfolding frac_tail_def
proof (elim disjE exE conjE)
  fix ds
  assume a: "ds \<noteq> []" "length ds \<le> n" "list_all is_digit ds" "0 < dec_val ds" "tail = CHR ''.'' # ds @ buf"
    and b: "dec_val ds * 10 ^ (n - length ds) = m"
  have "dec_val ds * 10 ^ (Suc n - length ds) = 10 * m" using a(2) b by (simp add: Suc_diff_le mult.left_commute)
  with a show "10 * m = 0 \<and> tail = buf \<or> (\<exists>ds. ds \<noteq> [] \<and> length ds \<le> Suc n \<and> list_all is_digit ds \<and> 0 < dec_val ds \<and>
      dec_val ds * 10 ^ (Suc n - length ds) = 10 * m \<and> tail = CHR ''.'' # ds @ buf)"
    by (intro disjI2 exI [of _ ds]) simp
qed simp

lemma fmt_frac_shape: "0 \<le> v \<Longrightarrow> \<exists>tail. fmt_frac n v False buf = (tail, v div 10 ^ n) \<and> frac_tail n (v mod 10 ^ n) buf tail"
proof (induction n arbitrary: v)
  case 0
  then show ?case by (simp add: frac_tail_def)
next
  case (Suc n)
  let ?c = "digit_char (v mod 10)"
  have m: "v mod 10 ^ Suc n = 10 * (v div 10 mod 10 ^ n) + v mod 10" by (simp add: zmod_zmult2_eq)
  have d: "v div 10 div 10 ^ n = v div 10 ^ Suc n" by (simp add: zdiv_zmult2_eq)
  have v0: "0 \<le> v div 10" using Suc.prems by simp
  show ?case
  proof (cases "v mod 10 = 0")
    case True
    obtain tail where t: "fmt_frac n (v div 10) False buf = (tail, v div 10 div 10 ^ n)"
      "frac_tail n (v div 10 mod 10 ^ n) buf tail" using Suc.IH [OF v0] by blast
    have "frac_tail (Suc n) (v mod 10 ^ Suc n) buf tail" using frac_tail_Suc [OF t(2)] unfolding m True by simp
    moreover have "fmt_frac (Suc n) v False buf = (tail, v div 10 ^ Suc n)" unfolding d [symmetric] using True t(1) by (simp add: Let_def)
    ultimately show ?thesis by blast
  next
    case False
    from fmt_frac_printing [OF v0, of n "?c # buf"] obtain ds where ds: "length ds = n" "list_all is_digit ds"
      "dec_val ds = v div 10 mod 10 ^ n" "fmt_frac n (v div 10) True (?c # buf) = (CHR ''.'' # ds @ ?c # buf, v div 10 div 10 ^ n)"
      by blast
    have v: "dec_val (ds @ [?c]) = v mod 10 ^ Suc n" using ds(3) m by simp
    have "0 < v mod 10" using False pos_mod_sign [of 10 v] by linarith
    moreover have "0 \<le> v div 10 mod 10 ^ n" by simp
    ultimately have "0 < dec_val (ds @ [?c])" unfolding v m by linarith
    then have "frac_tail (Suc n) (v mod 10 ^ Suc n) buf (CHR ''.'' # (ds @ [?c]) @ buf)"
      using ds(1,2) v unfolding frac_tail_def by (intro disjI2 exI [of _ "ds @ [?c]"]) simp
    moreover have "fmt_frac (Suc n) v False buf = (CHR ''.'' # (ds @ [?c]) @ buf, v div 10 ^ Suc n)"
      unfolding d [symmetric] using False ds(4) by (simp add: Let_def)
    ultimately show ?thesis by blast
  qed
qed

text \<open>A part: a number, perhaps with a fraction, and its unit.\<close>

lemma digits_stop:
  assumes "list_all is_digit ds" "stops r" "digits_from 0 ds \<le> 2 ^ 63"
  shows "leading_int 0 (ds @ r) = Some (dec_val ds, r)"
  using leading_int_digits [OF assms(1) _ assms(3,2)] by (simp add: dec_val_from)

definition unit_text :: "string \<Rightarrow> int \<Rightarrow> bool" where
  "unit_text u unit \<longleftrightarrow> map_of unit_map u = Some unit \<and> u \<noteq> [] \<and> list_all unit_char u"

definition part_start :: "string \<Rightarrow> bool" where
  "part_start r \<longleftrightarrow> r = [] \<or> is_digit (hd r)"

lemma unit_split:
  assumes "unit_text u unit" "part_start r"
  shows "takeWhile unit_char (u @ r) = u" "dropWhile unit_char (u @ r) = r" "stops (u @ r)" "hd (u @ r) \<noteq> CHR ''.''"
proof -
  have all: "list_all unit_char u" "u \<noteq> []" using assms(1) by (simp_all add: unit_text_def)
  have r: "r = [] \<or> \<not> unit_char (hd r)" using assms(2) by (auto simp: part_start_def unit_char_def)
  have "takeWhile unit_char r = []" "dropWhile unit_char r = r" using r by (cases r; simp)+
  then show "takeWhile unit_char (u @ r) = u" "dropWhile unit_char (u @ r) = r"
    using all(1) by (simp_all add: list_all_iff)
  show "stops (u @ r)" "hd (u @ r) \<noteq> CHR ''.''" using all by (cases u; simp add: stops_def unit_char_def)+
qed

lemma parse_whole:
  assumes "unit_text u unit" "part_start r" "0 \<le> n" "0 < unit" "n * unit \<le> 2 ^ 63"
  shows "parse_part (show_dec n @ u @ r) = Some (n * unit, r)"
proof -
  note s = unit_split [OF assms(1,2)]
  have "n * 1 \<le> n * unit" using assms(3,4) by (intro mult_left_mono) simp_all
  then have n: "n \<le> 2 ^ 63" using assms(5) by simp
  have "leading_int 0 (show_dec n @ u @ r) = Some (n, u @ r)"
    using digits_stop [of "show_dec n" "u @ r"] assms(3) s(3) n by (simp add: dec_val_from [symmetric])
  moreover have "hd (show_dec n @ u @ r) = hd (show_dec n)" by simp
  moreover have "n \<le> 2 ^ 63 div unit" using zdiv_mono1 [OF assms(5,4)] assms(4) by simp
  moreover have "0 < length (show_dec n)" by simp
  ultimately show ?thesis
    using assms(1) s show_dec_hd [OF assms(3)] assms(5) by (simp add: parse_part_def unit_text_def del: length_greater_0_conv)
qed

lemma exact_fraction:
  assumes "l \<le> k" "k \<le> 9" "0 < f" "f * 10 ^ (k - l) \<le> 10 ^ 9"
  shows "trunc_u64 (mk (of_int f) * fdiv (mk (of_int (10 ^ k))) (Fin (of_int (10 ^ l)))) = f * 10 ^ (k - l)"
proof -
  have p: "(10::int) ^ k \<le> 10 ^ 9" "(10::int) ^ (k - l) \<le> 10 ^ 9" "(1::int) \<le> 10 ^ (k - l)"
    using assms(1,2) by (intro power_increasing one_le_power; simp)+
  have "f * 1 \<le> f * 10 ^ (k - l)" using assms(3) p(3) by (intro mult_left_mono) simp_all
  from order_trans [OF this assms(4)] have f: "mk (of_int f) = Fin (of_int f)" using assms(3) by (intro mk_int) simp
  have k: "mk (of_int (10 ^ k)) = Fin (of_int (10 ^ k))" using p(1) by (intro mk_int) simp
  have "(10 :: rat) ^ k = 10 ^ (k - l) * 10 ^ l" using assms(1) by (simp only: power_add [symmetric] le_add_diff_inverse2)
  then have "(of_int (10 ^ k) :: rat) / of_int (10 ^ l) = of_int (10 ^ (k - l))" by simp
  then have "fdiv (Fin (of_int (10 ^ k))) (Fin (of_int (10 ^ l))) = mk (of_int (10 ^ (k - l)))" by simp
  also have "\<dots> = Fin (of_int (10 ^ (k - l)))" using p(2) by (intro mk_int) simp
  finally have d: "fdiv (Fin (of_int (10 ^ k))) (Fin (of_int (10 ^ l))) = Fin (of_int (10 ^ (k - l)))" .
  have "mk (of_int (f * 10 ^ (k - l))) = Fin (of_int (f * 10 ^ (k - l)))" using assms(3,4) by (intro mk_int) simp
  then have "trunc_u64 (mk (of_int (f * 10 ^ (k - l)))) = f * 10 ^ (k - l)" by (simp only: trunc_u64.simps floor_of_int)
  then show ?thesis unfolding f k d times_flt.simps of_int_mult [symmetric] .
qed

lemma parse_fraction:
  assumes u: "unit_text u (10 ^ k)" "part_start r" and k: "k \<le> 9" and i: "0 \<le> i"
    and tail: "frac_tail k m (u @ r) tail" and m: "m < 10 ^ k" "i * 10 ^ k + m \<le> 2 ^ 63"
  shows "parse_part (show_dec i @ tail) = Some (i * 10 ^ k + m, r)"
  using tail unfolding frac_tail_def
proof (elim disjE exE conjE)
  assume "m = 0" "tail = u @ r"
  then show ?thesis using parse_whole [OF u i] m(2) by simp
next
  fix ds
  assume ds: "ds \<noteq> []" "length ds \<le> k" "list_all is_digit ds" "0 < dec_val ds" "tail = CHR ''.'' # ds @ u @ r"
    and v: "dec_val ds * 10 ^ (k - length ds) = m"
  note s = unit_split [OF u]
  have ten: "(10::int) ^ k \<le> 10 ^ 9" "(10::int) ^ length ds \<le> 10 ^ 9" "(1::int) \<le> 10 ^ (k - length ds)" "(1 :: int) \<le> 10 ^ k"
    using k ds(2) by (intro power_increasing one_le_power; simp)+
  have m9: "dec_val ds * 10 ^ (k - length ds) \<le> 10 ^ 9" using v m(1) ten(1) by simp
  have "dec_val ds * 1 \<le> dec_val ds * 10 ^ (k - length ds)" using ds(4) ten(3) by (intro mult_left_mono) simp_all
  then have "digits_from 0 ds \<le> 10 ^ 9" using m9 by (simp add: dec_val_from)
  from leading_fraction_digits [OF ds(3) _ this, of 1 "u @ r"] ten(2) s(3)
  have frac: "leading_fraction 0 (Fin 1) False (ds @ u @ r) = (dec_val ds, Fin (of_int (10 ^ length ds)), u @ r)"
    by (simp add: dec_val_from)
  have "i * 1 \<le> i * 10 ^ k" using i ten(4) by (intro mult_left_mono) simp_all
  moreover have "0 < m" unfolding v [symmetric] using ds(4) by simp
  ultimately have le: "i \<le> 2 ^ 63" "i * 10 ^ k \<le> 2 ^ 63" using m(2) by linarith+
  have int: "leading_int 0 (show_dec i @ tail) = Some (i, tail)"
    using digits_stop [of "show_dec i" tail] i le(1) ds(5) by (simp add: dec_val_from [symmetric] stops_def is_digit_def)
  have "i \<le> 2 ^ 63 div 10 ^ k" using zdiv_mono1 [OF le(2), of "10 ^ k"] by simp
  moreover have "trunc_u64 (mk (of_int (dec_val ds)) * fdiv (mk (of_int (10 ^ k))) (Fin (of_int (10 ^ length ds)))) = m"
    using exact_fraction [OF ds(2) k ds(4) m9] v by simp
  moreover have "0 < length (show_dec i)" "length ds \<noteq> 0" using ds(1) by simp_all
  ultimately show ?thesis
    using int frac ds u s show_dec_hd [OF i] m(2)
    by (simp add: parse_part_def unit_text_def Let_def del: length_greater_0_conv of_int_power times_flt.simps fdiv.simps)
qed

section \<open>Properties\<close>

lemma parse_parts_step:
  assumes "parse_part s = Some (v, r)" "0 \<le> d" "0 \<le> v" "d + v \<le> 2 ^ 63"
  shows "parse_parts d s = parse_parts (d + v) r"
proof -
  have "s \<noteq> []" using assms(1) by (auto simp: parse_part_def)
  moreover have "(d + v) mod 2 ^ 64 = d + v" using assms(2-4) by simp
  ultimately show ?thesis using assms(1,4) by (simp add: parse_parts.simps [of d s])
qed

lemma parse_parts_done [simp]: "parse_parts d [] = Some d"
  by (simp add: parse_parts.simps)

lemma part_start_dec: "0 \<le> n \<Longrightarrow> part_start (show_dec n @ r)"
  by (simp add: part_start_def show_dec_hd)

lemma units:
  "unit_text ''h'' (3600 * 10 ^ 9)" "unit_text ''m'' (60 * 10 ^ 9)" "unit_text ''s'' (10 ^ 9)" "unit_text ''ms'' (10 ^ 6)"
  "unit_text [CHR 0xC2, CHR 0xB5, CHR ''s''] (10 ^ 3)" "unit_text ''ns'' (10 ^ 0)"
  by (simp_all add: unit_text_def unit_map_def unit_char_def is_digit_def)

text \<open>The text without its sign: it starts with a digit and its parts add up to the number.\<close>

definition body_of :: "int \<Rightarrow> string \<Rightarrow> bool" where
  "body_of u body \<longleftrightarrow> body \<noteq> [] \<and> is_digit (hd body) \<and> body \<noteq> ''0'' \<and> parse_parts 0 body = Some u"

lemma small_body:
  assumes "0 \<le> u" "u < 10 ^ 9" "unit_text unit (10 ^ prec)" "prec \<le> 9" "fmt_frac prec u False unit = (tail, n)"
  shows "body_of u (show_dec n @ tail)"
proof -
  from fmt_frac_shape [OF assms(1), of prec unit] assms(5)
  have n: "n = u div 10 ^ prec" and f: "frac_tail prec (u mod 10 ^ prec) (unit @ []) tail" by auto
  have p: "(0::int) < 10 ^ prec" by simp
  have "n * 10 ^ prec + u mod 10 ^ prec = u" unfolding n by (rule div_mult_mod_eq)
  then have "parse_part (show_dec n @ tail) = Some (u, [])"
    using parse_fraction [OF assms(3) _ assms(4) _ f, of n] assms(1,2) p by (simp add: part_start_def n pos_imp_zdiv_nonneg_iff)
  moreover have "0 \<le> n" using assms(1) p by (simp add: n pos_imp_zdiv_nonneg_iff)
  moreover have "tail \<noteq> []" using f assms(3) by (auto simp: frac_tail_def unit_text_def)
  then have "show_dec n @ tail \<noteq> ''0''" by (cases "show_dec n") (auto simp: Cons_eq_append_conv)
  ultimately show ?thesis using parse_parts_step [of "show_dec n @ tail" u "[]" 0] assms(1,2)
    by (simp add: body_of_def show_dec_hd)
qed

lemma parse_seconds:
  assumes "0 \<le> u" "fmt_frac 9 u False ''s'' = (tail, sec)" "0 \<le> i" "0 \<le> d" "d + (i * 10 ^ 9 + u mod 10 ^ 9) \<le> 2 ^ 63"
  shows "parse_parts d (show_dec i @ tail) = Some (d + (i * 10 ^ 9 + u mod 10 ^ 9))"
proof -
  from fmt_frac_shape [OF assms(1), of 9 "''s''"] assms(2)
  have f: "frac_tail 9 (u mod 10 ^ 9) (''s'' @ []) tail" by simp
  have "0 \<le> u mod 10 ^ 9" "u mod 10 ^ 9 < 10 ^ 9" by simp_all
  with parse_fraction [OF units(3) _ _ assms(3) f] assms(3-5)
  have "parse_part (show_dec i @ tail) = Some (i * 10 ^ 9 + u mod 10 ^ 9, [])" by (simp add: part_start_def)
  from parse_parts_step [OF this assms(4) _ assms(5)] assms(3) show ?thesis by simp
qed

lemma parse_unit:
  assumes "unit_text un unit" "0 < unit" "part_start s" "0 \<le> n" "0 \<le> d" "d + n * unit \<le> 2 ^ 63"
  shows "parse_parts d (show_dec n @ un @ s) = parse_parts (d + n * unit) s"
proof -
  have v: "0 \<le> n * unit" using assms(2,4) by simp
  then have "n * unit \<le> 2 ^ 63" using assms(5,6) by linarith
  from parse_parts_step [OF parse_whole [OF assms(1,3,4,2) this] assms(5) v assms(6)] show ?thesis .
qed

lemma nanos_parts:
  fixes h m s f :: int
  shows "h * 60 + m = mm \<Longrightarrow> mm * 60 + s = ss \<Longrightarrow> ss * 10 ^ 9 + f = u \<Longrightarrow>
      h * (3600 * 10 ^ 9) + m * (60 * 10 ^ 9) + (s * 10 ^ 9 + f) = u"
    "h * (3600 * 10 ^ 9) + m * (60 * 10 ^ 9) + (s * 10 ^ 9 + f) = u \<Longrightarrow> u \<le> 2 ^ 63 \<Longrightarrow>
      0 \<le> m \<Longrightarrow> 0 \<le> s \<Longrightarrow> 0 \<le> f \<Longrightarrow> h * (3600 * 10 ^ 9) \<le> 2 ^ 63"
    "h * (3600 * 10 ^ 9) + m * (60 * 10 ^ 9) + (s * 10 ^ 9 + f) = u \<Longrightarrow> u \<le> 2 ^ 63 \<Longrightarrow>
      0 \<le> s \<Longrightarrow> 0 \<le> f \<Longrightarrow> h * (3600 * 10 ^ 9) + m * (60 * 10 ^ 9) \<le> 2 ^ 63"
  by simp_all

lemma nanos_sum:
  fixes u :: int
  defines "sec \<equiv> u div 10 ^ 9"
  shows "sec div 60 div 60 * (3600 * 10 ^ 9) + sec div 60 mod 60 * (60 * 10 ^ 9) + (sec mod 60 * 10 ^ 9 + u mod 10 ^ 9) = u"
proof -
  have "sec div 60 div 60 * 60 + sec div 60 mod 60 = sec div 60" "sec div 60 * 60 + sec mod 60 = sec" "sec * 10 ^ 9 + u mod 10 ^ 9 = u"
    unfolding sec_def by (rule div_mult_mod_eq)+
  then show ?thesis by (rule nanos_parts(1))
qed

lemma long_body:
  assumes "10 ^ 9 \<le> u" "u \<le> 2 ^ 63" "fmt_frac 9 u False ''s'' = (tail, sec)"
  defines "secs \<equiv> show_dec (sec mod 60) @ tail"
  shows "sec div 60 = 0 \<Longrightarrow> body_of u secs"
    "sec div 60 div 60 = 0 \<Longrightarrow> body_of u (show_dec (sec div 60 mod 60) @ ''m'' @ secs)"
    "body_of u (show_dec (sec div 60 div 60) @ ''h'' @ show_dec (sec div 60 mod 60) @ ''m'' @ secs)"
proof -
  have u: "0 \<le> u" using assms(1) by simp
  from fmt_frac_shape [OF u, of 9 "''s''"] assms(3) have sec: "sec = u div 10 ^ 9" by auto
  note sum = nanos_sum [of u, folded sec]
  let ?h = "sec div 60 div 60" and ?m = "sec div 60 mod 60" and ?s = "sec mod 60"
  have pos: "0 \<le> sec" unfolding sec using u by (simp add: pos_imp_zdiv_nonneg_iff)
  then have nn: "0 \<le> ?h" "0 \<le> ?m" "0 \<le> ?s" "0 \<le> u mod 10 ^ 9" by (simp_all add: pos_imp_zdiv_nonneg_iff)
  have le: "?h * (3600 * 10 ^ 9) \<le> 2 ^ 63" "?h * (3600 * 10 ^ 9) + ?m * (60 * 10 ^ 9) \<le> 2 ^ 63"
    using nanos_parts(2) [OF sum assms(2) nn(2-4)] nanos_parts(3) [OF sum assms(2) nn(3,4)] by simp_all
  have secs: "parse_parts d secs = Some (d + (?s * 10 ^ 9 + u mod 10 ^ 9))"
    if "0 \<le> d" "d + (?s * 10 ^ 9 + u mod 10 ^ 9) \<le> 2 ^ 63" for d
    unfolding secs_def using parse_seconds [OF u assms(3) nn(3) that] .
  have start: "part_start secs" "part_start (show_dec ?m @ ''m'' @ secs)" unfolding secs_def using nn by (simp_all add: part_start_dec)
  have mins: "parse_parts d (show_dec ?m @ ''m'' @ secs) = parse_parts (d + ?m * (60 * 10 ^ 9)) secs"
    if "0 \<le> d" "d + ?m * (60 * 10 ^ 9) \<le> 2 ^ 63" for d
    using parse_unit [OF units(2) _ start(1) nn(2) that] by simp
  have hours: "parse_parts 0 (show_dec ?h @ ''h'' @ show_dec ?m @ ''m'' @ secs) = parse_parts (?h * (3600 * 10 ^ 9)) (show_dec ?m @ ''m'' @ secs)"
    using parse_unit [OF units(1) _ start(2) nn(1), of 0] le(1) by simp
  have body: "body_of u (show_dec n @ t)" if "parse_parts 0 (show_dec n @ t) = Some u" "0 \<le> n" "t \<noteq> []" for n t
    using that show_dec_hd [of n] by (cases "show_dec n") (auto simp: body_of_def Cons_eq_append_conv)
  have tail: "tail \<noteq> []" using fmt_frac_shape [OF u, of 9 "''s''"] assms(3) by (auto simp: frac_tail_def)
  show "body_of u secs" if z: "sec div 60 = 0"
  proof -
    have e: "0 + (?s * 10 ^ 9 + u mod 10 ^ 9) = u" using sum unfolding z by simp
    from secs [of 0, unfolded e] assms(2) show ?thesis unfolding secs_def by (intro body nn tail) simp_all
  qed
  show "body_of u (show_dec ?m @ ''m'' @ secs)" if z: "?h = 0"
  proof -
    let ?d = "0 + ?m * (60 * 10 ^ 9)"
    have e: "?d + (?s * 10 ^ 9 + u mod 10 ^ 9) = u" using sum unfolding z by simp
    have d: "0 \<le> ?d" "?d \<le> 2 ^ 63" using nn(2) le(2) unfolding z by simp_all
    have "parse_parts 0 (show_dec ?m @ ''m'' @ secs) = Some u"
      using mins [OF order_refl d(2)] secs [OF d(1), unfolded e, OF assms(2)] by simp
    then show ?thesis by (intro body nn) simp_all
  qed
  let ?d = "?h * (3600 * 10 ^ 9)"
  have d: "0 \<le> ?d" "0 \<le> ?d + ?m * (60 * 10 ^ 9)" using nn by simp_all
  have "parse_parts 0 (show_dec ?h @ ''h'' @ show_dec ?m @ ''m'' @ secs) = Some u"
    unfolding hours mins [OF d(1) le(2)] by (rule secs [OF d(2), unfolded sum, OF assms(2)])
  then show "body_of u (show_dec ?h @ ''h'' @ show_dec ?m @ ''m'' @ secs)" by (intro body nn) simp_all
qed

lemma negate_back:
  assumes "d < 0" "- (2 ^ 63) \<le> d"
  shows "wrap64 (- wrap64 (- d)) = d"
proof (cases "d = - (2 ^ 63)")
  case True
  have "wrap64 (- wrap64 (2 ^ 63)) = - (2 ^ 63)" by code_simp
  then show ?thesis by (simp add: True)
next
  case False
  then have "wrap64 (- d) = - d" "wrap64 d = d" using assms by (auto intro!: wrap64_id)
  then show ?thesis by simp
qed

text \<open>A printed duration is read back exactly, down to the smallest negative one.\<close>

lemma parse_show_duration:
  assumes "- (2 ^ 63) \<le> d" "d < 2 ^ 63"
  shows "parse_duration (show_duration d) = Some d" "show_duration d \<noteq> []"
proof -
  define body where "body = show_duration \<bar>d\<bar>"
  have u: "0 \<le> \<bar>d\<bar>" "\<bar>d\<bar> \<le> 2 ^ 63" using assms(1,2) by simp_all
  have zero: "body_of 0 ''0s''" by code_simp
  have "body_of \<bar>d\<bar> body"
    unfolding body_def show_duration_def Let_def
    using zero small_body [OF u(1) _ units(6)] small_body [OF u(1) _ units(5)] small_body [OF u(1) _ units(4)]
      long_body [OF _ u(2)] u
    by (auto split: prod.split if_splits)
  then have b: "body \<noteq> []" "is_digit (hd body)" "body \<noteq> ''0''" "parse_parts 0 body = Some \<bar>d\<bar>" by (simp_all add: body_of_def)
  have s: "show_duration d = (if d < 0 then CHR ''-'' # body else body)"
    unfolding body_def show_duration_def Let_def by simp
  show "parse_duration (show_duration d) = Some d"
  proof (cases "d < 0")
    case True
    then show ?thesis using b negate_back [of d] assms(1) by (simp add: s parse_duration_def)
  next
    case False
    then show ?thesis using b assms(2) sign_split_digit [OF b(2,1)] by (simp add: s parse_duration_def)
  qed
  show "show_duration d \<noteq> []" using b(1) s by simp
qed

text \<open>
  C38: The load generator's configuration survives the environment: for every configuration with 64-bit
  numbers and durations and non-empty addresses, the variables set to its printed values give it back,
  with no rounding of a duration's fraction, and nothing panics.
\<close>

theorem flags_roundtrip:
  assumes "list_all in_int64 [conns_flag fl, rate_flag fl, inflight_flag fl, payload_flag fl, interval_flag fl, timeout_flag fl]"
    and "url_flag fl \<noteq> []" "metrics_flag fl \<noteq> []"
  shows "loadgen_flags (environment fl) = Some fl"
proof -
  have ints: "envInt (environment fl) key dflt = Some i" if "environment fl key = show_int i" "in_int64 i" for key dflt i
    using that by (simp add: envInt_def go_atoi_show_int)
  have durations: "envDuration (environment fl) key dflt = Some d" if "environment fl key = show_duration d" "in_int64 d" for key dflt d
    using that parse_show_duration [of d] by (simp add: envDuration_def in_int64_def int64_min_def int64_max_def)
  have strings: "envOr (environment fl) key dflt = v" if "environment fl key = v" "v \<noteq> []" for key dflt v
    using that by (simp add: envOr_def)
  show ?thesis unfolding loadgen_flags_def
    using assms by (simp add: ints [of _ "conns_flag fl"] ints [of _ "rate_flag fl"] ints [of _ "inflight_flag fl"]
      ints [of _ "payload_flag fl"] durations [of _ "interval_flag fl"] durations [of _ "timeout_flag fl"]
      strings [of _ "url_flag fl"] strings [of _ "metrics_flag fl"] environment_def)
qed

definition sample_flags :: loadgen_config where
  "sample_flags = \<lparr>url_flag = ''ws://h/ws'', conns_flag = 250000, rate_flag = 1000, inflight_flag = 200,
     interval_flag = 1500000001, payload_flag = 32, timeout_flag = 10 * 10 ^ 9, metrics_flag = '':9100''\<rparr>"

theorem flags_roundtrip_witness: "loadgen_flags (environment sample_flags) = Some sample_flags"
  by (rule flags_roundtrip) (simp_all add: sample_flags_def in_int64_def int64_min_def int64_max_def)

end
