(* ===== verification/Server.thy ===== *)
theory Server
  imports MemoryGuard
begin

text \<open>
  The server's request handling, \<open>main.go\<close>: the \<open>/ws\<close> handler of \<open>newMux\<close>, the callbacks of
  \<open>newUpgrader\<close> and the guard's ticks of \<open>memory.go\<close>, as events over the state they share. The
  events arrive in any order; each one is one call into this program's code.

  The HTTP and WebSocket engine \<open>nbio\<close> is not part of the source. It decides which event comes next,
  within \<open>enabled\<close>: a request runs its handler once, an upgrade either fails or opens one new
  connection and calls \<open>OnOpen\<close> before any other callback of it, and a connection receives messages
  until its one \<open>OnClose\<close>.
\<close>

section \<open>Events and state\<close>

datatype ('r, 'c) event =
    Guard_reading "string option"
  | Request 'r
  | Reject 'r
  | Upgrade_fails 'r
  | Upgrade_opens 'r 'c
  | Message 'c int string
  | Close 'c

text \<open>
  \<open>in_ws\<close> holds the requests inside the \<open>/ws\<close> handler with the value of \<open>overloaded\<close> they loaded;
  \<open>replies\<close> and \<open>written\<close> are what the handlers sent. \<open>requests\<close>, \<open>live\<close> and \<open>known\<close> are only for
  the statements: all requests so far, the connections open, and the connections ever opened.
\<close>

record ('r, 'c) server =
  guard_marks :: "(int \<times> int) option"
  is_overloaded :: bool
  in_ws :: "'r \<Rightarrow> bool option"
  rejectedConnections :: nat
  upgradeErrors :: nat
  totalConnections :: nat
  totalDisconnections :: nat
  activeConnections :: int
  replies :: "('r \<times> int) list"
  written :: "('c \<times> int \<times> string) list"
  requests :: nat
  live :: "'c set"
  known :: "'c set"

text \<open>The start of \<open>guardMemory\<close> reads the limit; without one it returns and there are no marks.\<close>

definition server_start :: "string option \<Rightarrow> ('r, 'c) server" where
  "server_start max_file = \<lparr>
     guard_marks = (case readCgroupInt max_file of (m, ok) \<Rightarrow> if ok then Some (high_mark m, low_mark m) else None),
     is_overloaded = False, in_ws = Map.empty, rejectedConnections = 0, upgradeErrors = 0, totalConnections = 0,
     totalDisconnections = 0, activeConnections = 0, replies = [], written = [], requests = 0, live = {}, known = {}\<rparr>"

section \<open>The handlers\<close>

text \<open>The callbacks of \<open>newUpgrader\<close>.\<close>

definition onOpen :: "'c \<Rightarrow> ('r, 'c) server \<Rightarrow> ('r, 'c) server" where
  "onOpen c s = s\<lparr>activeConnections := activeConnections s + 1, totalConnections := totalConnections s + 1,
     live := insert c (live s), known := insert c (known s)\<rparr>"

definition onMessage :: "'c \<Rightarrow> int \<Rightarrow> string \<Rightarrow> ('r, 'c) server \<Rightarrow> ('r, 'c) server" where
  "onMessage c message_type data s = s\<lparr>written := written s @ [(c, message_type, data)]\<rparr>"

definition onClose :: "'c \<Rightarrow> ('r, 'c) server \<Rightarrow> ('r, 'c) server" where
  "onClose c s = s\<lparr>activeConnections := activeConnections s - 1, totalDisconnections := totalDisconnections s + 1,
     live := live s - {c}\<rparr>"

lemmas callbacks [simp] = onOpen_def onMessage_def onClose_def

text \<open>The \<open>/ws\<close> handler and the guard's ticks.\<close>

fun handle :: "('r, 'c) event \<Rightarrow> ('r, 'c) server \<Rightarrow> ('r, 'c) server" where
  "handle (Guard_reading f) s = (case guard_marks s of
     None \<Rightarrow> s
   | Some (high, low) \<Rightarrow> s\<lparr>is_overloaded := guard_tick high low f (is_overloaded s)\<rparr>)"
| "handle (Request r) s = s\<lparr>in_ws := (in_ws s)(r \<mapsto> is_overloaded s), requests := requests s + 1\<rparr>"
| "handle (Reject r) s =
     s\<lparr>rejectedConnections := rejectedConnections s + 1, replies := replies s @ [(r, 503)], in_ws := (in_ws s)(r := None)\<rparr>"
| "handle (Upgrade_fails r) s = s\<lparr>upgradeErrors := upgradeErrors s + 1, in_ws := (in_ws s)(r := None)\<rparr>"
| "handle (Upgrade_opens r c) s =
     (onOpen c s)\<lparr>in_ws := (in_ws s)(r := None)\<rparr>"
| "handle (Message c message_type data) s = onMessage c message_type data s"
| "handle (Close c) s = onClose c s"

text \<open>Which event can come next: the handler's own branch for a request, and the engine's order.\<close>

fun enabled :: "('r, 'c) server \<Rightarrow> ('r, 'c) event \<Rightarrow> bool" where
  "enabled s (Guard_reading f) = True"
| "enabled s (Request r) = (in_ws s r = None)"
| "enabled s (Reject r) = (in_ws s r = Some True)"
| "enabled s (Upgrade_fails r) = (in_ws s r = Some False)"
| "enabled s (Upgrade_opens r c) = (in_ws s r = Some False \<and> c \<notin> known s)"
| "enabled s (Message c message_type data) = (c \<in> live s)"
| "enabled s (Close c) = (c \<in> live s)"

text \<open>A run of the server; \<open>None\<close> when the sequence of events cannot happen.\<close>

fun serve :: "('r, 'c) event list \<Rightarrow> ('r, 'c) server \<Rightarrow> ('r, 'c) server option" where
  "serve [] s = Some s"
| "serve (e # es) s = (if enabled s e then serve es (handle e s) else None)"

lemma serve_append: "serve (es @ fs) s = (case serve es s of None \<Rightarrow> None | Some t \<Rightarrow> serve fs t)"
  by (induction es arbitrary: s) auto

text \<open>Induction over the events of a run that happened.\<close>

lemma serve_induct [consumes 1, case_names nil event]:
  assumes "serve es s = Some t"
    and "\<And>s. P [] s s"
    and "\<And>e es s t. enabled s e \<Longrightarrow> serve es (handle e s) = Some t \<Longrightarrow> P es (handle e s) t \<Longrightarrow> P (e # es) s t"
  shows "P es s t"
  using assms(1) by (induction es arbitrary: s) (auto intro: assms(2,3) split: if_splits)

section \<open>The invariant of the counters\<close>

definition accounts :: "('r, 'c) server \<Rightarrow> bool" where
  "accounts s \<longleftrightarrow>
     finite (dom (in_ws s)) \<and> finite (live s) \<and> live s \<subseteq> known s \<and>
     requests s = rejectedConnections s + upgradeErrors s + totalConnections s + card (dom (in_ws s)) \<and>
     activeConnections s = int (card (live s)) \<and>
     activeConnections s = int (totalConnections s) - int (totalDisconnections s) \<and>
     length (replies s) = rejectedConnections s \<and>
     (\<forall>x \<in> set (replies s). snd x = 503)"

lemma accounts_start: "accounts (server_start f)"
  by (simp add: accounts_def server_start_def)

lemma card_dom_remove: "finite (dom m) \<Longrightarrow> m r = Some b \<Longrightarrow> card (dom m) = Suc (card (dom m - {r}))"
  by (rule card.remove) auto

lemma accounts_step:
  assumes "accounts s" "enabled s e"
  shows "accounts (handle e s)"
proof (cases e)
  case (Request r)
  then have "r \<notin> dom (in_ws s)" using assms(2) by auto
  then show ?thesis using assms Request by (simp add: accounts_def)
next
  case (Close c)
  then have "int (card (live s - {c})) = int (card (live s)) - 1"
    using assms by (simp add: accounts_def card_Diff_singleton int_ops(6) card_gt_0_iff Suc_leI) (metis card_gt_0_iff empty_iff)
  then show ?thesis using assms Close by (auto simp: accounts_def)
next
  case (Upgrade_opens r c)
  then have "c \<notin> live s" using assms by (auto simp: accounts_def)
  then show ?thesis using assms Upgrade_opens by (auto simp: accounts_def card_dom_remove)
qed (use assms in \<open>auto simp: accounts_def card_dom_remove split: option.splits\<close>)

lemma accounts_serve: "serve es s = Some t \<Longrightarrow> accounts s \<Longrightarrow> accounts t"
  by (induction rule: serve_induct) (auto simp: accounts_step)

section \<open>The flag, the echoes and the connections of a run\<close>

text \<open>The guard's readings and the messages received, in order.\<close>

fun readings :: "('r, 'c) event list \<Rightarrow> string option list" where
  "readings [] = []"
| "readings (Guard_reading f # es) = f # readings es"
| "readings (e # es) = readings es"

fun received :: "('r, 'c) event list \<Rightarrow> ('c \<times> int \<times> string) list" where
  "received [] = []"
| "received (Message c mt d # es) = (c, mt, d) # received es"
| "received (e # es) = received es"

lemma marks_serve: "serve es s = Some t \<Longrightarrow> guard_marks t = guard_marks s"
proof (induction rule: serve_induct)
  case (event e es s t)
  then show ?case by (cases e) (auto split: option.splits)
qed simp

lemma flag_serve:
  "serve es s = Some t \<Longrightarrow> is_overloaded t = (case guard_marks s of None \<Rightarrow> is_overloaded s
    | Some (high, low) \<Rightarrow> guard_loop high low (readings es) (is_overloaded s))"
proof (induction rule: serve_induct)
  case (event e es s t)
  then show ?case by (cases e) (auto split: option.splits)
qed (auto split: option.splits)

lemma flag_is_guard: "serve es (server_start f) = Some s \<Longrightarrow> is_overloaded s = guardMemory f (readings es)"
  using flag_serve [of es "server_start f" s]
  by (auto simp: server_start_def guardMemory_def split: prod.splits if_splits)

lemma written_serve: "serve es s = Some t \<Longrightarrow> written t = written s @ received es"
proof (induction rule: serve_induct)
  case (event e es s t)
  then show ?case by (cases e) (auto split: option.splits)
qed simp

lemma live_serve: "serve es s = Some t \<Longrightarrow> live s - {c. Close c \<in> set es} \<subseteq> live t"
proof (induction rule: serve_induct)
  case (event e es s t)
  then show ?case by (cases e) (auto split: option.splits)
qed simp

text \<open>While the flag is set, only the requests that passed the check before can open a connection.\<close>

definition admitted :: "('r, 'c) server \<Rightarrow> 'r set" where
  "admitted s = {r. in_ws s r = Some False}"

lemma finite_admitted: "accounts s \<Longrightarrow> finite (admitted s)"
  by (rule finite_subset [of _ "dom (in_ws s)"]) (auto simp: admitted_def accounts_def)

lemma admitted_leave: "r \<in> admitted s \<Longrightarrow> accounts s \<Longrightarrow> card (admitted s) = Suc (card (admitted s - {r}))"
  by (rule card.remove [OF finite_admitted])

lemma card_admitted_step:
  assumes "accounts s" "enabled s e" "is_overloaded s"
  shows "totalConnections (handle e s) + card (admitted (handle e s)) \<le> totalConnections s + card (admitted s)"
proof (cases e)
  case (Request r)
  then have "admitted (handle e s) \<subseteq> admitted s" using assms by (auto simp: admitted_def)
  then show ?thesis using Request card_mono [OF finite_admitted [OF assms(1)]] by simp
next
  case (Reject r)
  then have "admitted (handle e s) = admitted s" using assms by (auto simp: admitted_def)
  then show ?thesis using Reject by simp
next
  case (Upgrade_fails r)
  then have "admitted (handle e s) = admitted s - {r}" "r \<in> admitted s" using assms by (auto simp: admitted_def)
  then show ?thesis using Upgrade_fails admitted_leave [OF _ assms(1)] by simp
next
  case (Upgrade_opens r c)
  then have "admitted (handle e s) = admitted s - {r}" "r \<in> admitted s" using assms by (auto simp: admitted_def)
  then show ?thesis using Upgrade_opens admitted_leave [OF _ assms(1)] by simp
qed (simp_all add: admitted_def split: option.splits)

lemma overloaded_serve:
  assumes "serve es s = Some t" "accounts s" "is_overloaded s"
    and "guard_marks s = Some (high, low)" "low \<le> high" "\<forall>f \<in> set (readings es). verdict high low f \<noteq> Some False"
  shows "is_overloaded t \<and> totalConnections t + card (admitted t) \<le> totalConnections s + card (admitted s)"
  using assms
proof (induction rule: serve_induct)
  case (event e es s t)
  let ?s = "handle e s"
  have s: "accounts ?s" "guard_marks ?s = Some (high, low)"
    using event.prems accounts_step event.hyps(1) by (auto split: event.splits option.splits) (cases e, auto)+
  have "is_overloaded ?s"
    using event.prems by (cases e) (auto simp: guard_tick_def verdict_def split: prod.splits if_splits)
  moreover have "\<forall>f \<in> set (readings es). verdict high low f \<noteq> Some False"
    using event.prems(5) by (cases e) auto
  ultimately have "is_overloaded t \<and> totalConnections t + card (admitted t) \<le> totalConnections ?s + card (admitted ?s)"
    using event.IH s event.prems(4) by blast
  then show ?case using card_admitted_step [OF event.prems(1) event.hyps(1) event.prems(2)] by linarith
qed simp

section \<open>Properties\<close>

text \<open>
  C14: Every request is accounted for exactly once: in any run, the requests to \<open>/ws\<close> are those
  rejected, those whose upgrade failed, the accepted connections, and those still in the handler. The
  gauge of active connections is the number of open connections and the accepted ones less the closed
  ones, and there is one 503 answer per rejected request.
\<close>

theorem server_accounts:
  assumes "serve es (server_start max_file) = Some s"
  shows "requests s = rejectedConnections s + upgradeErrors s + totalConnections s + card (dom (in_ws s)) \<and>
    activeConnections s = int (card (live s)) \<and>
    activeConnections s = int (totalConnections s) - int (totalDisconnections s) \<and>
    length (replies s) = rejectedConnections s \<and> (\<forall>x \<in> set (replies s). snd x = 503)"
  using accounts_serve [OF assms accounts_start] by (simp add: accounts_def)

text \<open>Two clients; the second arrives while the memory is above the mark, the first one stays.\<close>

definition sample_events :: "(nat, nat) event list" where
  "sample_events = [Request 1, Upgrade_opens 1 7, Guard_reading (Some ''1000000000''), Request 2, Reject 2,
     Message 7 1 ''hello'']"

definition sample_end :: "(nat, nat) server" where
  "sample_end = \<lparr>guard_marks = Some (966367641, 912680550), is_overloaded = True, in_ws = Map.empty,
     rejectedConnections = 1, upgradeErrors = 0, totalConnections = 1, totalDisconnections = 0,
     activeConnections = 1, replies = [(2, 503)], written = [(7, 1, ''hello'')], requests = 2, live = {7}, known = {7}\<rparr>"

lemma sample_tick: "guard_tick 966367641 912680550 (Some ''1000000000'') False = True"
  by code_simp

lemma sample_run: "serve sample_events (server_start sample_max) = Some sample_end"
  by (simp add: sample_events_def sample_end_def server_start_def sample_max_value sample_marks sample_tick)

theorem server_accounts_witness:
  "requests sample_end = 2 \<and> requests sample_end =
    rejectedConnections sample_end + upgradeErrors sample_end + totalConnections sample_end + card (dom (in_ws sample_end))"
  using server_accounts [OF sample_run] by (simp add: sample_end_def)

text \<open>
  C15: Admission control keeps what is open and lets nothing new in: if the guard's verdict is to reject
  and no later reading is below the lower mark, then whatever else happens only the requests that had
  already passed the check can still become connections, the flag stays set, and every connection
  that its client does not close stays open.
\<close>

theorem overload_admits_no_more:
  assumes run: "serve es (server_start max_file) = Some s" "serve later s = Some t"
    and limit: "readCgroupInt max_file = (m, True)"
    and reject: "guardMemory max_file (readings es)"
    and band: "\<forall>f \<in> set (readings later). verdict (high_mark m) (low_mark m) f \<noteq> Some False"
  shows "totalConnections t \<le> totalConnections s + card {r. in_ws s r = Some False} \<and>
    guardMemory max_file (readings (es @ later)) \<and> live s - {c. Close c \<in> set later} \<subseteq> live t"
proof -
  have "serve (es @ later) (server_start max_file) = Some t" by (simp add: serve_append run)
  then have flag: "is_overloaded t = guardMemory max_file (readings (es @ later))" by (rule flag_is_guard)
  have "guard_marks s = Some (high_mark m, low_mark m)"
    using marks_serve [OF run(1)] by (simp add: server_start_def limit)
  moreover have "low_mark m \<le> high_mark m"
    using marks.low_le_high readCgroupInt_pos [OF limit] by simp
  moreover have "is_overloaded s" using flag_is_guard [OF run(1)] reject by simp
  ultimately have "is_overloaded t \<and> totalConnections t + card (admitted t) \<le> totalConnections s + card (admitted s)"
    using overloaded_serve [OF run(2) accounts_serve [OF run(1) accounts_start]] band by blast
  then show ?thesis using flag live_serve [OF run(2)] by (auto simp: admitted_def)
qed

theorem overload_admits_no_more_witness:
  "totalConnections (sample_end\<lparr>requests := 3, in_ws := [3 \<mapsto> True]\<rparr>) \<le> totalConnections sample_end + card {r. in_ws sample_end r = Some False}"
proof -
  have s: "serve [Request 3, Guard_reading None] sample_end = Some (sample_end\<lparr>requests := 3, in_ws := [3 \<mapsto> True]\<rparr>)"
    by (simp add: sample_end_def guard_tick_def readCgroupInt_def)
  have g: "guardMemory sample_max (readings sample_events)"
    by (simp add: guardMemory_def sample_max_value sample_marks sample_events_def sample_tick)
  have b: "\<forall>f \<in> set (readings [Request 3, Guard_reading None :: (nat, nat) event]).
      verdict (high_mark 1073741824) (low_mark 1073741824) f \<noteq> Some False"
    by (simp add: verdict_def readCgroupInt_def)
  show ?thesis using overload_admits_no_more [OF sample_run s sample_max_value g b] by simp
qed

end
