(* ===== verification/Urls.thy ===== *)
theory Urls
  imports Text
begin

text \<open>
  The URLs the Python scripts send to Prometheus: \<open>urllib.parse.urlencode\<close> and the addresses built
  with it in \<open>bench/local/record.py\<close> and \<open>scripts/evidence/export_prometheus.py\<close>. A string is its
  bytes in UTF-8. The reader at the other end is the specification \<open>parse_query\<close>: a query string is
  cut at \<open>&\<close> and at the first \<open>=\<close> of each part, \<open>+\<close> is a space and a percent sign starts a byte
  in two hexadecimal digits.
\<close>

section \<open>Encoding\<close>

definition url_safe :: "char \<Rightarrow> bool" where
  "url_safe c = (let n = of_char c :: int in
     48 \<le> n \<and> n \<le> 57 \<or> 65 \<le> n \<and> n \<le> 90 \<or> 97 \<le> n \<and> n \<le> 122 \<or> c \<in> {CHR ''_'', CHR ''.'', CHR ''-'', CHR ''~''})"

definition hex_char :: "int \<Rightarrow> char" where
  "hex_char d = (if d < 10 then char_of (48 + d) else char_of (55 + d))"

definition quote_char :: "char \<Rightarrow> string" where
  "quote_char c =
     (if url_safe c then [c] else if c = CHR '' '' then ''+''
      else let n = of_char c in [CHR 0x25, hex_char (n div 16), hex_char (n mod 16)])"

definition quote_plus :: "string \<Rightarrow> string" where
  "quote_plus s = concat (map quote_char s)"

definition urlencode :: "(string \<times> string) list \<Rightarrow> string" where
  "urlencode kvs = join ''&'' (map (\<lambda>(k, v). quote_plus k @ ''='' @ quote_plus v) kvs)"

text \<open>Where the recorder looks: two addresses that the environment can replace.\<close>

definition PROM :: "(string \<Rightarrow> string option) \<Rightarrow> string" where
  "PROM environ = (case environ ''PROM_URL'' of None \<Rightarrow> ''http://127.0.0.1:19090'' | Some u \<Rightarrow> u)"

definition SERVER_METRICS :: "(string \<Rightarrow> string option) \<Rightarrow> string" where
  "SERVER_METRICS environ = (case environ ''SERVER_METRICS_URL'' of None \<Rightarrow> ''http://127.0.0.1:18080/metrics'' | Some u \<Rightarrow> u)"

text \<open>The address of an instant query of the recorder and of a range query of the export.\<close>

definition prom_url :: "string \<Rightarrow> string \<Rightarrow> string" where
  "prom_url base query = base @ ''/api/v1/query?'' @ urlencode [(''query'', query)]"

definition range_url :: "string \<Rightarrow> string \<Rightarrow> string \<Rightarrow> string \<Rightarrow> string \<Rightarrow> string" where
  "range_url host query from until step =
     ''http://'' @ host @ '':9090/api/v1/query_range?'' @
     urlencode [(''query'', query), (''start'', from), (''end'', until), (''step'', step)]"

section \<open>Decoding\<close>

definition hex_val :: "char \<Rightarrow> int option" where
  "hex_val c = (let n = of_char c in
     if 48 \<le> n \<and> n \<le> 57 then Some (n - 48)
     else if 65 \<le> n \<and> n \<le> 70 then Some (n - 55)
     else if 97 \<le> n \<and> n \<le> 102 then Some (n - 87) else None)"

fun unquote :: "string \<Rightarrow> string option" where
  "unquote [] = Some []"
| "unquote (c # cs) =
     (if c = CHR 0x25 then
        (case cs of
           h # l # rest \<Rightarrow>
             (case (hex_val h, hex_val l, unquote rest) of
                (Some a, Some b, Some t) \<Rightarrow> Some (char_of (16 * a + b) # t)
              | _ \<Rightarrow> None)
         | _ \<Rightarrow> None)
      else map_option ((#) (if c = CHR ''+'' then CHR '' '' else c)) (unquote cs))"

definition parse_pair :: "string \<Rightarrow> (string \<times> string) option" where
  "parse_pair p = (case partition_at (CHR ''='') p of (k, v) \<Rightarrow>
     (case (unquote k, unquote v) of (Some a, Some b) \<Rightarrow> Some (a, b) | _ \<Rightarrow> None))"

definition parse_query :: "string \<Rightarrow> (string \<times> string) list option" where
  "parse_query s = those (map parse_pair (split_on (CHR ''&'') s))"

section \<open>Encoding is undone by decoding\<close>

lemma hex_digits: "0 \<le> d \<Longrightarrow> d < 16 \<Longrightarrow> (of_char (hex_char d) :: int) = (if d < 10 then 48 + d else 55 + d)"
  by (simp add: hex_char_def of_char_of)

lemma hex_roundtrip: "0 \<le> d \<Longrightarrow> d < 16 \<Longrightarrow> hex_val (hex_char d) = Some d"
  by (simp add: hex_val_def hex_digits)

lemma char_bounds: "0 \<le> (of_char c :: int)" "(of_char c :: int) < 256"
proof -
  have e: "(of_char c :: int) = of_char c mod 256" using of_char_of [of "of_char c :: int"] by simp
  show "0 \<le> (of_char c :: int)" by (subst e) (rule pos_mod_sign, simp)
  show "(of_char c :: int) < 256" by (subst e) (rule pos_mod_bound, simp)
qed

lemma unquote_char: "unquote (quote_char c @ s) = map_option ((#) c) (unquote s)"
proof (cases "url_safe c \<or> c = CHR '' ''")
  case True
  have "\<not> url_safe (CHR 0x25)" "\<not> url_safe (CHR ''+'')" by code_simp+
  then show ?thesis using True by (auto simp: quote_char_def)
next
  case False
  have "0 \<le> (of_char c :: int) div 16" "(of_char c :: int) div 16 < 16" "0 \<le> (of_char c :: int) mod 16" "(of_char c :: int) mod 16 < 16"
    using char_bounds [of c] by simp_all
  then have "hex_val (hex_char (of_char c div 16)) = Some (of_char c div 16)"
    "hex_val (hex_char (of_char c mod 16)) = Some (of_char c mod 16)"
    by (simp_all add: hex_roundtrip)
  moreover have "char_of (16 * (of_char c div 16) + of_char c mod 16 :: int) = c"
    by (simp add: mult_div_mod_eq)
  ultimately show ?thesis using False by (simp add: quote_char_def Let_def split: option.split)
qed

lemma unquote_quote: "unquote (quote_plus s) = Some s"
  by (induction s) (simp_all add: quote_plus_def unquote_char)

lemma quote_char_clean: "d \<in> set (quote_char c) \<Longrightarrow> url_safe d \<or> d = CHR ''+'' \<or> d = CHR 0x25"
proof -
  assume d: "d \<in> set (quote_char c)"
  have "url_safe (hex_char k)" if "0 \<le> k" "k < 16" for k
    using that by (simp add: url_safe_def hex_digits Let_def)
  then show ?thesis using d char_bounds [of c] by (auto simp: quote_char_def Let_def split: if_splits)
qed

lemma quote_clean: "CHR ''&'' \<notin> set (quote_plus s)" "CHR ''='' \<notin> set (quote_plus s)"
proof -
  have "\<not> url_safe (CHR ''&'')" "\<not> url_safe (CHR ''='')" by code_simp+
  then show "CHR ''&'' \<notin> set (quote_plus s)" "CHR ''='' \<notin> set (quote_plus s)"
    using quote_char_clean by (fastforce simp: quote_plus_def)+
qed

lemma parse_encoded: "parse_pair (quote_plus k @ ''='' @ quote_plus v) = Some (k, v)"
  using partition_at_append [OF quote_clean(2), of k "quote_plus v"] by (simp add: parse_pair_def unquote_quote)

lemma parse_urlencode: "kvs \<noteq> [] \<Longrightarrow> parse_query (urlencode kvs) = Some kvs"
proof -
  assume ne: "kvs \<noteq> []"
  let ?ps = "map (\<lambda>(k, v). quote_plus k @ ''='' @ quote_plus v) kvs"
  have "split_on (CHR ''&'') (join [CHR ''&''] ?ps) = ?ps"
    using ne quote_clean by (intro split_on_join) auto
  moreover have "those (map parse_pair ?ps) = Some kvs"
    using parse_encoded by (induction kvs) auto
  ultimately show ?thesis by (simp add: parse_query_def urlencode_def)
qed

text \<open>
  C37: Every query reaches Prometheus as it was meant: whatever characters the query and the times
  hold, decoding the query string of the address gives back exactly the parameters.
\<close>

theorem queries_survive_the_url:
  "\<exists>qs rs. prom_url base query = base @ ''/api/v1/query?'' @ qs \<and> parse_query qs = Some [(''query'', query)] \<and>
    range_url host query from until step = ''http://'' @ host @ '':9090/api/v1/query_range?'' @ rs \<and>
    parse_query rs = Some [(''query'', query), (''start'', from), (''end'', until), (''step'', step)]"
  unfolding prom_url_def range_url_def by (intro exI conjI, (rule refl parse_urlencode; simp)+)

end
