(* ===== verification/Export.thy ===== *)
theory Export
  imports Urls Metrics Json
begin

text \<open>
  The export of a run's series, \<open>scripts/evidence/export_prometheus.py\<close>, and how
  \<open>scripts/evidence/plot_run.py\<close> reads them. Prometheus is an argument: \<open>fetch url\<close> is the body of the
  answer, or \<open>Inl\<close> the text of the exception that the request raised; \<open>export_main\<close> is stated on the decoded
  answers and document, \<open>export_script\<close> on the texts. The text of an exception raised by the script itself
  is the argument \<open>err_text\<close>.
\<close>

section \<open>The export\<close>

definition EXPORT_QUERIES :: "(string \<times> string) list" where
  \<open>EXPORT_QUERIES = [
    (''loadgen_connections_active_total'', ''sum(loadgen_connections_active)''),
    (''loadgen_connections_active_by_replica'', ''loadgen_connections_active''),
    (''server_connections_active'', ''millionws_connections_active''),
    (''server_connections_total'', ''millionws_connections_total''),
    (''server_connections_rejected_total'', ''millionws_connections_rejected_total''),
    (''server_upgrade_errors_total'', ''millionws_upgrade_errors_total''),
    (''server_disconnections_total'', ''millionws_disconnections_total''),
    (''loadgen_dials_rate_15s'', ''sum(rate(loadgen_dials_total[15s]))''),
    (''loadgen_dial_errors_by_reason'', ''sum(loadgen_dial_errors_total) by (reason)''),
    (''loadgen_disconnects_total'', ''sum(loadgen_disconnects_total)''),
    (''loadgen_messages_sent_rate_15s'', ''sum(rate(loadgen_messages_sent_total[15s]))''),
    (''loadgen_messages_received_rate_15s'', ''sum(rate(loadgen_messages_received_total[15s]))''),
    (''echo_latency_p50_seconds_30s'', ''histogram_quantile(0.5, sum(rate(loadgen_echo_latency_seconds_bucket[30s])) by (le))''),
    (''echo_latency_p99_seconds_30s'', ''histogram_quantile(0.99, sum(rate(loadgen_echo_latency_seconds_bucket[30s])) by (le))''),
    (''server_process_resident_memory_bytes'', ''process_resident_memory_bytes{job="server"}''),
    (''server_process_start_time_seconds'', ''process_start_time_seconds{job="server"}''),
    (''server_open_fds'', ''process_open_fds{job="server"}''),
    (''server_goroutines'', ''go_goroutines{job="server"}''),
    (''server_go_memory_limit_bytes'', ''millionws_go_memory_limit_bytes''),
    (''server_go_heap_alloc_bytes'', ''go_memstats_alloc_bytes{job="server"}''),
    (''scrape_up'', ''up'')]\<close>

text \<open>\<open>len(v)\<close>.\<close>

fun py_len :: "pyval \<Rightarrow> nat res" where
  "py_len (VStr s) = Inr (length s)"
| "py_len (VList xs) = Inr (length xs)"
| "py_len (VDict d) = Inr (length d)"
| "py_len _ = Inl TypeError"

text \<open>The points and the number of series of an answer, as the progress line counts them.\<close>

definition count_points :: "pyval \<Rightarrow> (nat \<times> nat) res" where
  "count_points result =
     bindE (elements result) (\<lambda>rs.
     bindE (mapE (\<lambda>r. bindE (item_key ''values'' r) py_len) rs) (\<lambda>ns.
     bindE (py_len result) (\<lambda>n. Inr (sum_list ns, n))))"

definition failed_entry :: "string \<Rightarrow> string \<Rightarrow> string \<Rightarrow> pyval \<times> string" where
  "failed_entry name q msg = (VDict [(''query'', VStr q), (''error'', VStr msg)], name @ '' ERROR '' @ msg)"

text \<open>The body of the loop: the entry of one series and the line it prints. Every exception is caught.\<close>

definition export_entry ::
  "(string \<Rightarrow> string + pyval) \<Rightarrow> (py_error \<Rightarrow> string) \<Rightarrow> (string \<Rightarrow> string) \<Rightarrow> string \<Rightarrow> string \<Rightarrow> pyval \<times> string" where
  "export_entry fetch err_text url name q =
     (case fetch (url q) of
        Inl msg \<Rightarrow> failed_entry name q msg
      | Inr d \<Rightarrow>
          (case bindE (bindE (item_key ''data'' d) (item_key ''result'')) (\<lambda>result.
                bindE (count_points result) (\<lambda>counts. Inr (result, counts))) of
             Inl e \<Rightarrow> failed_entry name q (err_text e)
           | Inr (result, points, n) \<Rightarrow>
               (VDict [(''query'', VStr q), (''result'', result)],
                name @ '': '' @ show_int (int points) @ '' points, '' @ show_int (int n) @ '' series'')))"

text \<open>
  The script: the command line, the loop over the queries and the document for the output file with the
  printed lines. The step is converted only when the document is built.
\<close>

definition export_main ::
  "(string \<Rightarrow> string + pyval) \<Rightarrow> (py_error \<Rightarrow> string) \<Rightarrow> string list \<Rightarrow> (string \<times> pyval \<times> string list) res" where
  "export_main fetch err_text argv =
     (case take 4 (drop 1 argv) of
        [host, from, until, out] \<Rightarrow>
          let step = (if length argv > 5 then argv ! 5 else ''10'');
              url = (\<lambda>q. range_url host q from until step);
              entries = map (\<lambda>(name, q). (name, export_entry fetch err_text url name q)) EXPORT_QUERIES
          in bindE (of_option ValueError (py_int_of step)) (\<lambda>step_s.
             Inr (out,
               VDict [(''start'', VStr from), (''end'', VStr until), (''step_s'', VNum (PInt step_s)),
                      (''series'', VDict (map (\<lambda>(name, entry, line). (name, entry)) entries))],
               map (\<lambda>(name, entry, line). line) entries))
      | _ \<Rightarrow> Inl ValueError)"

text \<open>On texts: an answer that is not JSON is a failed query, and the document is written without an indentation.\<close>

definition decoded_fetch :: "(string \<Rightarrow> string + string) \<Rightarrow> (py_error \<Rightarrow> string) \<Rightarrow> string \<Rightarrow> string + pyval" where
  "decoded_fetch fetch err_text url =
     bindE (fetch url) (\<lambda>body. case json_loads body of Inl e \<Rightarrow> Inl (err_text e) | Inr v \<Rightarrow> Inr v)"

definition export_script ::
  "(string \<Rightarrow> string + string) \<Rightarrow> (py_error \<Rightarrow> string) \<Rightarrow> string list \<Rightarrow> (string \<times> string \<times> string list) res" where
  "export_script fetch err_text argv =
     bindE (export_main (decoded_fetch fetch err_text) err_text argv) (\<lambda>(out, doc, lines).
       Inr (out, json_dumps None doc, lines))"

section \<open>Reading the export\<close>

text \<open>\<open>a, b = v\<close>.\<close>

fun unpack2 :: "pyval \<Rightarrow> (pyval \<times> pyval) res" where
  "unpack2 (VList [a, b]) = Inr (a, b)"
| "unpack2 (VList xs) = Inl ValueError"
| "unpack2 (VStr [a, b]) = Inr (VStr [a], VStr [b])"
| "unpack2 (VStr s) = Inl ValueError"
| "unpack2 (VDict [(a, x), (b, y)]) = Inr (VStr a, VStr b)"
| "unpack2 (VDict d) = Inl ValueError"
| "unpack2 v = Inl TypeError"

text \<open>
  \<open>datetime.fromtimestamp(float(v), IST)\<close> as the instant in microseconds since the epoch: the fraction
  is rounded to the nearest microsecond, ties to even. The calendar of \<open>datetime\<close> has the years 1 to
  9999, for the instant in UTC and again for the local time five and a half hours later. For a finite
  time outside the calendar Python chooses between several exceptions; here it is \<open>ValueError\<close> in UTC.
\<close>

definition IST_US :: int where "IST_US = 19800000000"

definition us_of :: "rat \<Rightarrow> int" where
  "us_of r = (let whole = (if 0 \<le> r then \<lfloor>r\<rfloor> else \<lceil>r\<rceil>) in whole * 1000000 + rhe (rnd ((r - of_int whole) * 1000000)))"

fun dt :: "flt \<Rightarrow> int res" where
  "dt (Fin r) =
     (let us = us_of r in
      if us < - 62135596800000000 \<or> 253402300800000000 \<le> us then Inl ValueError
      else if 253402300800000000 \<le> us + IST_US then Inl OverflowError
      else Inr us)"
| "dt NaN = Inl ValueError"
| "dt x = Inl OverflowError"

text \<open>\<open>get(name)\<close>: the times and the values of the first series.\<close>

definition get_values :: "pyval \<Rightarrow> string \<Rightarrow> pyval res" where
  "get_values series name =
     bindE (item_key name series) (\<lambda>s. bindE (item_key ''result'' s) (\<lambda>rs.
     bindE (item_idx 0 rs) (item_key ''values'')))"

definition get_times :: "pyval list \<Rightarrow> int list res" where
  "get_times = mapE (\<lambda>p. bindE (unpack2 p) (\<lambda>(t, v). bindE (float_of t) dt))"

definition get_floats :: "pyval list \<Rightarrow> flt list res" where
  "get_floats = mapE (\<lambda>p. bindE (unpack2 p) (\<lambda>(t, v). if v \<noteq> VStr ''NaN'' then float_of v else Inr NaN))"

definition get_series :: "pyval \<Rightarrow> string \<Rightarrow> (int list \<times> flt list) res" where
  "get_series series name =
     bindE (get_values series name) (\<lambda>r. bindE (elements r) (\<lambda>ps.
     bindE (get_times ps) (\<lambda>ts. bindE (get_floats ps) (\<lambda>vs. Inr (ts, vs)))))"

section \<open>What the export holds\<close>

lemma map_of_keyed: "map_of (map (\<lambda>(k, v). (k, f k v)) xs) k = map_option (f k) (map_of xs k)"
  by (induction xs) auto

lemma queries_distinct: "distinct (map fst EXPORT_QUERIES)"
  unfolding EXPORT_QUERIES_def by code_simp

lemma query_of: "(name, q) \<in> set EXPORT_QUERIES \<Longrightarrow> map_of EXPORT_QUERIES name = Some q"
  using queries_distinct by (rule map_of_is_SomeI)

text \<open>The result of an answer the script can count, and its decoded document.\<close>

definition usable :: "string + pyval \<Rightarrow> pyval option" where
  "usable answer = (case answer of Inl msg \<Rightarrow> None | Inr d \<Rightarrow>
     (case bindE (bindE (item_key ''data'' d) (item_key ''result'')) (\<lambda>r. bindE (count_points r) (\<lambda>c. Inr r)) of
        Inl e \<Rightarrow> None | Inr r \<Rightarrow> Some r))"

lemma entry_result:
  "item_key ''result'' (fst (export_entry fetch err_text url name q)) =
    of_option (KeyError ''result'') (usable (fetch (url q)))"
  "item_key ''query'' (fst (export_entry fetch err_text url name q)) = Inr (VStr q)"
  by (auto simp: export_entry_def failed_entry_def usable_def sub_def res_simps
      split: sum.splits prod.splits dest!: bindE_Inl_iff [THEN iffD1])

definition export_url :: "string list \<Rightarrow> string \<Rightarrow> string" where
  "export_url argv q = range_url (argv ! 1) q (argv ! 2) (argv ! 3) (if length argv > 5 then argv ! 5 else ''10'')"

lemma export_main_value:
  assumes "5 \<le> length argv" "py_int_of (if length argv > 5 then argv ! 5 else ''10'') = Some n"
  shows "export_main fetch err_text argv = Inr (argv ! 4,
    VDict [(''start'', VStr (argv ! 2)), (''end'', VStr (argv ! 3)), (''step_s'', VNum (PInt n)),
      (''series'', VDict (map (\<lambda>(name, q). (name, fst (export_entry fetch err_text (export_url argv) name q))) EXPORT_QUERIES))],
    map (\<lambda>(name, q). snd (export_entry fetch err_text (export_url argv) name q)) EXPORT_QUERIES)"
proof -
  have "take 4 (drop 1 argv) = [argv ! 1, argv ! 2, argv ! 3, argv ! 4]"
    using assms(1) by (intro nth_equalityI) (auto simp: less_Suc_eq numeral_eq_Suc nth_Cons split: nat.splits)
  then show ?thesis
    by (simp add: export_main_def assms(2) Let_def comp_def case_prod_unfold export_url_def [abs_def])
qed

section \<open>Properties\<close>

text \<open>
  C34: A failing query never costs the others: with the four arguments and a step that is a number the
  export always ends with its file, which has an entry for every query in which the query itself can
  be read and, exactly when Prometheus gave a usable answer, its result; one line is printed per query.
\<close>

theorem export_keeps_every_series:
  assumes "5 \<le> length argv" "py_int_of (if length argv > 5 then argv ! 5 else ''10'') = Some n"
  shows "\<exists>doc lines. export_main fetch err_text argv = Inr (argv ! 4, doc, lines) \<and>
    length lines = length EXPORT_QUERIES \<and>
    (\<forall>(name, q) \<in> set EXPORT_QUERIES. \<exists>entry.
       bindE (item_key ''series'' doc) (item_key name) = Inr entry \<and>
       item_key ''query'' entry = Inr (VStr q) \<and>
       item_key ''result'' entry = of_option (KeyError ''result'') (usable (fetch (export_url argv q))))"
  unfolding export_main_value [OF assms]
  by (auto simp: sub_def map_of_keyed query_of entry_result)

definition sample_fetch :: "string \<Rightarrow> string + pyval" where
  "sample_fetch url = (if contains ''millionws_connections_active'' url
     then Inr (VDict [(''data'', VDict [(''result'', VList [VDict [(''values'', VList [VList [VNum (PInt 10), VStr ''7'']])]])])])
     else Inl ''timed out'')"

definition sample_argv :: "string list" where
  "sample_argv = [''export_prometheus.py'', ''h'', ''0'', ''60'', ''out.json'']"

lemma sample_argv_ok: "5 \<le> length sample_argv" "py_int_of (if length sample_argv > 5 then sample_argv ! 5 else ''10'') = Some 10"
  unfolding sample_argv_def by code_simp+

theorem export_keeps_every_series_witness:
  "\<exists>doc lines. export_main sample_fetch (\<lambda>e. []) sample_argv = Inr (''out.json'', doc, lines) \<and> length lines = 21"
proof -
  have "length EXPORT_QUERIES = 21" by (simp add: EXPORT_QUERIES_def)
  moreover have "sample_argv ! 4 = ''out.json''" by (simp add: sample_argv_def)
  ultimately show ?thesis using export_keeps_every_series [OF sample_argv_ok, of sample_fetch "\<lambda>e. []"] by auto
qed

text \<open>Looking up an exported series in the document gives what the answer held.\<close>

lemma exported_values:
  assumes "export_main fetch err_text argv = Inr (out, doc, lines)" "(name, q) \<in> set EXPORT_QUERIES"
  shows "bindE (item_key ''series'' doc) (\<lambda>series. get_values series name) =
    (case usable (fetch (export_url argv q)) of
       None \<Rightarrow> Inl (KeyError ''result'')
     | Some result \<Rightarrow> bindE (item_idx 0 result) (item_key ''values''))"
proof -
  obtain a b c d where "take 4 (drop 1 argv) = [a, b, c, d]"
    using assms(1) by (auto simp only: export_main_def split: list.splits)
  then have "length (take 4 (drop 1 argv)) = 4" by simp
  then have len: "5 \<le> length argv" by simp
  obtain n where n: "py_int_of (if length argv > 5 then argv ! 5 else ''10'') = Some n"
    using assms(1) by (auto simp: export_main_def Let_def res_simps split: list.splits)
  show ?thesis
    using assms(1) unfolding export_main_value [OF len n]
    by (auto simp: get_values_def sub_def map_of_keyed query_of [OF assms(2)] entry_result split: option.split)
qed

text \<open>The document can be written: what an answer holds was read from a text.\<close>

lemma entry_ok:
  assumes "\<And>v. fetch (url q) = Inr v \<Longrightarrow> json_ok v"
  shows "json_ok (fst (export_entry fetch err_text url name q))"
proof (cases "fetch (url q)")
  case (Inr v)
  have "json_ok r" if "bindE (item_key ''data'' v) (item_key ''result'') = Inr r" for r
    using that assms [OF Inr] unfolding bindE_Inr_iff by (blast intro: item_ok(1))
  then show ?thesis
    using Inr by (auto simp: export_entry_def failed_entry_def bindE_Inr_iff split: sum.splits prod.splits)
qed (simp add: export_entry_def failed_entry_def)

lemma export_doc_ok:
  assumes "export_main (decoded_fetch fetch err_text) err_text argv = Inr (out, doc, lines)"
  shows "json_ok doc"
proof -
  have "json_ok v" if v: "decoded_fetch fetch err_text url = Inr v" for url v
  proof -
    obtain body where "(case json_loads body of Inl e \<Rightarrow> Inl (err_text e) | Inr v \<Rightarrow> Inr v) = Inr v"
      using v by (auto simp: decoded_fetch_def bindE_Inr_iff)
    then have "json_loads body = Inr v" by (cases "json_loads body") auto
    then show ?thesis by (rule loads_ok)
  qed
  then have entry: "json_ok (fst (export_entry (decoded_fetch fetch err_text) err_text url name q))" for url name q
    by (rule entry_ok)
  have "distinct (keys (map (\<lambda>(name, entry, line). (name, entry))
      (map (\<lambda>(name, q). (name, export_entry (decoded_fetch fetch err_text) err_text url name q)) EXPORT_QUERIES)))" for url
    using queries_distinct by (simp add: keys_def comp_def case_prod_unfold)
  then show ?thesis
    using assms entry by (auto simp: export_main_def Let_def bindE_Inr_iff list_all_iff case_prod_unfold split: list.splits)
qed

text \<open>
  C33: The charts read what Prometheus answered: looking up an exported series in the file gives the
  values of the first series of the answer, \<open>KeyError\<close> if the query had failed, and \<open>IndexError\<close> if
  the answer held no series.
\<close>

theorem plot_reads_the_export:
  assumes "export_script fetch err_text argv = Inr (out, body, lines)" "(name, q) \<in> set EXPORT_QUERIES"
  shows "bindE (json_loads body) (\<lambda>doc. bindE (item_key ''series'' doc) (\<lambda>series. get_values series name)) =
    (case usable (decoded_fetch fetch err_text (export_url argv q)) of
       None \<Rightarrow> Inl (KeyError ''result'')
     | Some result \<Rightarrow> bindE (item_idx 0 result) (item_key ''values''))"
proof -
  obtain doc where doc: "export_main (decoded_fetch fetch err_text) err_text argv = Inr (out, doc, lines)"
    "body = json_dumps None doc"
    using assms(1) by (auto simp: export_script_def bindE_Inr_iff)
  then have "json_loads body = Inr doc" using json_round [OF export_doc_ok [OF doc(1)]] by simp
  then show ?thesis using exported_values [OF doc(1) assms(2)] by simp
qed

definition sample_bodies :: "string \<Rightarrow> string + string" where
  "sample_bodies url = bindE (sample_fetch url) (\<lambda>v. Inr (json_dumps None v))"

lemma sample_bodies_decoded: "decoded_fetch sample_bodies err_text = sample_fetch"
proof
  have "json_ok v" if "sample_fetch url = Inr v" for url v using that by (auto simp: sample_fetch_def split: if_splits)
  then show "decoded_fetch sample_bodies err_text url = sample_fetch url" for url
    by (cases "sample_fetch url") (auto simp: decoded_fetch_def sample_bodies_def json_round)
qed

theorem plot_reads_the_export_witness:
  "\<exists>body lines. export_script sample_bodies (\<lambda>e. []) sample_argv = Inr (''out.json'', body, lines) \<and>
    bindE (json_loads body) (\<lambda>doc. bindE (item_key ''series'' doc) (\<lambda>series. get_values series ''server_connections_active'')) =
      Inr (VList [VList [VNum (PInt 10), VStr ''7'']]) \<and>
    bindE (json_loads body) (\<lambda>doc. bindE (item_key ''series'' doc) (\<lambda>series. get_values series ''scrape_up'')) = Inl (KeyError ''result'')"
proof -
  have "sample_argv ! 4 = ''out.json''" by (simp add: sample_argv_def)
  then obtain body lines where e: "export_script sample_bodies (\<lambda>e. []) sample_argv = Inr (''out.json'', body, lines)"
    using export_main_value [OF sample_argv_ok, of sample_fetch "\<lambda>e. []"] by (auto simp: export_script_def sample_bodies_decoded)
  have q: "(''server_connections_active'', ''millionws_connections_active'') \<in> set EXPORT_QUERIES"
    "(''scrape_up'', ''up'') \<in> set EXPORT_QUERIES"
    by (simp_all add: EXPORT_QUERIES_def)
  have u: "usable (sample_fetch (export_url sample_argv ''millionws_connections_active'')) =
      Some (VList [VDict [(''values'', VList [VList [VNum (PInt 10), VStr ''7'']])]])"
    "usable (sample_fetch (export_url sample_argv ''up'')) = None"
    by code_simp+
  show ?thesis
    using e plot_reads_the_export [OF e q(1)] plot_reads_the_export [OF e q(2)] unfolding sample_bodies_decoded u
    by (auto simp: sub_def)
qed

end
