(* ===== verification/StallCharts.thy ===== *)
theory StallCharts
  imports Csv
begin

text \<open>
  The charts of the stall tests, \<open>scripts/evidence/plot_stalls.py\<close> and \<open>plot_tcp_bound.py\<close>: what
  they read from the one-per-second traces of \<open>memwatch.sh\<close> and the data, lines, labels and titles they hand
  to the plotting library, the file it saves and the line they print. Colours, fonts, sizes and line styles
  other than the colour of a title are left out.
\<close>

section \<open>Reading a trace\<close>

text \<open>
  The body of the loop over the rows of a trace: a row whose time or numbers do not parse is skipped,
  because \<open>TypeError\<close> and \<open>ValueError\<close> are caught; anything else ends the script. \<open>sec\<close> reads a
  time, and its result is subtracted from that of the start time.
\<close>

definition time_cell :: "(string \<Rightarrow> 'a res) \<Rightarrow> csv_cells \<Rightarrow> 'a res" where
  "time_cell sec row = bindE (sub row ''local'') (\<lambda>c. case c of None \<Rightarrow> Inl AttributeError | Some s \<Rightarrow> sec s)"

definition trace_row :: "(string \<Rightarrow> 'a::minus res) \<Rightarrow> string \<Rightarrow> csv_cells \<Rightarrow> ('a \<times> int \<times> int) res" where
  "trace_row sec start row =
     bindE (time_cell sec row) (\<lambda>t. bindE (sec start) (\<lambda>t0.
     bindE (int_cell ''current_mib'' row) (\<lambda>current.
     bindE (int_cell ''sock_mib'' row) (\<lambda>sock. Inr (t - t0, current, sock)))))"

fun trace_rows :: "(string \<Rightarrow> 'a::minus res) \<Rightarrow> string \<Rightarrow> csv_cells list \<Rightarrow> ('a \<times> int \<times> int) list res" where
  "trace_rows sec start [] = Inr []"
| "trace_rows sec start (row # rows) =
     (case trace_row sec start row of
        Inr r \<Rightarrow> bindE (trace_rows sec start rows) (\<lambda>rs. Inr (r # rs))
      | Inl e \<Rightarrow> if e = TypeError \<or> e = ValueError then trace_rows sec start rows else Inl e)"

text \<open>The two versions of \<open>sec\<close>: in seconds as a float, and in whole seconds.\<close>

definition sec_float :: "string \<Rightarrow> flt res" where
  "sec_float t = bindE (mapE (\<lambda>(p, m). bindE (of_option ValueError (py_float_of p)) (\<lambda>x. Inr (x * Fin m)))
     (zip (split_on (CHR '':'') t) [3600, 60, 1])) (\<lambda>xs. Inr (flt_sum xs))"

definition sec_int :: "string \<Rightarrow> int res" where
  "sec_int t = bindE (mapE (\<lambda>(p, m). bindE (of_option ValueError (py_int_of p)) (\<lambda>x. Inr (x * m)))
     (zip (split_on (CHR '':'') t) [3600, 60, 1])) (\<lambda>xs. Inr (sum_list xs))"

section \<open>Arguments and figures\<close>

text \<open>\<open>a, b, ... = sys.argv[1:n+1]\<close>: too few arguments are a \<open>ValueError\<close>, more are ignored.\<close>

definition script_args :: "nat \<Rightarrow> string list \<Rightarrow> string list res" where
  "script_args n argv = (let given = take n (drop 1 argv) in if length given = n then Inr given else Inl ValueError)"

text \<open>A figure: its title, the labels of the axes that have one, the first legend, the panels, and the file.\<close>

record 'p figure =
  fig_title :: string
  y_labels :: "string list"
  legend :: "string list"
  x_label :: string
  panels :: "'p list"
  saved_as :: string

section \<open>The stall tests\<close>

record stall_test =
  trace_file :: string
  freeze_start :: string
  seconds :: int
  limit_mib :: int
  outcome :: string

definition TESTS :: "stall_test list" where
  "TESTS = [
    \<lparr>trace_file = ''memwatch_limit6g_5s.csv'', freeze_start = ''13:20:38.8'', seconds = 5, limit_mib = 6144, outcome = ''survived''\<rparr>,
    \<lparr>trace_file = ''memwatch_limit6g_9s.csv'', freeze_start = ''13:23:45.9'', seconds = 9, limit_mib = 6144, outcome = ''killed''\<rparr>,
    \<lparr>trace_file = ''memwatch_limit6500m_9s.csv'', freeze_start = ''13:29:53.1'', seconds = 9, limit_mib = 6500, outcome = ''survived''\<rparr>,
    \<lparr>trace_file = ''memwatch_limit6500m_14s.csv'', freeze_start = ''13:33:04.1'', seconds = 14, limit_mib = 6500, outcome = ''killed''\<rparr>,
    \<lparr>trace_file = ''memwatch_7g_14s.csv'', freeze_start = ''14:57:31.2'', seconds = 14, limit_mib = 7168, outcome = ''killed''\<rparr>]"

definition upper :: "char \<Rightarrow> char" where
  "upper c = (let n = of_char c :: int in if 97 \<le> n \<and> n \<le> 122 then char_of (n - 32) else c)"

text \<open>The memory before the freeze: \<open>sorted(...)[len(rows) // 4]\<close> with \<open>rows\<close> the whole window.\<close>

definition before_freeze :: "(flt \<times> int \<times> int) list \<Rightarrow> int list" where
  "before_freeze rows = map (fst \<circ> snd) (filter (\<lambda>r. fst r < Fin 0) rows)"

definition baseline :: "(flt \<times> int \<times> int) list \<Rightarrow> int res" where
  "baseline rows =
     (let readings = sort (before_freeze rows); i = length rows div 4
      in if i < length readings then Inr (readings ! i) else Inl IndexError)"

record stall_panel =
  memory_line :: "(flt \<times> int) list"
  socket_line :: "(flt \<times> int) list"
  limit_line :: int
  frozen_span :: "int \<times> int"
  panel_title :: string
  title_green :: bool
  y_top :: flt

definition stall_window :: "int \<Rightarrow> (flt \<times> int \<times> int) list \<Rightarrow> (flt \<times> int \<times> int) list" where
  "stall_window dur rows = filter (\<lambda>r. Fin (- 8) \<le> fst r \<and> fst r \<le> Fin (of_int (dur + 6))) rows"

definition stall_panel_of :: "stall_test \<Rightarrow> (flt \<times> int \<times> int) list \<Rightarrow> stall_panel res" where
  "stall_panel_of t all_rows =
     (let rows = stall_window (seconds t) all_rows; limit = limit_mib t in
      bindE (baseline rows) (\<lambda>base.
      case rows of [] \<Rightarrow> Inl ValueError
      | r # rs \<Rightarrow>
      bindE (to_float (PInt (max limit (foldl max (fst (snd r)) (map (fst \<circ> snd) rs))))) (\<lambda>top.
      Inr \<lparr>memory_line = map (\<lambda>(s, total, sock). (s, total)) rows,
           socket_line = map (\<lambda>(s, total, sock). (s, sock)) rows,
           limit_line = limit, frozen_span = (0, seconds t),
           panel_title = show_int (seconds t) @ '' s freeze, limit '' @ show_int limit @ '' MiB'' @ [CHR 0x0A] @
             map upper (outcome t) @ ''  (headroom '' @ show_int (limit - base) @ '' MiB)'',
           title_green = (outcome t = ''survived''), y_top = top * mk (108 / 100)\<rparr>)))"

text \<open>The script: the figure it saves and the line it prints.\<close>

definition plot_stalls :: "(string \<Rightarrow> string list res) \<Rightarrow> string list \<Rightarrow> (stall_panel figure \<times> string) res" where
  "plot_stalls open_lines argv =
     bindE (script_args 2 argv) (\<lambda>args. let src = args ! 0; out = args ! 1 in
     bindE (mapE (\<lambda>t. bindE (open_lines (src @ ''/'' @ trace_file t)) (\<lambda>lines.
       bindE (trace_rows sec_float (freeze_start t) (dict_reader lines)) (stall_panel_of t))) TESTS) (\<lambda>ps.
     Inr (\<lparr>fig_title = ''Stalling the server at ~1M connections: socket buffers grow ~130 MiB/s; the container is killed if it reaches its limit'',
           y_labels = [''MiB''], legend = [''container memory'', ''socket buffers''], x_label = ''seconds from the freeze start'',
           panels = ps, saved_as = out\<rparr>, ''wrote '' @ out)))"

section \<open>The bound on socket memory\<close>

record bound_test =
  bound_name :: string
  bound_start :: string
  freeze :: int
  bound_conns :: int
  bound_title :: string

definition BOUND_TESTS :: "bound_test list" where
  "BOUND_TESTS = [
    \<lparr>bound_name = ''mw_bound_60'', bound_start = ''17:14:21'', freeze = 60, bound_conns = 250003,
     bound_title = ''250,003 connections, 60 s freeze: survived''\<rparr>,
    \<lparr>bound_name = ''mw_rmem_30'', bound_start = ''17:00:34'', freeze = 30, bound_conns = 1000009,
     bound_title = ''1,000,009 connections, 30 s freeze: killed on resume''\<rparr>]"

definition load_trace :: "(string \<Rightarrow> string list res) \<Rightarrow> string \<Rightarrow> string \<Rightarrow> string \<Rightarrow> (int \<times> int \<times> int) list res" where
  "load_trace open_lines src name start =
     bindE (open_lines (src @ ''/'' @ name @ ''.csv'')) (\<lambda>lines. trace_rows sec_int start (dict_reader lines))"

record bound_panel =
  bound_memory :: "(int \<times> int) list"
  bound_sockets :: "(int \<times> int) list"
  bound_line :: flt
  bound_text :: string
  bound_text_at :: "int \<times> flt"
  container_line :: int
  container_text :: string
  container_text_at :: "int \<times> int"
  bound_span :: "int \<times> int"
  panel_name :: string
  name_green :: bool
  bound_y_top :: int

definition bound_window :: "int \<Rightarrow> (int \<times> int \<times> int) list \<Rightarrow> (int \<times> int \<times> int) list" where
  "bound_window freeze_s rows = filter (\<lambda>x. - 5 \<le> fst x \<and> fst x \<le> freeze_s + 12) rows"

definition bound_panel_of :: "bound_test \<Rightarrow> (int \<times> int \<times> int) list \<Rightarrow> bound_panel res" where
  "bound_panel_of t all_rows =
     (let r = bound_window (freeze t) all_rows in
      bindE (num_div (PInt (bound_conns t * 4)) (PInt 1024)) (\<lambda>bound.
      Inr \<lparr>bound_memory = map (\<lambda>(s, total, sock). (s, total)) r,
           bound_sockets = map (\<lambda>(s, total, sock). (s, sock)) r,
           bound_line = bound, bound_text = ''connections x 4 KiB = '' @ fmt_fixed True 0 bound @ '' MiB'',
           bound_text_at = (freeze t + 11, bound), container_line = 6144,
           container_text = ''container limit 6,144 MiB'', container_text_at = (- 4, 6144), bound_span = (0, freeze t), panel_name = bound_title t,
           name_green = contains ''survived'' (bound_title t), bound_y_top = 9800\<rparr>))"

definition plot_tcp_bound :: "(string \<Rightarrow> string list res) \<Rightarrow> string list \<Rightarrow> (bound_panel figure \<times> string) res" where
  "plot_tcp_bound open_lines argv =
     bindE (script_args 2 argv) (\<lambda>args. let src = args ! 0; out = args ! 1 in
     bindE (mapE (\<lambda>t. bindE (load_trace open_lines src (bound_name t) (bound_start t)) (bound_panel_of t)) BOUND_TESTS) (\<lambda>ps.
     Inr (\<lparr>fig_title = ''While the server does not read, each socket that receives a message is charged one 4 KiB page, even past the container limit'',
           y_labels = [''MiB''], legend = [''container memory'', ''socket buffers''],
           x_label = ''seconds from the freeze start (yellow: server frozen)'',
           panels = ps, saved_as = out\<rparr>, ''wrote '' @ out)))"

section \<open>Traces as they are printed\<close>

text \<open>A line of \<open>memwatch.sh\<close>: the time of day and six numbers.\<close>

record mem_sample =
  hh :: int
  mm :: int
  ss :: int
  current_mib :: int
  anon_mib :: int
  kernel_mib :: int
  sock_mib :: int
  slab_mib :: int
  estab :: int

definition two :: "int \<Rightarrow> string" where
  "two d = pad_left 2 (CHR ''0'') (show_dec d)"

definition clock :: "int \<Rightarrow> int \<Rightarrow> int \<Rightarrow> string" where
  "clock h m s = two h @ '':'' @ two m @ '':'' @ two s"

definition clock_ok :: "int \<Rightarrow> int \<Rightarrow> int \<Rightarrow> bool" where
  "clock_ok h m s \<longleftrightarrow> 0 \<le> h \<and> h < 24 \<and> 0 \<le> m \<and> m < 60 \<and> 0 \<le> s \<and> s < 60"

definition mem_header :: string where
  "mem_header = ''local,current_mib,anon_mib,kernel_mib,sock_mib,slab_mib,estab''"

definition mem_line :: "mem_sample \<Rightarrow> string" where
  "mem_line x = join '','' [clock (hh x) (mm x) (ss x), show_int (current_mib x), show_int (anon_mib x),
     show_int (kernel_mib x), show_int (sock_mib x), show_int (slab_mib x), show_int (estab x)]"

definition sample_ok :: "mem_sample \<Rightarrow> bool" where
  "sample_ok x \<longleftrightarrow> clock_ok (hh x) (mm x) (ss x)"

lemma mem_header_row: "csv_row mem_header = [''local'', ''current_mib'', ''anon_mib'', ''kernel_mib'', ''sock_mib'', ''slab_mib'', ''estab'']"
  unfolding mem_header_def by code_simp

lemma two_digits: "0 \<le> d \<Longrightarrow> d < 100 \<Longrightarrow> list_all is_digit (two d) \<and> length (two d) = 2"
proof -
  have "list_all (\<lambda>d. list_all is_digit (two d) \<and> length (two d) = 2) [0..99]" unfolding two_def by code_simp
  then show "0 \<le> d \<Longrightarrow> d < 100 \<Longrightarrow> ?thesis" by (auto simp: list_all_iff)
qed

lemma two_py_int: "0 \<le> d \<Longrightarrow> d < 100 \<Longrightarrow> py_int_of (two d) = Some d"
proof -
  have "list_all (\<lambda>d. py_int_of (two d) = Some d) [0..99]" unfolding two_def by code_simp
  then show "0 \<le> d \<Longrightarrow> d < 100 \<Longrightarrow> ?thesis" by (simp add: list_all_iff)
qed

lemma two_py_float: "0 \<le> d \<Longrightarrow> d < 100 \<Longrightarrow> py_float_of (two d) = Some (Fin (of_int d))"
proof -
  have "list_all (\<lambda>d. py_float_of (two d) = Some (Fin (of_int d))) [0..99]" unfolding two_def by code_simp
  then show "0 \<le> d \<Longrightarrow> d < 100 \<Longrightarrow> ?thesis" by (simp add: list_all_iff)
qed

lemma clock_parts:
  assumes "clock_ok h m s"
  shows "split_on (CHR '':'') (clock h m s) = [two h, two m, two s]"
proof -
  have clean: "CHR '':'' \<notin> set (two d)" if "0 \<le> d" "d < 60" for d
  proof -
    have "\<not> is_digit (CHR '':'')" by code_simp
    then show ?thesis using two_digits [of d] that by (auto simp: list_all_iff)
  qed
  have "split_on (CHR '':'') (join [CHR '':''] [two h, two m, two s]) = [two h, two m, two s]"
    using assms clean by (intro split_on_join) (auto simp: clock_ok_def)
  then show ?thesis by (simp add: clock_def)
qed

lemma clock_clean: "clock_ok h m s \<Longrightarrow> CHR '','' \<notin> set (clock h m s) \<and> clock h m s \<noteq> []"
proof -
  assume ok: "clock_ok h m s"
  have "CHR '','' \<notin> set (two d)" if "0 \<le> d" "d < 60" for d
    using two_digits [of d] that digit_not(5) [of "CHR '',''"] by (auto simp: list_all_iff)
  then show ?thesis using ok by (auto simp: clock_def clock_ok_def)
qed

lemma mem_line_row:
  assumes "sample_ok x"
  shows "csv_row (mem_line x) = [clock (hh x) (mm x) (ss x), show_int (current_mib x), show_int (anon_mib x),
     show_int (kernel_mib x), show_int (sock_mib x), show_int (slab_mib x), show_int (estab x)]"
  unfolding mem_line_def using clock_clean [of "hh x" "mm x" "ss x"] assms
  by (intro csv_row_join) (auto simp: sample_ok_def dest: show_int_clean)

text \<open>The point of a chart for a sample: the time since \<open>t0\<close>, the memory and the socket buffers.\<close>

definition trace_point :: "(int \<Rightarrow> 'a::minus) \<Rightarrow> 'a \<Rightarrow> mem_sample \<Rightarrow> 'a \<times> int \<times> int" where
  "trace_point moment t0 x = (moment (3600 * hh x + 60 * mm x + ss x) - t0, current_mib x, sock_mib x)"

text \<open>
  What reading a trace needs of \<open>sec\<close>: it reads the times that \<open>date\<close> prints, and a text that is not a
  time raises the exception the loop catches.
\<close>

locale trace_clock =
  fixes sec :: "string \<Rightarrow> 'a::minus res" and moment :: "int \<Rightarrow> 'a"
  assumes sec_clock: "clock_ok h m s \<Longrightarrow> sec (clock h m s) = Inr (moment (3600 * h + 60 * m + s))"
    and sec_errors: "sec t = Inl e \<Longrightarrow> e = ValueError"
begin

lemma row_of_sample:
  assumes "sample_ok x" "sec start = Inr t0"
  shows "trace_row sec start (dict_row (csv_row mem_header) (csv_row (mem_line x))) = Inr (trace_point moment t0 x)"
proof -
  let ?H = "csv_row mem_header"
  let ?cells = "[clock (hh x) (mm x) (ss x), show_int (current_mib x), show_int (anon_mib x),
     show_int (kernel_mib x), show_int (sock_mib x), show_int (slab_mib x), show_int (estab x)]"
  have ok: "clock_ok (hh x) (mm x) (ss x)" using assms(1) by (simp add: sample_ok_def)
  note cells = mem_line_row [OF assms(1)]
  have H: "distinct ?H" "length ?H = 7" unfolding mem_header_row by simp_all
  have "sub (dict_row ?H ?cells) ''local'' = Inr (Some (clock (hh x) (mm x) (ss x)))"
    using dict_row_cell [OF H(1), of 0 ?cells] by (simp add: mem_header_row)
  moreover have "int_cell ''current_mib'' (dict_row ?H ?cells) = Inr (current_mib x)"
    by (rule int_cell_shown [OF H(1), of 1]) (simp_all add: mem_header_row)
  moreover have "int_cell ''sock_mib'' (dict_row ?H ?cells) = Inr (sock_mib x)"
    by (rule int_cell_shown [OF H(1), of 4]) (simp_all add: mem_header_row)
  ultimately show ?thesis
    unfolding cells by (simp add: trace_row_def time_cell_def sec_clock [OF ok] assms(2) trace_point_def)
qed

lemma row_cut:
  assumes "csv_row line \<noteq> []" "length (csv_row line) \<le> 4" "sec start = Inr t0"
  shows "\<exists>e. trace_row sec start (dict_row (csv_row mem_header) (csv_row line)) = Inl e \<and> (e = TypeError \<or> e = ValueError)"
proof -
  let ?H = "csv_row mem_header" and ?r = "csv_row line"
  have H: "distinct ?H" unfolding mem_header_row by simp
  have t: "sub (dict_row ?H ?r) ''local'' = Inr (Some (?r ! 0))"
    using dict_row_cell [OF H, of 0 ?r] assms(1) by (simp add: mem_header_row)
  have s: "int_cell ''sock_mib'' (dict_row ?H ?r) = Inl TypeError"
    using assms(2) by (intro int_cell_missing [OF H, of 4]) (simp_all add: mem_header_row)
  have c: "\<exists>v. sub (dict_row ?H ?r) ''current_mib'' = Inr v"
    using dict_row_cell [OF H, of 1 ?r] by (simp add: mem_header_row)
  show ?thesis
  proof (cases "sec (?r ! 0)")
    case (Inl e)
    then show ?thesis using sec_errors [OF Inl] t by (simp add: trace_row_def time_cell_def)
  next
    case (Inr v)
    then show ?thesis
      using t s c assms(3) by (auto simp: trace_row_def time_cell_def int_cell_def of_option_def split: option.splits)
  qed
qed

text \<open>
  A trace with any number of empty and cut lines between the printed ones gives exactly the printed samples.
\<close>

lemma trace_read:
  assumes "sec start = Inr t0" "\<forall>x. Inr x \<in> set parts \<longrightarrow> sample_ok x"
    and "\<forall>l. Inl l \<in> set parts \<longrightarrow> length (csv_row l) \<le> 4"
  shows "trace_rows sec start (dict_reader (mem_header # map (case_sum id mem_line) parts)) =
    Inr (map (trace_point moment t0) (concat (map (case_sum (\<lambda>l. []) (\<lambda>x. [x])) parts)))"
  using assms(2,3)
proof (induction parts)
  case (Cons p parts)
  show ?case
  proof (cases p)
    case (Inl l)
    then show ?thesis using Cons row_cut [of l start t0] assms(1) by (cases "csv_row l = []") auto
  next
    case (Inr x)
    then have "sample_ok x" using Cons.prems by simp
    moreover from this have "csv_row (mem_line x) \<noteq> []" by (simp add: mem_line_row)
    ultimately show ?thesis using Cons Inr row_of_sample [of x start t0] assms(1) by simp
  qed
qed simp

end

interpretation whole: trace_clock sec_int id
proof unfold_locales
  show "sec_int (clock h m s) = Inr (id (3600 * h + 60 * m + s))" if "clock_ok h m s" for h m s
    using that two_py_int by (simp add: sec_int_def clock_parts clock_ok_def)
  show "e = ValueError" if "sec_int t = Inl e" for t e
    using that by (auto simp: sec_int_def res_simps of_option_def dest!: mapE_Inl split: option.splits)
qed

lemma Fin_int:
  assumes "\<bar>i\<bar> \<le> 2 ^ 50" "\<bar>j\<bar> \<le> 2 ^ 50"
  shows "Fin (of_int i) + Fin (of_int j) = Fin (of_int (i + j))" "Fin (of_int i) - Fin (of_int j) = Fin (of_int (i - j))"
  using assms mk_int [of "i + j"] mk_int [of "i - j"] by (simp_all add: minus_flt_def)

lemma Fin_int_times: "\<bar>i * j\<bar> \<le> 2 ^ 53 \<Longrightarrow> Fin (of_int i) * Fin (of_int j) = Fin (of_int (i * j))"
  using mk_int [of "i * j"] by simp

text \<open>Summing exact integers loses nothing, so nothing is compensated.\<close>

lemma flt_sum_int_step:
  assumes "\<bar>s\<bar> \<le> 2 ^ 48" "\<bar>x\<bar> \<le> 2 ^ 48"
  shows "flt_sum_from (Fin (of_int s)) (Fin 0) (Fin (of_int x) # xs) = flt_sum_from (Fin (of_int (s + x))) (Fin 0) xs"
proof -
  have t: "Fin (of_int s) + Fin (of_int x) = Fin (of_int (s + x))" using assms by (intro Fin_int) simp_all
  have 1: "(Fin (of_int s) - Fin (of_int (s + x))) + Fin (of_int x) = Fin (of_int 0)"
    using assms Fin_int(1) [of "s - (s + x)" x] by (subst Fin_int) simp_all
  have 2: "(Fin (of_int x) - Fin (of_int (s + x))) + Fin (of_int s) = Fin (of_int 0)"
    using assms Fin_int(1) [of "x - (s + x)" s] by (subst Fin_int) simp_all
  have 3: "Fin 0 + Fin (of_int 0) = Fin 0" using Fin_int(1) [of 0 0] by simp
  show ?thesis unfolding flt_sum_from.simps Let_def t 1 2 if_cancel 3 ..
qed

lemma flt_sum_clock:
  assumes "clock_ok h m s"
  shows "flt_sum [Fin (of_int (h * 3600)), Fin (of_int (m * 60)), Fin (of_int s)] = Fin (of_int (3600 * h + 60 * m + s))"
proof -
  have "flt_sum [Fin (of_int (h * 3600)), Fin (of_int (m * 60)), Fin (of_int s)] =
      flt_sum_from (Fin (of_int (0 + h * 3600 + m * 60 + s))) (Fin 0) []"
    using assms flt_sum_int_step [of 0] unfolding flt_sum_def clock_ok_def
    by (subst of_int_0 [symmetric], subst flt_sum_int_step, simp, simp, subst flt_sum_int_step, simp, simp,
        subst flt_sum_int_step, simp_all)
  then show ?thesis by (simp add: algebra_simps)
qed

interpretation float: trace_clock sec_float "\<lambda>n. Fin (of_int n)"
proof unfold_locales
  show "sec_float (clock h m s) = Inr (Fin (of_int (3600 * h + 60 * m + s)))" if ok: "clock_ok h m s" for h m s
  proof -
    have "Fin (of_int h) * Fin (of_int 3600) = Fin (of_int (h * 3600))" "Fin (of_int m) * Fin (of_int 60) = Fin (of_int (m * 60))"
      "Fin (of_int s) * Fin (of_int 1) = Fin (of_int (s * 1))"
      using ok by (intro Fin_int_times; simp add: clock_ok_def)+
    then show ?thesis
      using ok two_py_float flt_sum_clock [OF ok] by (simp add: sec_float_def clock_parts clock_ok_def del: times_flt.simps)
  qed
  show "e = ValueError" if "sec_float t = Inl e" for t e
    using that by (auto simp: sec_float_def res_simps of_option_def dest!: mapE_Inl split: option.splits)
qed

section \<open>Properties\<close>

text \<open>The samples of a trace whose lines are \<open>parts\<close>: printed samples and cut lines.\<close>

definition trace_lines :: "(string + mem_sample) list \<Rightarrow> string list" where
  "trace_lines parts = mem_header # map (case_sum id mem_line) parts"

definition trace_samples :: "(string + mem_sample) list \<Rightarrow> mem_sample list" where
  "trace_samples parts = concat (map (case_sum (\<lambda>l. []) (\<lambda>x. [x])) parts)"

definition trace_ok :: "(string + mem_sample) list \<Rightarrow> bool" where
  "trace_ok parts \<longleftrightarrow> list_all (case_sum (\<lambda>l. length (csv_row l) \<le> 4) sample_ok) parts"

text \<open>
  C35: A trace is charted as it was logged: every sample \<open>memwatch.sh\<close> printed becomes one point, in
  order, with the time since the start of the freeze and its two memory figures, and a line that was cut
  off before the figure of the sockets is left out without stopping the script. This holds for both scripts.
\<close>

theorem trace_charted_as_logged:
  assumes "trace_ok parts" "clock_ok h m s" "sec_float start = Inr t0"
    and "open_lines (src @ ''/'' @ name @ ''.csv'') = Inr (trace_lines parts)"
  shows "load_trace open_lines src name (clock h m s) =
      Inr (map (\<lambda>x. (3600 * hh x + 60 * mm x + ss x - (3600 * h + 60 * m + s), current_mib x, sock_mib x)) (trace_samples parts)) \<and>
    trace_rows sec_float start (dict_reader (trace_lines parts)) =
      Inr (map (\<lambda>x. (Fin (of_int (3600 * hh x + 60 * mm x + ss x)) - t0, current_mib x, sock_mib x)) (trace_samples parts))"
proof -
  have ok: "\<forall>x. Inr x \<in> set parts \<longrightarrow> sample_ok x" "\<forall>l. Inl l \<in> set parts \<longrightarrow> length (csv_row l) \<le> 4"
    using assms(1) by (auto simp: trace_ok_def list_all_iff)
  show ?thesis
    using whole.trace_read [OF whole.sec_clock [OF assms(2)] ok] float.trace_read [OF assms(3) ok] assms(4)
    by (simp only: load_trace_def trace_lines_def trace_samples_def trace_point_def [abs_def] bindE.simps id_apply conj_ac)
qed

definition sample_trace :: "(string + mem_sample) list" where
  "sample_trace = [
     Inr \<lparr>hh = 13, mm = 20, ss = 38, current_mib = 5115, anon_mib = 1371, kernel_mib = 3743, sock_mib = 1, slab_mib = 3731, estab = 1000004\<rparr>,
     Inl ''13:20:39,5114,13'']"

theorem trace_charted_as_logged_witness:
  "load_trace (\<lambda>path. if path = ''d/x.csv'' then Inr (trace_lines sample_trace) else Inl FileNotFoundError) ''d'' ''x'' (clock 13 20 30) =
     Inr [(8, 5115, 1)]"
proof -
  have "trace_ok sample_trace" by (simp add: trace_ok_def sample_trace_def sample_ok_def clock_ok_def) code_simp
  moreover have "clock_ok 13 20 30" by (simp add: clock_ok_def)
  moreover from this have "sec_float (clock 13 20 30) = Inr (Fin (of_int (3600 * 13 + 60 * 20 + 30)))" by (rule float.sec_clock)
  ultimately have "load_trace (\<lambda>path. if path = ''d/x.csv'' then Inr (trace_lines sample_trace) else Inl FileNotFoundError) ''d'' ''x'' (clock 13 20 30) =
     Inr (map (\<lambda>x. (3600 * hh x + 60 * mm x + ss x - (3600 * 13 + 60 * 20 + 30), current_mib x, sock_mib x)) (trace_samples sample_trace))"
    by (rule trace_charted_as_logged [THEN conjunct1]) simp
  then show ?thesis by (simp add: trace_samples_def sample_trace_def)
qed

text \<open>
  The headroom printed on a stall chart starts from a reading taken before the freeze: with \<open>n\<close>
  rows in the window, at least \<open>n div 4 + 1\<close> of those readings are at most it. The lookup raises
  \<open>IndexError\<close> exactly when there are no more than \<open>n div 4\<close> readings before the freeze.
\<close>

lemma stall_headroom:
  "case baseline rows of
     Inl e \<Rightarrow> e = IndexError \<and> length (before_freeze rows) \<le> length rows div 4
   | Inr b \<Rightarrow> b \<in> set (before_freeze rows) \<and>
       length rows div 4 < length (filter (\<lambda>x. x \<le> b) (before_freeze rows))"
proof -
  let ?s = "sort (before_freeze rows)" and ?i = "length rows div 4"
  have "?i < length (filter (\<lambda>x. x \<le> ?s ! ?i) (before_freeze rows))" if i: "?i < length (before_freeze rows)"
  proof -
    have "filter (\<lambda>x. x \<le> ?s ! ?i) (take (Suc ?i) ?s) = take (Suc ?i) ?s"
      unfolding filter_id_conv using i by (auto simp: in_set_conv_nth less_Suc_eq_le intro!: sorted_nth_mono)
    then have "Suc ?i \<le> length (filter (\<lambda>x. x \<le> ?s ! ?i) (take (Suc ?i) ?s)) + length (filter (\<lambda>x. x \<le> ?s ! ?i) (drop (Suc ?i) ?s))"
      using i by simp
    also have "\<dots> = length (filter (\<lambda>x. x \<le> ?s ! ?i) ?s)"
      by (metis append_take_drop_id filter_append length_append)
    also have "\<dots> = length (filter (\<lambda>x. x \<le> ?s ! ?i) (before_freeze rows))"
      by (simp add: filter_sort)
    finally show ?thesis by simp
  qed
  moreover have "?s ! ?i \<in> set (before_freeze rows)" if "?i < length (before_freeze rows)"
    using that nth_mem [of ?i ?s] by simp
  ultimately show ?thesis by (auto simp: baseline_def Let_def split: if_splits)
qed

lemma filter_upto: "filter (\<lambda>k. lo \<le> k \<and> k \<le> hi) [a..b] = [max a lo..min b hi]"
  by (rule sorted_distinct_set_unique) (auto intro: sorted_wrt_filter)

section \<open>The window of a stall test\<close>

text \<open>The times of a test are doubles, and a difference of times near each other is exact.\<close>

lemma flt_sum_double: "is_double s \<Longrightarrow> is_double c \<Longrightarrow> list_all is_double xs \<Longrightarrow> is_double (flt_sum_from s c xs)"
  by (induction s c xs rule: flt_sum_from.induct) (auto simp: Let_def arith_double)

lemma sec_float_double: "sec_float t = Inr x \<Longrightarrow> is_double x"
proof -
  assume "sec_float t = Inr x"
  then obtain xs where xs: "mapE (\<lambda>(p, m). bindE (of_option ValueError (py_float_of p)) (\<lambda>x. Inr (x * Fin m)))
     (zip (split_on (CHR '':'') t) [3600, 60, 1]) = Inr xs" "x = flt_sum xs"
    by (auto simp: sec_float_def bindE_Inr_iff)
  have "is_double y" if y: "y \<in> set xs" for y
  proof -
    obtain p m z where "(p, m) \<in> set (zip (split_on (CHR '':'') t) [3600, 60, 1])" "py_float_of p = Some z" "y = z * Fin m"
      using mapE_member [OF xs(1) y] by (auto simp: bindE_Inr_iff of_option_def split: option.splits)
    moreover from this(1) have "m \<in> set [3600, 60, 1]" by (rule set_zip_rightD)
    then have "is_double (Fin m)" using rnd_int [of 3600] rnd_int [of 60] rnd_int [of 1] by auto
    ultimately show ?thesis using float_is_double by (auto intro: arith_double)
  qed
  then show "is_double x" unfolding xs(2) flt_sum_def by (intro flt_sum_double) (auto simp: list_all_iff)
qed

lemma exact_difference:
  assumes s: "rnd s = s" "0 \<le> s" "s \<le> 2 ^ 52" and n: "0 \<le> n" "of_int n \<le> 2 * s"
  shows "rnd (of_int n - s) = of_int n - s"
proof (cases "s = 0")
  case False
  let ?g = "grid s"
  define m where "m = rhe (s / 2 powi ?g)"
  have m: "s = of_int m * 2 powi ?g" using rnd_rhe [OF False] s(1) by (simp add: m_def)
  have near: "\<bar>of_int n - s\<bar> \<le> s" using s(2) n(2) of_int_0_le_iff [of n, where ?'a = rat] n(1) unfolding abs_le_iff by linarith
  show ?thesis
  proof (cases "0 \<le> ?g")
    case True
    then have "s = of_int (m * 2 ^ nat ?g)" using m by (simp add: power_int_nonneg_exp)
    then have i: "of_int n - s = of_int (n - m * 2 ^ nat ?g)" by simp
    have "\<bar>of_int (n - m * 2 ^ nat ?g) :: rat\<bar> \<le> of_int (2 ^ 53)" using near s(3) unfolding i by simp
    then have "\<bar>n - m * 2 ^ nat ?g\<bar> \<le> 2 ^ 53" by (simp only: of_int_le_iff flip: of_int_abs)
    then show ?thesis unfolding i by (rule rnd_int)
  next
    case False
    then have p: "(of_int (2 ^ nat (- ?g)) :: rat) * 2 powi ?g = 1" by (simp add: power_int_def flip: power_mult_distrib)
    have "(of_int n :: rat) = of_int n * (of_int (2 ^ nat (- ?g)) * 2 powi ?g)" unfolding p by simp
    then have d: "of_int n - s = of_int (n * 2 ^ nat (- ?g) - m) * 2 powi ?g" using m by (simp add: algebra_simps)
    have "\<bar>of_int n - s\<bar> < of_int (2 ^ 53) * 2 powi ?g"
      using near less_grid [of s] s(2) \<open>s \<noteq> 0\<close> by linarith
    then have "\<bar>of_int (n * 2 ^ nat (- ?g) - m) :: rat\<bar> < of_int (2 ^ 53)"
      unfolding d abs_mult by simp
    then have "\<bar>n * 2 ^ nat (- ?g) - m\<bar> \<le> 2 ^ 53" by (simp only: of_int_less_iff flip: of_int_abs)
    then show ?thesis unfolding d by (rule rnd_representable) (simp add: grid_def)
  qed
qed (use n in simp)

definition day_second :: "mem_sample \<Rightarrow> int" where
  "day_second x = 3600 * hh x + 60 * mm x + ss x"

text \<open>Which seconds of the day are in the window of a test that starts at \<open>s\<close>, and which before the freeze.\<close>

definition in_window :: "rat \<Rightarrow> int \<Rightarrow> int \<Rightarrow> bool" where
  "in_window s dur n \<longleftrightarrow> \<lceil>s\<rceil> - 8 \<le> n \<and> n \<le> \<lfloor>s\<rfloor> + dur + 6"

lemma in_window_iff: "in_window s dur n \<longleftrightarrow> s - 8 \<le> of_int n \<and> of_int n \<le> s + of_int dur + 6"
proof -
  have "\<lceil>s\<rceil> - 8 \<le> n \<longleftrightarrow> s \<le> of_int (n + 8)" unfolding ceiling_le_iff [symmetric] by linarith
  moreover have "n \<le> \<lfloor>s\<rfloor> + dur + 6 \<longleftrightarrow> of_int (n - dur - 6) \<le> s" unfolding le_floor_iff [symmetric] by linarith
  ultimately show ?thesis by (auto simp: in_window_def)
qed

lemma offset_window:
  assumes s: "rnd s = s" "s \<le> 2 ^ 52" "of_int dur + 7 \<le> s" and dur: "0 \<le> dur" and n: "0 \<le> n" "n \<le> 2 ^ 52"
  defines "d \<equiv> Fin (of_int n) - Fin s"
  shows "Fin (- 8) \<le> d \<and> d \<le> Fin (of_int (dur + 6)) \<longleftrightarrow> in_window s dur n"
    and "in_window s dur n \<Longrightarrow> d = Fin (of_int n - s)"
proof -
  have d0: "(0 :: rat) \<le> of_int dur" using dur by simp
  have n0: "(0 :: rat) \<le> of_int n" "(of_int n :: rat) \<le> 2 ^ 52"
    using n by simp (metis n(2) of_int_le_iff of_int_numeral of_int_power)
  have "\<bar>of_int n - s\<bar> \<le> 2 ^ 52" using n0 s d0 unfolding abs_le_iff by linarith
  then have d: "d = Fin (rnd (of_int n - s))" unfolding d_def by (simp add: minus_flt_def mk_moderate)
  have "dur + 7 \<le> 2 ^ 53"
  proof -
    have "(of_int (dur + 7) :: rat) \<le> of_int (2 ^ 52)" using s by simp
    then show ?thesis unfolding of_int_le_iff by simp
  qed
  then have r: "rnd (of_int (dur + 7)) = of_int (dur + 7)" using dur by (intro rnd_int) simp
  consider "of_int n \<le> 2 * s" "rnd (of_int n - s) = of_int n - s" | "2 * s < of_int n" "of_int dur + 7 \<le> rnd (of_int n - s)"
  proof (cases "of_int n \<le> 2 * s")
    case True
    then show ?thesis using exact_difference [OF s(1) _ s(2) n(1)] d0 s(3) that(1) by linarith
  next
    case False
    then have "rnd (of_int (dur + 7)) \<le> rnd (of_int n - s)" using s(3) by (intro rnd_mono) simp
    then show ?thesis using False r that(2) by simp
  qed
  then have "(Fin (- 8) \<le> d \<and> d \<le> Fin (of_int (dur + 6)) \<longleftrightarrow> in_window s dur n) \<and> (in_window s dur n \<longrightarrow> d = Fin (of_int n - s))"
    unfolding in_window_iff d using s(3) d0 by cases auto
  then show "Fin (- 8) \<le> d \<and> d \<le> Fin (of_int (dur + 6)) \<longleftrightarrow> in_window s dur n"
    and "in_window s dur n \<Longrightarrow> d = Fin (of_int n - s)" by blast+
qed

text \<open>The rows a trace gives for a test that starts at \<open>s\<close>, and what \<open>stall_window\<close> keeps of them.\<close>

definition rows_from :: "rat \<Rightarrow> mem_sample list \<Rightarrow> (flt \<times> int \<times> int) list" where
  "rows_from s xs = map (\<lambda>x. (Fin (of_int (day_second x)) - Fin s, current_mib x, sock_mib x)) xs"

lemma window_rows:
  assumes s: "rnd s = s" "s \<le> 2 ^ 52" "of_int dur + 7 \<le> s" "0 \<le> dur"
    and xs: "\<forall>x \<in> set xs. 0 \<le> day_second x \<and> day_second x \<le> 2 ^ 52"
  defines "ys \<equiv> filter (\<lambda>x. in_window s dur (day_second x)) xs"
  shows "stall_window dur (rows_from s xs) = map (\<lambda>x. (Fin (of_int (day_second x) - s), current_mib x, sock_mib x)) ys"
    and "before_freeze (stall_window dur (rows_from s xs)) = map current_mib (filter (\<lambda>x. day_second x < \<lceil>s\<rceil>) ys)"
proof -
  note off = offset_window [OF s]
  have "stall_window dur (rows_from s xs) = map (\<lambda>x. (Fin (of_int (day_second x)) - Fin s, current_mib x, sock_mib x)) ys"
    unfolding stall_window_def rows_from_def filter_map comp_def fst_conv ys_def
    using off(1) xs by (intro arg_cong [where f = "map _"] filter_cong) auto
  also have "\<dots> = map (\<lambda>x. (Fin (of_int (day_second x) - s), current_mib x, sock_mib x)) ys"
    using off(2) xs by (intro map_cong) (auto simp: ys_def)
  finally show w: "stall_window dur (rows_from s xs) = map (\<lambda>x. (Fin (of_int (day_second x) - s), current_mib x, sock_mib x)) ys" .
  have "(of_int n - s < 0) = (n < \<lceil>s\<rceil>)" for n by (simp add: less_ceiling_iff)
  then show "before_freeze (stall_window dur (rows_from s xs)) = map current_mib (filter (\<lambda>x. day_second x < \<lceil>s\<rceil>) ys)"
    unfolding w before_freeze_def by (simp add: filter_map comp_def)
qed

text \<open>With one sample per second eight of them are before the freeze, and the window has \<open>dur + 14\<close> or one more.\<close>

lemma window_counts:
  assumes "map day_second xs = [a..b]" "a \<le> \<lceil>s\<rceil> - 8" "\<lfloor>s\<rfloor> + dur + 6 \<le> b" "0 \<le> dur"
  defines "ys \<equiv> filter (\<lambda>x. in_window s dur (day_second x)) xs"
  shows "length (filter (\<lambda>x. day_second x < \<lceil>s\<rceil>) ys) = 8"
    and "int (length ys) = dur + 14 + (if s = of_int \<lfloor>s\<rfloor> then 1 else 0)"
proof -
  have count: "length (filter (\<lambda>x. P (day_second x)) xs) = length (filter P [a..b])" for P
    unfolding assms(1) [symmetric] by (simp add: filter_map comp_def)
  have c: "\<lceil>s\<rceil> = \<lfloor>s\<rfloor> + (if s = of_int \<lfloor>s\<rfloor> then 0 else 1)" by (simp add: ceiling_altdef)
  have "filter (\<lambda>n. n < \<lceil>s\<rceil> \<and> in_window s dur n) [a..b] = filter (\<lambda>n. \<lceil>s\<rceil> - 8 \<le> n \<and> n \<le> \<lceil>s\<rceil> - 1) [a..b]"
    using assms(4) c by (intro filter_cong) (auto simp: in_window_def)
  also have "\<dots> = [\<lceil>s\<rceil> - 8..\<lceil>s\<rceil> - 1]"
  proof -
    have "max a (\<lceil>s\<rceil> - 8) = \<lceil>s\<rceil> - 8" "min b (\<lceil>s\<rceil> - 1) = \<lceil>s\<rceil> - 1" using assms(2-4) c by (auto split: if_splits)
    then show ?thesis by (simp only: filter_upto)
  qed
  also have "length \<dots> = 8" by simp
  finally show "length (filter (\<lambda>x. day_second x < \<lceil>s\<rceil>) ys) = 8"
    unfolding ys_def using count [of "\<lambda>n. n < \<lceil>s\<rceil> \<and> in_window s dur n"] by (simp add: conj_commute)
  have "filter (in_window s dur) [a..b] = [\<lceil>s\<rceil> - 8..\<lfloor>s\<rfloor> + dur + 6]"
    unfolding in_window_def [abs_def] using assms(2,3) by (simp add: filter_upto max_absorb2 min_absorb2)
  then show "int (length ys) = dur + 14 + (if s = of_int \<lfloor>s\<rfloor> then 1 else 0)"
    unfolding ys_def using count [of "in_window s dur"] c assms(4) by simp
qed

lemma foldl_max_in: "foldl max a xs \<in> set (a # xs)"
  for a :: int by (induction xs arbitrary: a) (auto simp: max_def split: if_splits)

definition headroom_title :: "stall_test \<Rightarrow> int \<Rightarrow> string" where
  "headroom_title t base = show_int (seconds t) @ '' s freeze, limit '' @ show_int (limit_mib t) @ '' MiB'' @ [CHR 0x0A] @
     map upper (outcome t) @ ''  (headroom '' @ show_int (limit_mib t - base) @ '' MiB)''"

lemma panel_drawn:
  assumes "baseline (stall_window (seconds t) rows) = Inr base" "stall_window (seconds t) rows \<noteq> []"
    and "\<forall>r \<in> set rows. \<bar>fst (snd r)\<bar> \<le> 2 ^ 53" "\<bar>limit_mib t\<bar> \<le> 2 ^ 53"
  shows "\<exists>p. stall_panel_of t rows = Inr p \<and>
    memory_line p = map (\<lambda>(s, total, sock). (s, total)) (stall_window (seconds t) rows) \<and>
    panel_title p = headroom_title t base"
proof -
  obtain r rs where rs: "stall_window (seconds t) rows = r # rs" using assms(2) by (cases "stall_window (seconds t) rows") auto
  have sub: "set (r # rs) \<subseteq> set rows" unfolding rs [symmetric] stall_window_def by auto
  let ?m = "foldl max (fst (snd r)) (map (fst \<circ> snd) rs)"
  have "?m \<in> (fst \<circ> snd) ` set (r # rs)" using foldl_max_in [of "fst (snd r)" "map (fst \<circ> snd) rs"] by auto
  then obtain q where "q \<in> set (r # rs)" "?m = (fst \<circ> snd) q" by blast
  then have "\<bar>?m\<bar> \<le> 2 ^ 53" using sub assms(3) by (simp only: comp_apply) blast
  then have "\<bar>max (limit_mib t) ?m\<bar> \<le> 2 ^ 53" using assms(4) by (simp add: max_def)
  from mk_int [OF this] have "to_float (PInt (max (limit_mib t) ?m)) = Inr (Fin (of_int (max (limit_mib t) ?m)))"
    by (simp del: of_int_max)
  then show ?thesis unfolding stall_panel_of_def Let_def assms(1) headroom_title_def unfolding rs by (simp del: to_float.simps)
qed

section \<open>Which stall tests can be drawn\<close>

text \<open>The readings before a freeze at \<open>s\<close>, the points of the chart, and the index the script looks up.\<close>

definition readings_before :: "rat \<Rightarrow> mem_sample list \<Rightarrow> int list" where
  "readings_before s xs = map current_mib (filter (\<lambda>x. s - 8 \<le> of_int (day_second x) \<and> of_int (day_second x) < s) xs)"

definition charted :: "rat \<Rightarrow> int \<Rightarrow> mem_sample list \<Rightarrow> (flt \<times> int) list" where
  "charted s dur xs = map (\<lambda>x. (Fin (of_int (day_second x) - s), current_mib x))
     (filter (\<lambda>x. s - 8 \<le> of_int (day_second x) \<and> of_int (day_second x) \<le> s + of_int dur + 6) xs)"

definition headroom_rank :: "rat \<Rightarrow> int \<Rightarrow> int" where
  "headroom_rank s dur = (dur + 14 + (if s = of_int \<lfloor>s\<rfloor> then 1 else 0)) div 4"

lemma steady_baseline:
  assumes s: "rnd s = s" "of_int a + 8 \<le> s" "s + of_int dur + 6 \<le> of_int b" "0 \<le> dur" "of_int dur + 7 \<le> s"
    and xs: "map day_second xs = [a..b]" "\<forall>x \<in> set xs. 0 \<le> day_second x \<and> day_second x < 86400"
  shows "length (readings_before s xs) = 8" "stall_window dur (rows_from s xs) \<noteq> []"
    and "baseline (stall_window dur (rows_from s xs)) = (if headroom_rank s dur < 8
      then Inr (sort (readings_before s xs) ! nat (headroom_rank s dur)) else Inl IndexError)"
    and "map (\<lambda>(s, total, sock). (s, total)) (stall_window dur (rows_from s xs)) = charted s dur xs"
proof -
  let ?ys = "filter (\<lambda>x. in_window s dur (day_second x)) xs" and ?w = "stall_window dur (rows_from s xs)"
  have ab: "a \<le> \<lceil>s\<rceil> - 8" "\<lfloor>s\<rfloor> + dur + 6 \<le> b" using s(2,3) by linarith+
  then have "b \<in> set (map day_second xs)" unfolding xs(1) using s(4) by simp linarith
  then have "(of_int b :: rat) \<le> of_int 86400" unfolding of_int_le_iff using xs(2) by auto
  then have s52: "s \<le> 2 ^ 52" using s(3,4) of_int_0_le_iff [of dur, where ?'a = rat] by simp
  have small: "\<forall>x \<in> set xs. 0 \<le> day_second x \<and> day_second x \<le> 2 ^ 52" using xs(2) by fastforce
  note win = window_rows [OF s(1) s52 s(5,4) small] and cnt = window_counts [OF xs(1) ab s(4)]
  have "readings_before s xs = map current_mib (filter (\<lambda>x. day_second x < \<lceil>s\<rceil>) ?ys)"
    unfolding readings_before_def filter_filter
    using s(4) by (intro arg_cong [where f = "map _"] filter_cong) (auto simp: in_window_iff less_ceiling_iff)
  then have R: "before_freeze ?w = readings_before s xs" "length (readings_before s xs) = 8" using win(2) cnt(1) by simp_all
  then show "length (readings_before s xs) = 8" by simp
  have rank: "int (length ?w div 4) = headroom_rank s dur" unfolding win(1) zdiv_int headroom_rank_def using cnt(2) by simp
  then have "length ?w div 4 = nat (headroom_rank s dur)" "length ?w div 4 < 8 \<longleftrightarrow> headroom_rank s dur < 8" by linarith+
  then show "baseline ?w = (if headroom_rank s dur < 8
      then Inr (sort (readings_before s xs) ! nat (headroom_rank s dur)) else Inl IndexError)"
    by (simp add: baseline_def R Let_def)
  show "?w \<noteq> []" using R by (auto simp: before_freeze_def)
  show "map (\<lambda>(s, total, sock). (s, total)) ?w = charted s dur xs"
    unfolding win(1) charted_def in_window_iff by (simp add: comp_def)
qed

text \<open>
  C31: For a trace of \<open>memwatch.sh\<close> with one sample per second around the freeze, and any phase of its start
  within the second, the chart of a stall test has the samples from 8 s before the freeze to 6 s after its
  end, and its headroom is the limit less one of the eight readings before the freeze, by rank: the rank is a
  quarter of the number of rows of the whole window, so it depends on the length of the test. For a start
  between two full seconds it is 4 in a test of 5 s and 7, the largest of the eight, in one of 14 s. From 18 s on there is no such reading and the
  script raises \<open>IndexError\<close>.
\<close>

theorem stall_headroom_rank:
  assumes trace: "trace_ok parts" "map day_second (trace_samples parts) = [a..b]"
      "\<forall>x \<in> set (trace_samples parts). \<bar>current_mib x\<bar> \<le> 2 ^ 53"
    and start: "sec_float (freeze_start t) = Inr (Fin s)" "of_int a + 8 \<le> s" "s + of_int (seconds t) + 6 \<le> of_int b"
    and test: "0 \<le> seconds t" "of_int (seconds t) + 7 \<le> s" "\<bar>limit_mib t\<bar> \<le> 2 ^ 53"
  shows "length (readings_before s (trace_samples parts)) = 8 \<and>
    (case bindE (trace_rows sec_float (freeze_start t) (dict_reader (trace_lines parts))) (stall_panel_of t) of
       Inl e \<Rightarrow> 8 \<le> headroom_rank s (seconds t) \<and> e = IndexError
     | Inr p \<Rightarrow> headroom_rank s (seconds t) < 8 \<and>
         panel_title p = headroom_title t (sort (readings_before s (trace_samples parts)) ! nat (headroom_rank s (seconds t))) \<and>
         memory_line p = charted s (seconds t) (trace_samples parts))"
proof -
  let ?xs = "trace_samples parts" and ?rank = "headroom_rank s (seconds t)"
  have secs: "\<forall>x \<in> set ?xs. 0 \<le> day_second x \<and> day_second x < 86400"
    using trace(1) by (auto simp: trace_ok_def trace_samples_def list_all_iff sample_ok_def clock_ok_def day_second_def split: sum.splits)
  have ok: "\<forall>x. Inr x \<in> set parts \<longrightarrow> sample_ok x" "\<forall>l. Inl l \<in> set parts \<longrightarrow> length (csv_row l) \<le> 4"
    using trace(1) by (auto simp: trace_ok_def list_all_iff)
  have rows: "trace_rows sec_float (freeze_start t) (dict_reader (trace_lines parts)) = Inr (rows_from s ?xs)"
    using float.trace_read [OF start(1) ok]
    by (simp add: trace_lines_def trace_samples_def trace_point_def [abs_def] rows_from_def day_second_def)
  have "rnd s = s" using sec_float_double [OF start(1)] by simp
  note base = steady_baseline [OF this start(2,3) test(1,2) trace(2) secs]
  show ?thesis
  proof (cases "?rank < 8")
    case True
    have "\<forall>r \<in> set (rows_from s ?xs). \<bar>fst (snd r)\<bar> \<le> 2 ^ 53" using trace(3) by (simp add: rows_from_def)
    from panel_drawn [OF _ base(2) this test(3)] base(3) True obtain p where
      "stall_panel_of t (rows_from s ?xs) = Inr p" "memory_line p = charted s (seconds t) ?xs"
      "panel_title p = headroom_title t (sort (readings_before s ?xs) ! nat ?rank)"
      unfolding base(4) by auto
    then show ?thesis using base(1) True by (simp add: rows)
  next
    case False
    then have "stall_panel_of t (rows_from s ?xs) = Inl IndexError" by (simp add: stall_panel_of_def Let_def base(3))
    then show ?thesis using base(1) False by (simp add: rows)
  qed
qed

text \<open>
  The longest test of the script, 14 s from 14:57:31.2, and one of 20 s with the same start, on a trace that
  grows by 1 MiB per second: the first is drawn, the second is not.
\<close>

definition rising_trace :: "(string + mem_sample) list" where
  "rising_trace = map (\<lambda>n. Inr \<lparr>hh = 14, mm = 57, ss = n, current_mib = 5000 + n, anon_mib = 1371, kernel_mib = 3743,
     sock_mib = 1, slab_mib = 3731, estab = 1000004\<rparr>) [20..59]"

definition long_test :: stall_test where
  "long_test = (TESTS ! 4)\<lparr>seconds := 20\<rparr>"

theorem stall_headroom_rank_witness:
  "\<exists>rows p. trace_rows sec_float (freeze_start (TESTS ! 4)) (dict_reader (trace_lines rising_trace)) = Inr rows \<and>
    stall_panel_of (TESTS ! 4) rows = Inr p \<and> stall_panel_of long_test rows = Inl IndexError"
proof -
  have start: "freeze_start (TESTS ! 4) = ''14:57:31.2''" "seconds (TESTS ! 4) = 14" "limit_mib (TESTS ! 4) = 7168"
    by (simp_all add: TESTS_def)
  have "case sec_float ''14:57:31.2'' of Inr (Fin s) \<Rightarrow> 53851 < s \<and> s < 53852 | _ \<Rightarrow> False" by code_simp
  then obtain s where s: "sec_float ''14:57:31.2'' = Inr (Fin s)" "53851 < s" "s < 53852" by (auto split: sum.splits flt.splits)
  have f: "\<lfloor>s\<rfloor> = 53851" using s(2,3) by (intro floor_unique) simp_all
  have xs: "trace_samples rising_trace = map (\<lambda>n. \<lparr>hh = 14, mm = 57, ss = n, current_mib = 5000 + n, anon_mib = 1371,
      kernel_mib = 3743, sock_mib = 1, slab_mib = 3731, estab = 1000004\<rparr>) [20..59]"
    by (simp add: trace_samples_def rising_trace_def comp_def concat_map_singleton)
  have ok: "trace_ok rising_trace" by (auto simp: trace_ok_def rising_trace_def list_all_iff sample_ok_def clock_ok_def)
  have secs: "map day_second (trace_samples rising_trace) = [53840..53879]"
    unfolding xs by (simp add: comp_def day_second_def upto.simps)
  have big: "\<forall>x \<in> set (trace_samples rising_trace). \<bar>current_mib x\<bar> \<le> 2 ^ 53" unfolding xs by auto
  note both = stall_headroom_rank [OF ok secs big, where s = s]
  show ?thesis
    using both [of "TESTS ! 4"] both [of long_test] s(2,3)
    by (auto simp: start long_test_def s(1) f headroom_rank_def bindE_Inr_iff split: sum.splits)
qed

end
