(* ===== verification/RunCharts.thy ===== *)
theory RunCharts
  imports Export StallCharts Json
begin

text \<open>
  The charts of a run, \<open>scripts/evidence/plot_run.py\<close>: the overview of the whole run and the zoom on one
  kill, as the data, lines and labels handed to the plotting library, with the files it saves. A time is
  the instant in microseconds since the epoch. \<open>strptime\<close> with the format of the sampler's times is the
  argument \<open>parse_local\<close>. Colours, fonts, sizes and line styles are left out.
\<close>

section \<open>Times of the day\<close>

text \<open>The 30th of September 2026, in days since the epoch.\<close>

definition day :: int where "day = 20726"

definition c_int :: "int \<Rightarrow> bool" where
  "c_int i = (- 2147483648 \<le> i \<and> i \<le> 2147483647)"

definition hms :: "string \<Rightarrow> int res" where
  "hms s =
     (case map py_int_of (split_on (CHR '':'') s) of
        [Some h, Some m, Some sec] \<Rightarrow>
          if \<not> (c_int h \<and> c_int m \<and> c_int sec) then Inl OverflowError
          else if \<not> clock_ok h m sec then Inl ValueError
          else Inr ((day * 86400 + 3600 * h + 60 * m + sec) * 1000000 - IST_US)
      | _ \<Rightarrow> Inl ValueError)"

definition KILLS :: "(string \<times> string) list" where
  "KILLS = [
    (''10:31:18'', ''OOM kill 1'' @ [CHR 0x0A] @ ''30 s CPU profile'' @ [CHR 0x0A] @ ''(unintended)''),
    (''11:07:51'', ''OOM kill 2'' @ [CHR 0x0A] @ ''30 s CPU profile'' @ [CHR 0x0A] @ ''(unintended)''),
    (''11:33:53'', ''OOM kill 3'' @ [CHR 0x0A] @ ''30 s CPU profile'' @ [CHR 0x0A] @ ''(on purpose)'')]"

section \<open>The overview\<close>

text \<open>\<open>float(r[k]) if r[k] else nan\<close>.\<close>

definition float_or_nan :: "string \<Rightarrow> csv_cells \<Rightarrow> flt res" where
  "float_or_nan k row = bindE (sub row k) (\<lambda>c. case c of
     None \<Rightarrow> Inr NaN
   | Some s \<Rightarrow> if s = [] then Inr NaN else of_option ValueError (py_float_of s))"

text \<open>\<open>max(x, 1e-3) if x == x else nan\<close>, so that the logarithmic axis has no zero.\<close>

definition clamp_ms :: "flt \<Rightarrow> flt" where
  "clamp_ms x = (if x = NaN then NaN else if x < mk (1 / 1000) then mk (1 / 1000) else x)"

record overview =
  held_line :: "(int \<times> flt) list"
  container_mem :: "(int \<times> flt) list"
  container_limit :: int
  guard_line :: flt
  p99_line :: "(int \<times> flt) list"
  kill_lines :: "int list"
  kill_labels :: "(string \<times> int) list"
  held_top :: flt
  memory_top :: int

definition overview_of :: "(string option \<Rightarrow> int res) \<Rightarrow> pyval \<Rightarrow> csv_cells list \<Rightarrow> overview res" where
  "overview_of parse_local series rows =
     bindE (mapE (\<lambda>r. bindE (sub r ''local'') parse_local) rows) (\<lambda>st.
     bindE (mapE (float_or_nan ''container_mem_mib'') rows) (\<lambda>cont.
     bindE (get_series series ''server_connections_active'') (\<lambda>(t, v).
     bindE (get_series series ''echo_latency_p99_seconds_30s'') (\<lambda>(t2, v2).
     bindE (mapE (\<lambda>(k, label). hms k) KILLS) (\<lambda>kills.
     Inr \<lparr>held_line = zip t (map (\<lambda>x. fdiv x (Fin 1000000)) v),
          container_mem = zip st cont, container_limit = 6144, guard_line = Fin 6144 * mk (9 / 10),
          p99_line = zip t2 (map clamp_ms v2), kill_lines = kills,
          kill_labels = zip (map snd KILLS) kills, held_top = mk (11 / 10), memory_top = 6800\<rparr>)))))"

section \<open>The zoom on the third kill\<close>

text \<open>\<open>lo <= r["local"] <= hi\<close> on strings; a missing cell is \<open>None\<close>, which does not compare.\<close>

definition between :: "string \<Rightarrow> string \<Rightarrow> csv_cells \<Rightarrow> bool res" where
  "between lo hi row = bindE (sub row ''local'') (\<lambda>c. case c of
     None \<Rightarrow> Inl TypeError | Some s \<Rightarrow> Inr (lo \<le> s \<and> s \<le> hi))"

definition local_hms :: "csv_cells \<Rightarrow> int res" where
  "local_hms row = bindE (sub row ''local'') (\<lambda>c. case c of None \<Rightarrow> Inl AttributeError | Some s \<Rightarrow> hms s)"

record zoom =
  zoom_total :: "(int \<times> int) list"
  zoom_anon :: "(int \<times> int) list"
  zoom_sock :: "(int \<times> int) list"
  zoom_kernel :: "(int \<times> int) list"
  zoom_limit :: int
  profile_start :: int
  zoom_notes :: "(string \<times> int \<times> int) list"
  zoom_estab :: "(int \<times> flt) list"

definition zoom_of :: "csv_cells list \<Rightarrow> zoom res" where
  "zoom_of rows =
     bindE (filterE (between ''11:33:20'' ''11:34:12'') rows) (\<lambda>mw.
     bindE (mapE local_hms mw) (\<lambda>x.
     bindE (mapE (int_cell ''current_mib'') mw) (\<lambda>total.
     bindE (mapE (int_cell ''anon_mib'') mw) (\<lambda>anon.
     bindE (mapE (int_cell ''sock_mib'') mw) (\<lambda>sock.
     bindE (mapE (int_cell ''kernel_mib'') mw) (\<lambda>kernel.
     bindE (case x of [] \<Rightarrow> Inl IndexError | t # ts \<Rightarrow> Inr t) (\<lambda>left.
     bindE (hms ''11:33:39'') (\<lambda>profile.
     bindE (mapE (\<lambda>r. bindE (int_cell ''estab'' r) (\<lambda>n. num_div (PInt n) (PInt 1000000))) mw) (\<lambda>est.
     Inr \<lparr>zoom_total = zip x total, zoom_anon = zip x anon, zoom_sock = zip x sock, zoom_kernel = zip x kernel,
          zoom_limit = 6144, profile_start = profile,
          zoom_notes = [(''limit 6,144 MiB'', left, 6180), ('' 30 s CPU profile starts'', profile, 4200)],
          zoom_estab = zip x est\<rparr>)))))))))"

text \<open>The labels of the two figures, from top to bottom, their legends and titles.\<close>

definition OVERVIEW_LABELS :: "string list" where
  "OVERVIEW_LABELS = [''connections held by'' @ [CHR 0x0A] @ ''the server (millions)'', ''MiB'', ''echo p99 (s), log'']"

definition OVERVIEW_LEGEND :: "string list" where
  "OVERVIEW_LEGEND = [''server container memory (cgroup)'', ''container limit 6,144 MiB'', ''admission guard (90%) 5,530 MiB'']"

definition ZOOM_LABELS :: "string list" where
  "ZOOM_LABELS = [''MiB'', ''established sockets (millions)'']"

definition ZOOM_LEGEND :: "string list" where
  "ZOOM_LEGEND = [''container total'', ''anon (Go heap)'', ''sock (socket buffers)'', ''kernel (slab)'']"

definition OVERVIEW_TITLE :: string where
  "OVERVIEW_TITLE = ''Mumbai run: 1,000,000 connections on one m7i-flex.large (6 GiB container), three OOM kills, each during a 30 s CPU profile''"

definition ZOOM_TITLE :: string where
  "ZOOM_TITLE = ''Third kill, 1 s resolution: socket-buffer memory grows ~130 MiB/s while the CPU profile runs''"

text \<open>
  The script: each figure is saved when it is drawn, and the line is printed last. \<open>open_text\<close> gives the text
  of a file, \<open>open_lines\<close> its lines.
\<close>

definition plot_run ::
  "(string option \<Rightarrow> int res) \<Rightarrow> (string \<Rightarrow> string res) \<Rightarrow> (string \<Rightarrow> string list res) \<Rightarrow> string list \<Rightarrow>
     (overview figure \<times> zoom figure \<times> string) res" where
  "plot_run parse_local open_text open_lines argv =
     bindE (script_args 4 argv) (\<lambda>args.
     let prom_path = args ! 0; sampler_path = args ! 1; memwatch_path = args ! 2; out = args ! 3 in
     bindE (open_text prom_path) (\<lambda>t. bindE (json_loads t) (\<lambda>doc. bindE (item_key ''series'' doc) (\<lambda>series.
     bindE (open_lines sampler_path) (\<lambda>sampler_lines.
     bindE (overview_of parse_local series (dict_reader sampler_lines)) (\<lambda>o1.
     bindE (open_lines memwatch_path) (\<lambda>trace.
     bindE (zoom_of (dict_reader trace)) (\<lambda>z.
     Inr (\<lparr>fig_title = OVERVIEW_TITLE, y_labels = OVERVIEW_LABELS, legend = OVERVIEW_LEGEND,
            x_label = ''time, IST (UTC+05:30), 2026-09-30'', panels = [o1], saved_as = out @ ''/timeline_overview_IST.png''\<rparr>,
          \<lparr>fig_title = ZOOM_TITLE, y_labels = ZOOM_LABELS, legend = ZOOM_LEGEND,
            x_label = ''time, IST, 1 s samples'', panels = [z], saved_as = out @ ''/third_kill_1hz_IST.png''\<rparr>,
          ''charts written to '' @ out)))))))))"

section \<open>The order of printed times\<close>

lemma two_chars: "0 \<le> d \<Longrightarrow> d < 100 \<Longrightarrow> two d = [digit_char (d div 10), digit_char (d mod 10)]"
proof -
  have "list_all (\<lambda>d. two d = [digit_char (d div 10), digit_char (d mod 10)]) [0..99]" unfolding two_def by code_simp
  then show "0 \<le> d \<Longrightarrow> d < 100 \<Longrightarrow> ?thesis" by (simp add: list_all_iff)
qed

lemma digit_less: "0 \<le> a \<Longrightarrow> a < 10 \<Longrightarrow> 0 \<le> b \<Longrightarrow> b < 10 \<Longrightarrow> digit_char a < digit_char b \<longleftrightarrow> a < b"
proof -
  have "list_all (\<lambda>a. list_all (\<lambda>b. digit_char a < digit_char b \<longleftrightarrow> a < b) [0..9]) [0..9]" by code_simp
  then show "0 \<le> a \<Longrightarrow> a < 10 \<Longrightarrow> 0 \<le> b \<Longrightarrow> b < 10 \<Longrightarrow> ?thesis" by (simp add: list_all_iff)
qed

lemma digit_eq: "0 \<le> a \<Longrightarrow> a < 10 \<Longrightarrow> 0 \<le> b \<Longrightarrow> b < 10 \<Longrightarrow> digit_char a = digit_char b \<longleftrightarrow> a = b"
proof
  assume d: "0 \<le> a" "a < 10" "0 \<le> b" "b < 10" "digit_char a = digit_char b"
  have "a = digit_val (digit_char a)" by (rule digit_char_val [OF d(1,2), symmetric])
  also have "\<dots> = b" unfolding d(5) by (rule digit_char_val [OF d(3,4)])
  finally show "a = b" .
qed simp

lemma two_le:
  assumes "0 \<le> a" "a < 100" "0 \<le> b" "b < 100"
  shows "two a @ xs \<le> two b @ ys \<longleftrightarrow> a < b \<or> a = b \<and> xs \<le> ys"
proof -
  have "two a @ xs \<le> two b @ ys \<longleftrightarrow>
      a div 10 < b div 10 \<or> a div 10 = b div 10 \<and> (a mod 10 < b mod 10 \<or> a mod 10 = b mod 10 \<and> xs \<le> ys)"
    using assms by (simp add: two_chars digit_less digit_eq)
  moreover have "p < p' \<or> p = p' \<and> q < q' \<longleftrightarrow> 10 * p + q < 10 * p' + q'" "p = p' \<and> q = q' \<longleftrightarrow> 10 * p + q = 10 * p' + q'"
    if "0 \<le> q" "q < 10" "0 \<le> q'" "q' < 10" for p q p' q' :: int
    using that by (cases p p' rule: linorder_cases; auto)+
  from this [of "a mod 10" "b mod 10" "a div 10" "b div 10"]
  have "a div 10 < b div 10 \<or> a div 10 = b div 10 \<and> a mod 10 < b mod 10 \<longleftrightarrow> a < b"
    "a div 10 = b div 10 \<and> a mod 10 = b mod 10 \<longleftrightarrow> a = b"
    by simp_all
  ultimately show ?thesis by blast
qed

text \<open>Comparing the texts compares the times, because every part has two digits.\<close>

lemma clock_le:
  assumes "clock_ok h m s" "clock_ok h' m' s'"
  shows "clock h m s \<le> clock h' m' s' \<longleftrightarrow> 3600 * h + 60 * m + s \<le> 3600 * h' + 60 * m' + s'"
proof -
  have "clock h m s \<le> clock h' m' s' \<longleftrightarrow> h < h' \<or> h = h' \<and> (m < m' \<or> m = m' \<and> s \<le> s')"
    using assms two_le [of s s' "[]" "[]"] by (simp add: clock_def clock_ok_def two_le) auto
  then show ?thesis using assms by (auto simp: clock_ok_def)
qed

lemma hms_clock: "clock_ok h m s \<Longrightarrow> hms (clock h m s) = Inr ((day * 86400 + 3600 * h + 60 * m + s) * 1000000 - IST_US)"
  by (simp add: hms_def clock_parts two_py_int clock_ok_def c_int_def)

section \<open>The rows of a printed trace\<close>

definition instant :: "mem_sample \<Rightarrow> int" where
  "instant x = (day * 86400 + 3600 * hh x + 60 * mm x + ss x) * 1000000 - IST_US"

definition printed_row :: "mem_sample \<Rightarrow> csv_cells" where
  "printed_row x = dict_row (csv_row mem_header) (csv_row (mem_line x))"

lemma printed_rows: "list_all sample_ok xs \<Longrightarrow> dict_reader (mem_header # map mem_line xs) = map printed_row xs"
proof (induction xs)
  case (Cons x xs)
  then have "csv_row (mem_line x) \<noteq> []" by (simp add: mem_line_row)
  then show ?case using Cons by (simp add: printed_row_def)
qed simp

lemma printed_cells:
  assumes "sample_ok x"
  shows "sub (printed_row x) ''local'' = Inr (Some (clock (hh x) (mm x) (ss x)))"
    "int_cell ''current_mib'' (printed_row x) = Inr (current_mib x)" "int_cell ''anon_mib'' (printed_row x) = Inr (anon_mib x)"
    "int_cell ''kernel_mib'' (printed_row x) = Inr (kernel_mib x)" "int_cell ''sock_mib'' (printed_row x) = Inr (sock_mib x)"
    "int_cell ''estab'' (printed_row x) = Inr (estab x)"
proof -
  let ?H = "csv_row mem_header"
  have H: "distinct ?H" unfolding mem_header_row by simp
  note row = mem_line_row [OF assms] and cell = int_cell_shown [OF H]
  show "sub (printed_row x) ''local'' = Inr (Some (clock (hh x) (mm x) (ss x)))"
    using dict_row_cell [OF H, of 0 "csv_row (mem_line x)"] by (simp add: printed_row_def row mem_header_row)
  show "int_cell ''current_mib'' (printed_row x) = Inr (current_mib x)"
    unfolding printed_row_def row by (rule cell [of 1]) (simp_all add: mem_header_row)
  show "int_cell ''anon_mib'' (printed_row x) = Inr (anon_mib x)"
    unfolding printed_row_def row by (rule cell [of 2]) (simp_all add: mem_header_row)
  show "int_cell ''kernel_mib'' (printed_row x) = Inr (kernel_mib x)"
    unfolding printed_row_def row by (rule cell [of 3]) (simp_all add: mem_header_row)
  show "int_cell ''sock_mib'' (printed_row x) = Inr (sock_mib x)"
    unfolding printed_row_def row by (rule cell [of 4]) (simp_all add: mem_header_row)
  show "int_cell ''estab'' (printed_row x) = Inr (estab x)"
    unfolding printed_row_def row by (rule cell [of 6]) (simp_all add: mem_header_row)
qed

definition in_zoom :: "mem_sample \<Rightarrow> bool" where
  "in_zoom x \<longleftrightarrow> 41600 \<le> 3600 * hh x + 60 * mm x + ss x \<and> 3600 * hh x + 60 * mm x + ss x \<le> 41652"

lemma between_printed: "sample_ok x \<Longrightarrow> between ''11:33:20'' ''11:34:12'' (printed_row x) = Inr (in_zoom x)"
proof -
  assume x: "sample_ok x"
  have c: "''11:33:20'' = clock 11 33 20" "''11:34:12'' = clock 11 34 12" by code_simp+
  show ?thesis
    using x clock_le [of 11 33 20 "hh x" "mm x" "ss x"] clock_le [of "hh x" "mm x" "ss x" 11 34 12]
    unfolding c by (simp add: between_def printed_cells sample_ok_def in_zoom_def) (simp add: clock_ok_def)
qed

lemma filterE_map: "(\<And>x. x \<in> set xs \<Longrightarrow> p (f x) = Inr (q x)) \<Longrightarrow> filterE p (map f xs) = Inr (map f (filter q xs))"
  by (induction xs) auto

section \<open>Properties\<close>

text \<open>
  C36: The zoom shows the window: for a trace printed by \<open>memwatch.sh\<close> the comparison of the times as
  texts selects exactly the samples from 11:33:20 to 11:34:12, and each curve has one point per such sample,
  at its instant and with its figure.
\<close>

theorem zoom_shows_the_window:
  assumes "list_all sample_ok xs" "\<forall>x \<in> set xs. \<bar>estab x\<bar> \<le> 2 ^ 53" "filter in_zoom xs \<noteq> []"
  shows "\<exists>z. zoom_of (dict_reader (mem_header # map mem_line xs)) = Inr z \<and>
    zoom_total z = map (\<lambda>x. (instant x, current_mib x)) (filter in_zoom xs) \<and>
    zoom_anon z = map (\<lambda>x. (instant x, anon_mib x)) (filter in_zoom xs) \<and>
    zoom_sock z = map (\<lambda>x. (instant x, sock_mib x)) (filter in_zoom xs) \<and>
    zoom_kernel z = map (\<lambda>x. (instant x, kernel_mib x)) (filter in_zoom xs) \<and>
    map fst (zoom_estab z) = map instant (filter in_zoom xs)"
proof -
  let ?w = "filter in_zoom xs"
  have ok: "sample_ok x" if "x \<in> set ?w" for x using assms(1) that by (auto simp: list_all_iff)
  have w: "filterE (between ''11:33:20'' ''11:34:12'') (map printed_row xs) = Inr (map printed_row ?w)"
    using assms(1) by (intro filterE_map) (auto simp: list_all_iff between_printed)
  have "local_hms (printed_row x) = Inr (instant x)" if "sample_ok x" for x
    using that by (simp add: local_hms_def printed_cells hms_clock sample_ok_def instant_def)
  then have t: "mapE local_hms (map printed_row ?w) = Inr (map instant ?w)"
    using ok by (intro mapE_map) blast
  have "hms ''11:33:39'' = hms (clock 11 33 39)" by (rule arg_cong [where f = hms]) code_simp
  then have p: "hms ''11:33:39'' = Inr ((day * 86400 + 41619) * 1000000 - IST_US)"
    using hms_clock [of 11 33 39] by (simp add: clock_ok_def)
  have "bindE (int_cell ''estab'' (printed_row x)) (\<lambda>n. num_div (PInt n) (PInt 1000000)) = Inr (Fin (rnd (of_int (estab x) / 1000000)))"
    if "x \<in> set ?w" for x
  proof -
    have e: "\<bar>estab x\<bar> \<le> 2 ^ 53" using assms(2) that by simp
    have "\<bar>of_int (estab x) :: rat\<bar> = of_int \<bar>estab x\<bar>" by simp
    also have "\<dots> \<le> of_int (2 ^ 53)" using e by (simp only: of_int_le_iff)
    finally have "\<bar>of_int (estab x) / 1000000 :: rat\<bar> \<le> 2 ^ 53" by simp
    then show ?thesis using printed_cells(6) [OF ok [OF that]] mk_moderate by simp
  qed
  then have e: "mapE (\<lambda>r. bindE (int_cell ''estab'' r) (\<lambda>n. num_div (PInt n) (PInt 1000000))) (map printed_row ?w) =
      Inr (map (\<lambda>x. Fin (rnd (of_int (estab x) / 1000000))) ?w)"
    by (rule mapE_map)
  have c: "mapE (int_cell ''current_mib'') (map printed_row ?w) = Inr (map current_mib ?w)"
    "mapE (int_cell ''anon_mib'') (map printed_row ?w) = Inr (map anon_mib ?w)"
    "mapE (int_cell ''sock_mib'') (map printed_row ?w) = Inr (map sock_mib ?w)"
    "mapE (int_cell ''kernel_mib'') (map printed_row ?w) = Inr (map kernel_mib ?w)"
    using ok by (intro mapE_map; simp add: printed_cells)+
  obtain y ys where y: "map instant ?w = y # ys" using assms(3) by (cases ?w) auto
  have z: "zip (map instant ?w) (map f ?w) = map (\<lambda>x. (instant x, f x)) ?w" for f :: "mem_sample \<Rightarrow> 'b"
    by (simp add: zip_map_map zip_same_conv_map)
  show ?thesis
    unfolding zoom_of_def printed_rows [OF assms(1)] w t c p e y bindE.simps list.case
    by (simp flip: y add: z comp_def)
qed

definition kill_trace :: "mem_sample list" where
  "kill_trace = [
     \<lparr>hh = 11, mm = 33, ss = 19, current_mib = 5100, anon_mib = 1371, kernel_mib = 3743, sock_mib = 1, slab_mib = 3731, estab = 1000004\<rparr>,
     \<lparr>hh = 11, mm = 33, ss = 20, current_mib = 5230, anon_mib = 1372, kernel_mib = 3743, sock_mib = 131, slab_mib = 3731, estab = 1000003\<rparr>]"

theorem zoom_shows_the_window_witness:
  "\<exists>z. zoom_of (dict_reader (mem_header # map mem_line kill_trace)) = Inr z \<and>
    zoom_total z = [((day * 86400 + 41600) * 1000000 - IST_US, 5230)]"
proof -
  have "list_all sample_ok kill_trace" "\<forall>x \<in> set kill_trace. \<bar>estab x\<bar> \<le> 2 ^ 53"
    by (simp_all add: kill_trace_def sample_ok_def clock_ok_def)
  moreover have f: "filter in_zoom kill_trace = [kill_trace ! 1]" by (simp add: kill_trace_def in_zoom_def)
  ultimately obtain z where "zoom_of (dict_reader (mem_header # map mem_line kill_trace)) = Inr z"
    "zoom_total z = map (\<lambda>x. (instant x, current_mib x)) (filter in_zoom kill_trace)"
    using zoom_shows_the_window [of kill_trace] by auto
  then show ?thesis unfolding f by (simp add: kill_trace_def instant_def)
qed

text \<open>
  The overview is drawn in full and can be drawn: it has one point of container memory per row of the
  sampler, the connections and the latency have one point per value exported, and every latency is at
  least a millisecond or not a number, so the logarithmic axis never meets zero or a negative value.
\<close>

lemma overview_complete:
  assumes "overview_of parse_local series rows = Inr v"
  shows "length (container_mem v) = length rows \<and>
    (\<exists>ts vs. get_series series ''server_connections_active'' = Inr (ts, vs) \<and> length ts = length vs \<and>
       length (held_line v) = length vs) \<and>
    (\<exists>ts vs. get_series series ''echo_latency_p99_seconds_30s'' = Inr (ts, vs) \<and> length ts = length vs \<and>
       length (p99_line v) = length vs) \<and>
    (\<forall>(t, y) \<in> set (p99_line v). y = NaN \<or> mk (1 / 1000) \<le> y)"
proof -
  obtain st cont t vs t2 vs2 kills where v:
    "mapE (\<lambda>r. bindE (sub r ''local'') parse_local) rows = Inr st" "mapE (float_or_nan ''container_mem_mib'') rows = Inr cont"
    "get_series series ''server_connections_active'' = Inr (t, vs)" "get_series series ''echo_latency_p99_seconds_30s'' = Inr (t2, vs2)"
    "v = \<lparr>held_line = zip t (map (\<lambda>x. fdiv x (Fin 1000000)) vs),
          container_mem = zip st cont, container_limit = 6144, guard_line = Fin 6144 * mk (9 / 10),
          p99_line = zip t2 (map clamp_ms vs2), kill_lines = kills, kill_labels = zip (map snd KILLS) kills,
          held_top = mk (11 / 10), memory_top = 6800\<rparr>"
    using assms by (auto simp: overview_of_def res_simps)
  have same: "length ts = length fs" if "get_series series name = Inr (ts, fs)" for name ts fs
    using that by (auto simp: get_series_def get_times_def get_floats_def bindE_Inr_iff dest!: mapE_length)
  have "clamp_ms x = NaN \<or> mk (1 / 1000) \<le> clamp_ms x" for x
    by (cases x) (auto simp: clamp_ms_def less_flt_def mk_moderate not_le split: if_splits)
  then have "\<forall>(t, y) \<in> set (zip t2 (map clamp_ms vs2)). y = NaN \<or> mk (1 / 1000) \<le> y"
    by (fastforce dest!: set_zip_rightD)
  then show ?thesis
    using v same [OF v(3)] same [OF v(4)] mapE_length [OF v(1)] mapE_length [OF v(2)] by auto
qed

end
