(* ===== verification/Recorded.thy ===== *)
theory Recorded
  imports Compare CostGuard Registry MemoryGuard Listening
begin

text \<open>
  Runs of the programs themselves: the recorder's files under \<open>results/local\<close> and the test cases of the
  repository, evaluated in the model. The values of the JSON files are written as they stand there, a
  decimal fraction as the double nearest to it; the pages and tables compared with are those that the scripts
  wrote.
\<close>

section \<open>The summaries of three runs\<close>

definition json_int :: "int \<Rightarrow> pyval" where
  "json_int i = VNum (PInt i)"

definition json_float :: "rat \<Rightarrow> pyval" where
  "json_float r = VNum (PFlo (mk r))"

definition guard_1 :: pyval where
  "guard_1 = VDict [
     (''variant'', VStr ''nbio-guard''), (''stop_reason'', VStr ''no growth above 180,836 connections for 90s''), (''duration_s'', json_int 268),
     (''peak_connections'', json_int 180842), (''loadgen_target'', json_float 300000.0), (''at_peak'', VDict [(''server_conns'', json_float 180842.0), (''loadgen_conns'', json_float 180842.0), (''loadgen_target'', json_float 300000.0),
     (''cg_memory'', json_int 1004466176), (''cg_anon'', json_int 292065280), (''cg_sock'', json_int 69632),
     (''cg_kernel'', json_int 711135232), (''cg_slab'', json_int 710153048), (''cg_percpu'', json_int 4984),
     (''cg_file'', json_int 0), (''cg_peak'', json_int 1006219264), (''oom_kills'', json_int 0),
     (''cpu_pct'', json_float 40.7), (''pids'', json_int 15), (''process_rss'', json_float 299122688.0),
     (''go_heap_inuse'', json_float 276389888.0), (''go_stack_inuse'', json_float 2588672.0), (''goroutines'', json_float 58.0),
     (''open_fds'', json_float 180858.0), (''dial_errors_15s'', json_float 14976.303178578644), (''echo_rate'', json_float 6027.799328134373),
     (''echo_p50_ms'', json_float 2.5085643425875563), (''echo_p99_ms'', json_float 22.68160556851248), (''conntrack'', json_int 463),
     (''rejected'', json_float 89948.0)]),
     (''idle'', VDict [(''cg_memory'', json_int 4964352), (''cg_anon'', json_int 3477504), (''cg_sock'', json_int 0),
     (''cg_kernel'', json_int 704512), (''process_rss'', json_float 10801152.0), (''goroutines'', json_float 17.0),
     (''open_fds'', json_float 15.0)]), (''bytes_per_connection'', VDict [(''cgroup_total'', json_int 5527), (''cgroup_anon'', json_int 1596), (''kernel_sockets'', json_int 0),
     (''kernel_other'', json_int 3928), (''kernel_slab'', json_int 3925), (''process_rss'', json_int 1594),
     (''go_heap'', json_int 1454)]), (''cpu_pct_near_peak_avg'', json_float 41.9),
     (''final_state'', VStr ''running false 0''), (''oom_killed'', VBool False), (''cgroup_memory_peak'', json_int 1006219264),
     (''dial_errors_by_reason'', VDict [(''handshake'', json_int 87996)])]"

definition guard_2 :: pyval where
  "guard_2 = VDict [
     (''variant'', VStr ''nbio-guard''), (''stop_reason'', VStr ''no growth above 180,784 connections for 90s''), (''duration_s'', json_int 269),
     (''peak_connections'', json_int 181184), (''loadgen_target'', json_float 300000.0), (''at_peak'', VDict [(''server_conns'', json_float 181184.0), (''loadgen_conns'', json_float 181184.0), (''loadgen_target'', json_float 300000.0),
     (''cg_memory'', json_int 1006022656), (''cg_anon'', json_int 292319232), (''cg_sock'', json_int 12288),
     (''cg_kernel'', json_int 712433664), (''cg_slab'', json_int 711486264), (''cg_percpu'', json_int 4984),
     (''cg_file'', json_int 0), (''cg_peak'', json_int 1007632384), (''oom_kills'', json_int 0),
     (''cpu_pct'', json_float 43.4), (''pids'', json_int 13), (''process_rss'', json_float 299442176.0),
     (''go_heap_inuse'', json_float 273604608.0), (''go_stack_inuse'', json_float 1146880.0), (''goroutines'', json_float 18.0),
     (''open_fds'', json_float 181199.0), (''dial_errors_15s'', json_float 14969.100420084018), (''echo_rate'', json_float 6039.4400000000005),
     (''echo_p50_ms'', json_float 3.1999696998390306), (''echo_p99_ms'', json_float 32.8373432282004), (''conntrack'', json_int 463),
     (''rejected'', json_float 90042.0)]),
     (''idle'', VDict [(''cg_memory'', json_int 5775360), (''cg_anon'', json_int 4288512), (''cg_sock'', json_int 0),
     (''cg_kernel'', json_int 712704), (''process_rss'', json_float 11649024.0), (''goroutines'', json_float 18.0),
     (''open_fds'', json_float 15.0)]), (''bytes_per_connection'', VDict [(''cgroup_total'', json_int 5521), (''cgroup_anon'', json_int 1590), (''kernel_sockets'', json_int 0),
     (''kernel_other'', json_int 3928), (''kernel_slab'', json_int 3925), (''process_rss'', json_int 1588),
     (''go_heap'', json_int 1429)]), (''cpu_pct_near_peak_avg'', json_float 43.1),
     (''final_state'', VStr ''running false 0''), (''oom_killed'', VBool False), (''cgroup_memory_peak'', json_int 1007632384),
     (''dial_errors_by_reason'', VDict [(''handshake'', json_int 86651)])]"

definition guard_3 :: pyval where
  "guard_3 = VDict [
     (''variant'', VStr ''nbio-guard''), (''stop_reason'', VStr ''no growth above 180,558 connections for 90s''), (''duration_s'', json_int 268),
     (''peak_connections'', json_int 180558), (''loadgen_target'', json_float 300000.0), (''at_peak'', VDict [(''server_conns'', json_float 180558.0), (''loadgen_conns'', json_float 180558.0), (''loadgen_target'', json_float 300000.0),
     (''cg_memory'', json_int 1003524096), (''cg_anon'', json_int 292196352), (''cg_sock'', json_int 0),
     (''cg_kernel'', json_int 710000640), (''cg_slab'', json_int 709045296), (''cg_percpu'', json_int 4984),
     (''cg_file'', json_int 0), (''cg_peak'', json_int 1005551616), (''oom_kills'', json_int 0),
     (''cpu_pct'', json_float 41.3), (''pids'', json_int 14), (''process_rss'', json_float 299352064.0),
     (''go_heap_inuse'', json_float 276750336.0), (''go_stack_inuse'', json_float 2523136.0), (''goroutines'', json_float 18.0),
     (''open_fds'', json_float 180573.0), (''dial_errors_15s'', json_float 14989.5), (''echo_rate'', json_float 6018.6),
     (''echo_p50_ms'', json_float 2.7991252612960285), (''echo_p99_ms'', json_float 23.82768256481304), (''conntrack'', json_int 471),
     (''rejected'', json_float 90142.0)]),
     (''idle'', VDict [(''cg_memory'', json_int 7045120), (''cg_anon'', json_int 4718592), (''cg_sock'', json_int 0),
     (''cg_kernel'', json_int 708608), (''process_rss'', json_float 12173312.0), (''goroutines'', json_float 17.0),
     (''open_fds'', json_float 15.0)]), (''bytes_per_connection'', VDict [(''cgroup_total'', json_int 5519), (''cgroup_anon'', json_int 1592), (''kernel_sockets'', json_int 0),
     (''kernel_other'', json_int 3928), (''kernel_slab'', json_int 3925), (''process_rss'', json_int 1591),
     (''go_heap'', json_int 1451)]), (''cpu_pct_near_peak_avg'', json_float 43.0),
     (''final_state'', VStr ''running false 0''), (''oom_killed'', VBool False), (''cgroup_memory_peak'', json_int 1005551616),
     (''dial_errors_by_reason'', VDict [(''handshake'', json_int 87402)])]"

text \<open>The idle sample of the third run.\<close>

definition guard_3_idle :: "pyval dict" where
  "guard_3_idle = [
     (''t'', json_float 1790603579.2), (''cg_memory'', json_int 7045120), (''cg_peak'', json_int 7307264),
     (''cg_anon'', json_int 4718592), (''cg_sock'', json_int 0), (''cg_kernel'', json_int 708608),
     (''cg_slab'', json_int 369648), (''cg_percpu'', json_int 4984), (''cg_file'', json_int 0),
     (''oom_kills'', json_int 0), (''pids'', json_int 10), (''cpu_pct'', json_float 0.2),
     (''server_conns'', json_float 0.0), (''goroutines'', json_float 17.0), (''open_fds'', json_float 15.0),
     (''process_rss'', json_float 12173312.0), (''go_heap_inuse'', json_float 14753792.0), (''go_stack_inuse'', json_float 786432.0),
     (''rejected'', json_float 0.0), (''loadgen_conns'', VNone), (''loadgen_target'', VNone),
     (''dial_errors_15s'', VNone), (''echo_rate'', VNone), (''echo_p50_ms'', VNone),
     (''echo_p99_ms'', VNone), (''conntrack'', json_int 1203), (''state'', VStr ''running false 0'')]"

section \<open>What the scripts wrote\<close>

text \<open>The line of \<open>2026-09-28-comparison.md\<close> for this variant.\<close>

lemma guard_line:
  "table_line (VStr ''nbio-guard'', [guard_1, guard_2, guard_3]) =
     Inr ''| `nbio-guard` | 3 | 180,842 (180,558 to 181,184) | 5.39 (5.39 to 5.40) | 3.84 | 1.55 (1.55 to 1.56) | 43% (42% to 43%) | 24 (23 to 33) | stopped growing, server still up |''"
  by code_simp

text \<open>The memory per connection in \<open>summary.json\<close> of the third run.\<close>

lemma guard_3_per_connection:
  "bindE (item_key ''at_peak'' guard_3) (\<lambda>at_peak. case at_peak of
     VDict peak \<Rightarrow> map_sum id VDict (bytes_per_connection peak guard_3_idle (PFlo (Fin 180558))) | _ \<Rightarrow> Inl TypeError) =
   item_key ''bytes_per_connection'' guard_3"
  by code_simp

text \<open>The page \<open>summary.md\<close> of the third run.\<close>

lemma guard_3_page:
  "(case guard_3 of VDict s \<Rightarrow>
     (case (map_of s ''at_peak'', map_of s ''bytes_per_connection'', map_of s ''cpu_pct_near_peak_avg'',
            map_of s ''cgroup_memory_peak'') of
        (Some (VDict peak), Some (VDict b), Some average, Some mem_peak) \<Rightarrow>
          summary_lines ''nbio-guard'' guard_3_idle peak (PFlo (Fin 180558)) ''no growth above 180,558 connections for 90s''
            ''running false 0'' b average mem_peak [(''handshake'', 87402)]
      | _ \<Rightarrow> Inl TypeError)
   | _ \<Rightarrow> Inl TypeError) = Inr [
     ''# nbio-guard'',
     '''',
     ''Stopped because: no growth above 180,558 connections for 90s.'',
     '''',
     ''| Metric | Idle | At peak |'',
     ''| --- | --- | --- |'',
     ''| Connections | 0 | 180,558 |'',
     ''| Container memory (cgroup) | 6.7 MiB | 957.0 MiB |'',
     ''| Kernel memory (socket structs, epoll, slab) | 0.7 MiB | 677.1 MiB |'',
     ''| Kernel socket buffers | 0.0 MiB | 0.0 MiB |'',
     ''| Process RSS | 11.6 MiB | 285.5 MiB |'',
     ''| Go heap in use | 14.1 MiB | 263.9 MiB |'',
     ''| Goroutines | 17 | 18 |'',
     ''| Open file descriptors | 15 | 180,573 |'',
     ''| CPU, average near peak | | 43.0% of one core |'',
     ''| Echo latency p50 / p99 | | 3 ms / 24 ms |'',
     '''',
     ''Memory per connection, (peak - idle) / connections:'',
     '''',
     ''| Source | Per connection |'',
     ''| --- | --- |'',
     ''| Container total (cgroup) | 5.4 KiB |'',
     ''| Anonymous memory | 1.6 KiB |'',
     ''| Kernel memory (socket structs, epoll, slab) | 3.8 KiB |'',
     ''| of which slab objects | 3.8 KiB |'',
     ''| Kernel socket buffers | 0.0 KiB |'',
     ''| Process RSS | 1.6 KiB |'',
     ''| Go heap | 1.4 KiB |'',
     '''',
     ''Final container state: `running false 0` (status, OOM-killed, exit code). Highest cgroup memory during the run: 959.0 MiB.'',
     '''',
     ''Dial errors by reason: handshake 87,402.'',
     '''']"
  by code_simp

section \<open>The test cases of the repository\<close>

text \<open>\<open>TestParsePorts\<close>, \<open>TestListenAddrsDropsRepeats\<close>, \<open>TestCheckListening\<close>, \<open>TestReadCgroupInt\<close> and
  \<open>TestValidateMaxLoad\<close> of \<open>main_test.go\<close>.\<close>

lemma test_parsePorts:
  "map parsePorts [[], '' , ,'', ''8081'', ''8081, 8090-8092'', ''8080-8080'', ''1-2,65535''] =
     map Inr [[], [], [8081], [8081, 8090, 8091, 8092], [8080], [1, 2, 65535]]"
  "list_all (\<lambda>s. case parsePorts s of Inl e \<Rightarrow> True | Inr ps \<Rightarrow> False) [''abc'', ''8081-abc'', ''8095-8090'', ''0'', ''65536'', ''8080-70000'']"
  by code_simp+

lemma test_listenAddrs:
  "listenAddrs ''0.0.0.0'' 8080 ''8080-8082'' = Inr [''0.0.0.0:8080'', ''0.0.0.0:8081'', ''0.0.0.0:8082'']"
  "listenAddrs ''127.0.0.1'' 9000 [] = Inr [''127.0.0.1:9000'']"
  "listenAddrs ''0.0.0.0'' 8080 ''nope'' = Inl (BadPorts ''nope'')"
  by code_simp+

lemma test_checkListening:
  "(let dial = (\<lambda>a. if a = ''127.0.0.1:7001'' then None else Some ''refused'')
    in (checkListening dial [''127.0.0.1:7001''], checkListening dial [''127.0.0.1:7001'', ''127.0.0.1:7002''])) =
     (None, Some (NotListening ''127.0.0.1:7002'' ''refused''))"
  by code_simp

lemma test_readCgroupInt:
  "map readCgroupInt [Some (''1073741824'' @ [CHR 0x0A]), Some (''max'' @ [CHR 0x0A]), Some (''0'' @ [CHR 0x0A]), Some [], None] =
     [(1073741824, True), (0, False), (0, False), (0, False), (0, False)]"
  by code_simp

lemma test_validateMaxLoad:
  "list_all (\<lambda>n. validateMaxLoad n = None) [1, 1000, defaultMaxLoad, 3000000]"
  "list_all (\<lambda>n. validateMaxLoad n = Some (BadMaxLoad n)) [0, -1, -1000000]"
  by (simp_all add: validateMaxLoad_def defaultMaxLoad_def)

text \<open>\<open>TestRegistryAddRemove\<close>, \<open>TestRegistryClosedBeforeAdd\<close> and \<open>TestRegistryBatchWraps\<close> of
  \<open>registry_test.go\<close>: the answers of the calls, the length and the batches.\<close>

fun answers :: "'c op list \<Rightarrow> 'c registry \<Rightarrow> (bool list \<times> 'c registry) option" where
  "answers [] r = Some ([], r)"
| "answers (Add c # ops) r = (case reg_add c r of (r', b) \<Rightarrow>
     map_option (\<lambda>(bs, s). (b # bs, s)) (answers ops r'))"
| "answers (Remove c # ops) r = (case reg_remove c r of None \<Rightarrow> None | Some (r', b) \<Rightarrow>
     map_option (\<lambda>(bs, s). (b # bs, s)) (answers ops r'))"

lemma test_add_remove:
  "map_option (\<lambda>(bs, r). (bs, reg_len r, reg_batch r 0 10))
     (answers [Add ''a'', Add ''b'', Add ''c'', Add ''d'', Add ''b'', Remove ''b'', Remove ''b''] empty_registry) =
   Some ([True, True, True, True, False, True, False], 3, Some ([''a'', ''d'', ''c''], 3 mod 3))"
  "map_option (\<lambda>(bs, r). (bs, reg_len r))
     (answers [Add ''a'', Add ''b'', Add ''c'', Add ''d'', Remove ''b'', Remove ''d'', Remove ''c'', Remove ''a''] empty_registry) =
   Some (replicate 8 True, 0)"
  by code_simp+

lemma test_closed_before_add:
  "map_option (\<lambda>(bs, r). (bs, reg_len r)) (answers [Remove ''late'', Add ''late'', Add ''late''] empty_registry) =
     Some ([False, False, True], 1)"
  by code_simp

lemma test_batch_wraps:
  "map_option (\<lambda>(bs, r). (reg_batch r 0 3, reg_batch r 3 3, map_option (length \<circ> fst) (reg_batch r 0 99)))
     (answers (map Add [0, 1, 2, 3, 4 :: nat]) empty_registry) =
   Some (Some ([0, 1, 2], 3), Some ([3, 4, 0], 1), Some 5)"
  "reg_batch (empty_registry :: nat registry) 7 3 = Some ([], 0)"
  by code_simp+

text \<open>The cases of \<open>test_guard.py\<close>.\<close>

definition inst :: "string \<Rightarrow> int \<Rightarrow> instance_desc" where
  "inst i age = \<lparr>instance_id = i, launch = - age * 60000000, tags = [(''Project'', ''millionws-bench'')], run_state = ''running''\<rparr>"

definition fake_ec2 :: "instance_desc list \<Rightarrow> ec2" where
  "fake_ec2 instances = \<lparr>describe = (\<lambda>fs. Inr [[take 1 instances, drop 1 instances]]), terminate_error = (\<lambda>ids. None)\<rparr>"

lemma test_expired_boundary:
  "expired [inst ''a'' 254, inst ''b'' 255, inst ''c'' 256, inst ''d'' 900] 0 255 = Inr [''c'', ''d'']"
  by code_simp

lemma test_guard_handler:
  "map (\<lambda>is. map_sum id (\<lambda>r. (terminate_calls r, checked r, terminated r))
      (bindE (read_config (\<lambda>_. None)) (\<lambda>cf. handler cf (fake_ec2 is) (Some 0) 0)))
     [[inst ''young'' 10, inst ''old'' 400, inst ''older'' 1000], [inst ''young'' 10], []] =
   map Inr [([[''old'', ''older'']], 3, [''old'', ''older'']), ([], 1, []), ([], 0, [])]"
  by code_simp

end
