(* ===== verification/Spec2Isabelle.thy ===== *)
theory Spec2Isabelle
  imports MemoryGuard Listening Routes Artifacts CostGuard DialProgress Durations Server RunCharts Recorded
begin

text \<open>
  A verification library for \<open>millionws\<close>: a WebSocket echo server built to hold a million
  connections, the load generator that opens them, and the scripts that measure, compare and chart a run
  and guard its cost.

  \<^bold>\<open>The program.\<close> The server (\<open>main.go\<close>, \<open>memory.go\<close>) accepts WebSocket connections on a list of
  ports, echoes every message, and watches the container's memory in two background loops: one answers
  503 instead of accepting while memory is high, one keeps the Go memory limit in step. The load
  generator (\<open>cmd/loadgen\<close>) dials connections, keeps them in a registry, sends time stamps over
  them and measures the echoes. During a run \<open>bench/local/record.py\<close> samples both from outside and
  writes a table and a summary; \<open>bench/local/compare.py\<close> makes one table of several summaries;
  \<open>scripts/evidence\<close> exports the metrics and draws charts; \<open>infra/opentofu/aws-ec2/guard/guard.py\<close>
  terminates cloud instances that outlive their deadline.

  \<^bold>\<open>The theories.\<close>

  \<^item> \<open>Prelude\<close>: exceptions as a datatype and results as \<open>py_error + 'a\<close> with \<open>bindE\<close>, \<open>mapE\<close> and
    \<open>filterE\<close>; dictionaries as association lists; Go's truncating division and 64-bit wrap-around.
  \<^item> \<open>Floats\<close>: IEEE doubles as rationals with infinities and NaN; \<open>rnd\<close> rounds to nearest, ties to
    even, and \<open>mk\<close> overflows. The locale \<open>rounding\<close> holds the facts the other theories use.
  \<^item> \<open>Text\<close>, \<open>PyNum\<close>, \<open>Urls\<close>, \<open>Csv\<close>: what the sources use of the standard libraries: splitting,
    parsing and formatting numbers, Python's numbers and JSON values, URL encoding, \<open>csv.DictReader\<close>.
  \<^item> \<open>Repr\<close>, \<open>Json\<close>: that 17 digits determine a double, so \<open>float(repr(x))\<close> is \<open>x\<close>; \<open>json.dump\<close> and
    \<open>json.load\<close> on texts (\<open>json_dumps\<close>, \<open>json_loads\<close>), inverse to each other on the values \<open>json_ok\<close>.
  \<^item> \<open>Registry\<close>: \<open>cmd/loadgen/registry.go\<close>. A record holds the slice, the index map and the closed
    set; \<open>reg_add\<close>, \<open>reg_remove\<close>, \<open>reg_len\<close> and \<open>reg_batch\<close> are its methods, each atomic under the mutex. The
    locale \<open>conn_pool\<close> is the contract its callers rely on; it refines a pool of two sets.
  \<^item> \<open>LoadGen\<close>: \<open>dialLoop\<close>, its goroutines and \<open>OnClose\<close> of \<open>cmd/loadgen/main.go\<close> as a step relation
    \<open>dial_step\<close> on the state they share; a step is one atomic access. The invariant \<open>dial_inv\<close> bounds the
    connections and accounts for the semaphore and both counters in every interleaving; the measure \<open>moves_left\<close> bounds the moves of one tick.
  \<^item> \<open>DialProgress\<close>: from every reachable state the goroutines can finish, the loop can get to its next
    tick, and the target can be reached.
  \<^item> \<open>Messages\<close>: \<open>sendLoop\<close> with its floating-point carry, the time stamps in the payload, \<open>OnMessage\<close>,
    \<open>classify\<close>, \<open>envOr\<close> and \<open>envInt\<close>.
  \<^item> \<open>Durations\<close>: \<open>envDuration\<close> with Go's \<open>time.ParseDuration\<close> and \<open>Duration.String\<close> written out, and
    the defaults that \<open>main\<close> of the load generator takes from the environment.
  \<^item> \<open>MemoryGuard\<close>: \<open>memory.go\<close>. \<open>guardMemory\<close> and \<open>manageMemoryLimit\<close> as functions of the files they
    read; the locale \<open>hysteresis\<close> is the contract of the two marks.
  \<^item> \<open>Ports\<close>: \<open>validateMaxLoad\<close>, \<open>parsePorts\<close> and \<open>listenAddrs\<close> of \<open>main.go\<close>.
  \<^item> \<open>Routes\<close>: \<open>newMux\<close> and what \<open>net/http\<close>'s \<open>ServeMux\<close> makes of a path: cleaning, redirects, the most
    specific pattern.
  \<^item> \<open>Listening\<close>: \<open>main\<close> of the server up to the wait for a signal, with \<open>checkListening\<close> and what it uses
    of \<open>net\<close>: \<open>ParseIP\<close> on 16 bytes and \<open>SplitHostPort\<close>.
  \<^item> \<open>Server\<close>: the \<open>/ws\<close> handler and the callbacks of \<open>main.go\<close> together with the guard, as events over
    the counters and the flag; \<open>serve\<close> runs a sequence of events.
  \<^item> \<open>Metrics\<close>, \<open>Sampler\<close>, \<open>Summary\<close>, \<open>RunLoop\<close>: \<open>bench/local/record.py\<close>: the readers of the outside
    world, one sample (\<open>Sampler.sample\<close>), \<open>write_summary\<close>, and \<open>cmd_run\<close> and \<open>cmd_idle\<close>.
  \<^item> \<open>Compare\<close>: \<open>bench/local/compare.py\<close>; the locale \<open>comparison\<close> is what the median needs of an order.
  \<^item> \<open>Artifacts\<close>: the files between the commands of \<open>record.py\<close> and \<open>compare.py\<close> as texts: \<open>idle_script\<close>,
    \<open>run_script\<close> and \<open>compare_script\<close> read and write \<open>idle.json\<close>, \<open>samples.csv\<close>, \<open>summary.json\<close> and
    \<open>summary.md\<close>; \<open>record_main\<close> is the choice of the mode.
  \<^item> \<open>CostGuard\<close>: \<open>guard.py\<close>, with the EC2 client as a parameter.
  \<^item> \<open>Export\<close>, \<open>RunCharts\<close>, \<open>StallCharts\<close>: the four scripts of \<open>scripts/evidence\<close>, from their arguments to
    the exported text, the figures (\<open>figure\<close>: panels, texts, legend, file name) and the printed line. The locale
    \<open>trace_clock\<close> is what reading a trace needs of the two versions of \<open>sec\<close>.
  \<^item> \<open>Recorded\<close>: checks of the model against the repository: the page and the table line that the
    scripts wrote for recorded runs under \<open>results/local\<close>, and the cases of its unit tests.

  \<^bold>\<open>What is shown.\<close> Each component has an invariant or a specification and the lemmas that its
  operations keep or meet it: refinement for the registry, step invariants for dialing and for the
  server's counters, the last decisive reading for the guard, the stop reason of a run as a function of its
  samples alone (\<open>why_stop\<close> in \<open>RunLoop\<close>), what a cell of the comparison reports, the reading behind the headroom
  of a stall chart, error bounds that include the float
  rounding for memory limits, memory per connection and the message rate, totality of the summary, the
  comparison and the export, the end of every tick of the dial loop and the way to its target, that a server which has started
  answers on every configured port, and round trips for ports, time stamps, URLs, traces, the load
  generator's configuration and the texts of \<open>idle.json\<close>, \<open>samples.csv\<close>, \<open>summary.json\<close> and the export. This theory adds what spans components: the recorder's summary files always make a
  table, the load generator reads its own send times from the server's echoes, and the columns of
  connections and rejections in a sample are what the server counted.

  \<^bold>\<open>Bounds.\<close> A loop over time is a function of the list of what it reads, so it needs no fuel; the
  run of the recorder is a function of the clock and sample streams and is shown to stop at its time limit.
  \<open>exp10_from\<close> in \<open>Text\<close> has fuel 400, more than the decimal exponents of doubles, and \<open>shortest\<close>
  tries all of 1 to 17 digits, which suffice by \<open>repr_reads_back\<close> in \<open>Repr\<close>. \<open>json_loads\<close> gives its
  scanner the fuel \<open>2 * length + 1\<close>, and \<open>scan_fuel\<close> in \<open>Json\<close> shows that more changes nothing. The message rate is stated for up to 45 million
  connections and intervals up to \<open>2 ^ 53\<close> ns, where products of the source stay exact, and from 100 ms on, below
  which the batches are too small for it (\<open>short_interval\<close> in \<open>Messages\<close>).

  \<^bold>\<open>Outside the source.\<close> \<open>nbio\<close>, Prometheus, Docker, the cgroup files, EC2 and matplotlib are
  parameters: what they deliver is an argument, and what is relied on is stated (\<open>enabled\<close> in
  \<open>Server\<close>; \<open>honours\<close>, which speaks only of requests with the two filters the watchdog uses, and \<open>terminates\<close>
  in \<open>CostGuard\<close>).

  \<^bold>\<open>Not modelled.\<close> \<open>argparse\<close>, HTTP and process calls themselves, log lines and the Prometheus
  counters of the load generator; what a command leaves in its files when it raises; the shutdown of both Go programs; requests with the method \<open>CONNECT\<close> or percent escapes in
  their path; colours, fonts, sizes and the tick format of the charts; shell scripts, OpenTofu, Compose
  and dashboards. Strings are bytes: white space beyond Latin-1 is not recognised, and a JSON escape above
  \<open>u00ff\<close> counts as malformed. The nesting limit of \<open>json.load\<close> is ignored. Negative zero is the
  same as zero, Python's limit of 4300 digits for \<open>int\<close> is ignored, and no NaN is sorted.
\<close>

section \<open>From the recorder to the comparison table\<close>

text \<open>What the recorder's dictionaries give the comparison, once they are read from their files.\<close>

lemma run_wrote_tidy:
  assumes "run_wrote t"
  shows "\<exists>s. json_loads t = Inr s \<and> tidy_summary s \<and> named_run s"
proof -
  obtain vnt idle rs reason errors s where s: "summary_dict vnt idle rs reason errors = Inr s" "json_loads t = Inr (VDict s)"
    "list_all proper_row rs" "rs \<noteq> []" "proper_row idle"
    using assms by (rule run_wrote_summary)
  have "tidy_summary (VDict s)" using recorder_summary_tidy [OF s(3,4,5,1)] by blast
  then show ?thesis using s(2) by (auto simp: tidy_summary_def)
qed

text \<open>
  C1: from the recorder to the table: if every \<open>summary.json\<close> among the directories is the text that a run of
  the recorder left there, from well-typed samples, the comparison decodes all of them, prints its
  header and one line per variant and raises nothing: every key it reads is there and every number
  formats.
\<close>

theorem recorder_to_table:
  assumes "\<And>d t. d \<in> set dirs \<Longrightarrow> files (path_join d ''summary.json'') = Some t \<Longrightarrow> run_wrote t"
  shows "\<exists>ss lines. found (decoded_files files) dirs = map Inr ss \<and> compare_script files (prog # dirs) = Inr lines \<and>
    length lines = 2 + length (remdups (map variant_of ss))"
proof -
  have "\<exists>ss lines. found (decoded_files files) dirs = map Inr ss \<and> compare_main (decoded_files files) dirs = Inr lines \<and>
      length lines = 2 + length (remdups (map variant_of ss))"
  proof (rule compare_main_returns)
    show "named_files (decoded_files files) dirs"
      using assms run_wrote_tidy
      by (fastforce simp: named_files_def list_all_iff decoded_files_def split: option.splits sum.splits)
    fix s
    assume "Inr s \<in> set (found (decoded_files files) dirs)"
    then obtain d t where "d \<in> set dirs" "files (path_join d ''summary.json'') = Some t" "json_loads t = Inr s"
      by (auto simp: found_def List.map_filter_def decoded_files_def)
    then show "tidy_summary s" using assms run_wrote_tidy by fastforce
  qed
  then show ?thesis by (simp add: compare_script_def)
qed

theorem recorder_to_table_witness:
  "\<exists>t lines. run_wrote t \<and>
    compare_script [''run/summary.json'' \<mapsto> t] [''compare.py'', ''run'', ''missing''] = Inr lines \<and> length lines = 3"
proof -
  obtain t where t: "run_wrote t" by (rule run_wrote_exists)
  let ?files = "[''run/summary.json'' \<mapsto> t] :: text_files"
  have p: "path_join ''run'' ''summary.json'' = ''run/summary.json''" "path_join ''missing'' ''summary.json'' \<noteq> ''run/summary.json''"
    by code_simp+
  then have f: "found (decoded_files ?files) [''run'', ''missing''] = [json_loads t]"
    by (simp add: found_def map_filter_simps decoded_files_def)
  have "\<exists>ss lines. found (decoded_files ?files) [''run'', ''missing''] = map Inr ss \<and>
      compare_script ?files [''compare.py'', ''run'', ''missing''] = Inr lines \<and> length lines = 2 + length (remdups (map variant_of ss))"
    by (rule recorder_to_table) (use t in \<open>auto split: if_splits\<close>)
  then obtain ss lines where "found (decoded_files ?files) [''run'', ''missing''] = map Inr ss"
    "compare_script ?files [''compare.py'', ''run'', ''missing''] = Inr lines" "length lines = 2 + length (remdups (map variant_of ss))"
    by (elim exE conjE)
  moreover from this(1) have "length ss = 1" unfolding f by (cases ss) auto
  ultimately show ?thesis using t by (auto simp: length_Suc_conv)
qed

section \<open>From the load generator through the server and back\<close>

text \<open>
  C16: The measured latency is that of the echoed message: if the messages the server receives are the
  ones the load generator wrote, in whatever order they go to connections and whatever else happens
  on the server, then the server writes each back on its own connection, in order, and the load
  generator reads from it the time at which it was sent.
\<close>

theorem echo_carries_send_time:
  assumes "sorted ts" "\<forall>t \<in> set ts. 0 \<le> t \<and> t \<le> int64_max"
    and run: "serve es (server_start max_file) = Some s"
    and msgs: "map (\<lambda>(c, mt, data). data) (received es) = stamped (new_buffer (payload_size payload)) ts"
  shows "map (\<lambda>(c, mt, data). read_stamp data) (written s) = map Some ts \<and>
    map fst (written s) = map fst (received es)"
proof -
  have w: "written s = received es" using written_serve [OF run] by (simp add: server_start_def)
  have "map (\<lambda>(c, mt, data). read_stamp data) (received es) = map read_stamp (map (\<lambda>(c, mt, data). data) (received es))"
    by (simp add: case_prod_unfold comp_def)
  then show ?thesis using stamps_from_new [OF assms(1,2), of payload] unfolding w msgs by simp
qed

theorem echo_carries_send_time_witness:
  "\<exists>s. serve [Request 1, Upgrade_opens 1 5, Message 5 1 ''7                   ''] (server_start None :: (nat, nat) server) = Some s \<and>
    map (\<lambda>(c, mt, data). read_stamp data) (written s) = [Some 7]"
proof -
  let ?es = "[Request 1, Upgrade_opens 1 5, Message 5 1 ''7                   ''] :: (nat, nat) event list"
  obtain s where s: "serve ?es (server_start None) = Some s" by (simp add: server_start_def readCgroupInt_def)
  have "map (\<lambda>(c, mt, data). data) (received ?es) = stamped (new_buffer (payload_size 8)) [7]" by code_simp
  from echo_carries_send_time [OF _ _ s this] s show ?thesis by (simp add: int64_max_def)
qed

section \<open>From the server's counters to the recorder\<close>

text \<open>
  A metrics page of the server in state \<open>s\<close>: the exposition format of the client library has one line
  per value, with the name before the first space, and the values are those of the counters.
\<close>

definition page_of :: "string \<Rightarrow> ('r, 'c) server \<Rightarrow> bool" where
  "page_of body s \<longleftrightarrow>
     list_all readable_line (splitlines body) \<and>
     shows_metric (splitlines body) ''millionws_connections_active'' (Fin (of_int (activeConnections s))) \<and>
     shows_metric (splitlines body) ''millionws_connections_rejected_total'' (Fin (of_nat (rejectedConnections s)))"

text \<open>
  C17: What the recorder reads is what the server holds: from the metrics page of a server after any run,
  the column of connections in a sample is the number of connections that are open, and the column of
  rejections is the number of 503 answers given.
\<close>

theorem recorder_reads_the_server:
  assumes run: "serve es (server_start max_file) = Some s" and page: "page_of body s"
    and smp: "sample ob sp = Inr (row, sp')" "metrics_page ob = Some body"
  shows "map_of row ''server_conns'' = Some (VNum (PFlo (Fin (of_nat (card (live s)))))) \<and>
    map_of row ''rejected'' = Some (VNum (PFlo (Fin (of_nat (length (replies s))))))"
proof -
  have acc: "activeConnections s = int (card (live s))" "length (replies s) = rejectedConnections s"
    using accounts_serve [OF run accounts_start] by (simp_all add: accounts_def)
  have fields: "map_of SERVER_FIELDS ''millionws_connections_active'' = Some ''server_conns''"
    "map_of SERVER_FIELDS ''millionws_connections_rejected_total'' = Some ''rejected''"
    by (simp_all add: SERVER_FIELDS_def)
  have "map_of (scrape_server (Some body)) ''server_conns'' = Some (VNum (PFlo (Fin (of_int (activeConnections s)))))"
    "map_of (scrape_server (Some body)) ''rejected'' = Some (VNum (PFlo (Fin (of_nat (rejectedConnections s)))))"
    using page scrape_shows [OF fields(1)] scrape_shows [OF fields(2)] unfolding page_of_def by blast+
  moreover have "''server_conns'' \<in> snd ` set SERVER_FIELDS" "''rejected'' \<in> snd ` set SERVER_FIELDS"
    by (simp_all add: SERVER_FIELDS_def)
  note columns = sample_server_column [OF smp(1) this(1)] sample_server_column [OF smp(1) this(2)]
  ultimately show ?thesis unfolding columns smp(2) acc(2) by (simp add: acc(1))
qed

definition sample_page :: string where
  "sample_page = ''# HELP millionws_connections_active Current number of active websocket connections'' @ [CHR 0x0A] @
     ''millionws_connections_active 1'' @ [CHR 0x0A] @ ''millionws_connections_rejected_total 1'' @ [CHR 0x0A]"

theorem recorder_reads_the_server_witness:
  "\<exists>row sp'. sample ((example_observation 100 5000000)\<lparr>metrics_page := Some sample_page\<rparr>) example_sampler = Inr (row, sp') \<and>
    map_of row ''server_conns'' = Some (VNum (PFlo (Fin 1))) \<and> map_of row ''rejected'' = Some (VNum (PFlo (Fin 1)))"
proof -
  let ?ob = "(example_observation 100 5000000)\<lparr>metrics_page := Some sample_page\<rparr>"
  have "bindE (sample ?ob example_sampler) (\<lambda>(s, sp'). Inr True) = Inr True" by code_simp
  then obtain row sp' where s: "sample ?ob example_sampler = Inr (row, sp')" by (auto simp: bindE_Inr_iff)
  have l: "splitlines sample_page = [''# HELP millionws_connections_active Current number of active websocket connections'',
      ''millionws_connections_active 1'', ''millionws_connections_rejected_total 1'']" by code_simp
  have "py_float_of ''1'' = Some (Fin 1)" by code_simp
  then have "page_of sample_page sample_end"
    by (simp add: page_of_def l readable_line_def shows_metric_def partition_at_def sample_end_def SERVER_FIELDS_def)
  from recorder_reads_the_server [OF sample_run this s] s show ?thesis
    by (simp add: sample_end_def)
qed

end
